(* ===== verification/Prelude.thy ===== *)
theory Prelude
  imports Main "HOL-Library.Word" "HOL-Library.Sublist" "HOL-Library.Char_ord"
    "HOL-Library.List_Lexorder"
begin

text \<open>
  The prelude of the development: the result type of fallible code with its sequencing
  operator, the operations of \<open>std::string\<close> that the server uses (\<open>find\<close>, \<open>find_last_of\<close>,
  \<open>find_first_not_of\<close>, \<open>find_last_not_of\<close>, \<open>substr\<close>) as functions on byte strings, the
  character classes of the C locale, and the generic lemmas on lists, options and words
  that the components share.
\<close>

section \<open>Collections of facts\<close>

named_theorems result_iff \<open>when a fallible computation succeeds\<close>
named_theorems find_iff \<open>characterisations of the string searches\<close>

section \<open>Fallible computations\<close>

text \<open>
  A computation that may throw has type \<open>'e + 'a\<close>: \<open>Inl\<close> is the exception, \<open>Inr\<close> the value.
\<close>

definition bindR :: "'e + 'a \<Rightarrow> ('a \<Rightarrow> 'e + 'b) \<Rightarrow> 'e + 'b" where
  "bindR m f = (case m of Inl e \<Rightarrow> Inl e | Inr x \<Rightarrow> f x)"

lemma bindR_simps [simp]:
  "bindR (Inl e) f = Inl e"
  "bindR (Inr x) f = f x"
  by (simp_all add: bindR_def)

lemma bindR_cong [fundef_cong]:
  assumes "m = m'" and "\<And>x. m' = Inr x \<Longrightarrow> f x = g x"
  shows "bindR m f = bindR m' g"
  using assms by (cases m') auto

lemma bindR_Inr_iff [result_iff]:
  "bindR m f = Inr y \<longleftrightarrow> (\<exists>x. m = Inr x \<and> f x = Inr y)"
  by (cases m) auto

lemma bindR_Inl_iff:
  "bindR m f = Inl e \<longleftrightarrow> m = Inl e \<or> (\<exists>x. m = Inr x \<and> f x = Inl e)"
  by (cases m) auto

lemma bindR_assoc: "bindR (bindR m f) g = bindR m (\<lambda>x. bindR (f x) g)"
  by (cases m) auto

lemma bindR_Inr_right [simp]: "bindR m Inr = m"
  by (cases m) auto

lemma bindR_split:
  "P (bindR m f) \<longleftrightarrow> (\<forall>e. m = Inl e \<longrightarrow> P (Inl e)) \<and> (\<forall>x. m = Inr x \<longrightarrow> P (f x))"
  by (cases m) auto

text \<open>\<open>guardR b e\<close> is the code's \<open>if (!b) throw e;\<close>.\<close>

definition guardR :: "bool \<Rightarrow> 'e \<Rightarrow> 'e + unit" where
  "guardR b e = (if b then Inr () else Inl e)"

lemma guardR_simps [simp]:
  "guardR True e = Inr ()"
  "guardR False e = Inl e"
  by (simp_all add: guardR_def)

lemma guardR_Inr_iff [result_iff]: "guardR b e = Inr u \<longleftrightarrow> b"
  by (simp add: guardR_def)

text \<open>A loop over a container whose body may throw.\<close>

fun foldR :: "('a \<Rightarrow> 's \<Rightarrow> 'e + 's) \<Rightarrow> 'a list \<Rightarrow> 's \<Rightarrow> 'e + 's" where
  "foldR f [] s = Inr s"
| "foldR f (x # xs) s = bindR (f x s) (foldR f xs)"

lemma foldR_append: "foldR f (xs @ ys) s = bindR (foldR f xs s) (foldR f ys)"
proof (induction xs arbitrary: s)
  case (Cons x xs)
  then have "foldR f (xs @ ys) = (\<lambda>t. bindR (foldR f xs t) (foldR f ys))" by blast
  then show ?case by (simp add: bindR_assoc)
qed simp

lemma foldR_invariant:
  assumes "foldR f xs s = Inr s'" and "P s"
    and "\<And>x s s'. x \<in> set xs \<Longrightarrow> P s \<Longrightarrow> f x s = Inr s' \<Longrightarrow> P s'"
  shows "P s'"
  using assms
proof (induction xs arbitrary: s)
  case (Cons x xs)
  from Cons.prems(1) obtain t where t: "f x s = Inr t" "foldR f xs t = Inr s'"
    by (auto simp: result_iff)
  have "P t" using Cons.prems(2,3) t(1) by auto
  then show ?case using Cons.IH [OF t(2)] Cons.prems(3) by auto
qed simp

fun mapR :: "('a \<Rightarrow> 'e + 'b) \<Rightarrow> 'a list \<Rightarrow> 'e + 'b list" where
  "mapR f [] = Inr []"
| "mapR f (x # xs) = bindR (f x) (\<lambda>y. bindR (mapR f xs) (\<lambda>ys. Inr (y # ys)))"

lemma mapR_Inr_iff [result_iff]:
  "mapR f xs = Inr ys \<longleftrightarrow> list_all2 (\<lambda>x y. f x = Inr y) xs ys"
  by (induction xs arbitrary: ys) (auto simp: result_iff list_all2_Cons1)

section \<open>Byte strings and the C locale\<close>

abbreviation code_of :: "char \<Rightarrow> nat" where
  "code_of c \<equiv> of_char c"

definition isspace :: "char \<Rightarrow> bool" where
  "isspace c \<longleftrightarrow> code_of c = 32 \<or> (9 \<le> code_of c \<and> code_of c \<le> 13)"

definition is_digit :: "char \<Rightarrow> bool" where
  "is_digit c \<longleftrightarrow> 48 \<le> code_of c \<and> code_of c \<le> 57"

definition digit_val :: "char \<Rightarrow> nat" where
  "digit_val c = code_of c - 48"

definition toupper :: "char \<Rightarrow> char" where
  "toupper c = (if 97 \<le> code_of c \<and> code_of c \<le> 122 then char_of (code_of c - 32) else c)"

lemma toupper_idem [simp]: "toupper (toupper c) = toupper c"
proof (cases "97 \<le> code_of c \<and> code_of c \<le> 122")
  case True
  then have "(code_of c - 32) mod 256 = code_of c - 32" by (intro mod_less) linarith
  with True show ?thesis by (auto simp: toupper_def)
qed (auto simp: toupper_def)

lemma digit_val_le: "is_digit c \<Longrightarrow> digit_val c \<le> 9"
  unfolding is_digit_def digit_val_def by linarith

lemma is_digit_not_special:
  "is_digit c \<Longrightarrow> \<not> isspace c"
  by (auto simp: is_digit_def isspace_def)

section \<open>Searching in strings\<close>

text \<open>\<open>hay.find(needle)\<close>: the least index where \<open>needle\<close> occurs; \<open>None\<close> is \<open>npos\<close>.\<close>

fun find_str :: "'a list \<Rightarrow> 'a list \<Rightarrow> nat option" where
  "find_str needle [] = (if needle = [] then Some 0 else None)"
| "find_str needle (c # cs) =
     (if prefix needle (c # cs) then Some 0 else map_option Suc (find_str needle cs))"

text \<open>\<open>hay.find(needle, pos)\<close>.\<close>

definition find_str_from :: "'a list \<Rightarrow> 'a list \<Rightarrow> nat \<Rightarrow> nat option" where
  "find_str_from needle hay pos =
     (if pos \<le> length hay then map_option (\<lambda>i. pos + i) (find_str needle (drop pos hay)) else None)"

text \<open>\<open>hay.find_first_not_of(cs)\<close> and \<open>hay.find_last_not_of(cs)\<close>.\<close>

fun find_first_not_of :: "'a list \<Rightarrow> 'a list \<Rightarrow> nat option" where
  "find_first_not_of cs [] = None"
| "find_first_not_of cs (x # xs) =
     (if x \<in> set cs then map_option Suc (find_first_not_of cs xs) else Some 0)"

definition find_last_not_of :: "'a list \<Rightarrow> 'a list \<Rightarrow> nat option" where
  "find_last_not_of cs xs =
     map_option (\<lambda>i. length xs - Suc i) (find_first_not_of cs (rev xs))"

text \<open>\<open>hay.find_last_of(cs)\<close>: the greatest index of a character of \<open>cs\<close>.\<close>

fun find_first_of :: "'a list \<Rightarrow> 'a list \<Rightarrow> nat option" where
  "find_first_of cs [] = None"
| "find_first_of cs (x # xs) =
     (if x \<in> set cs then Some 0 else map_option Suc (find_first_of cs xs))"

definition find_last_of :: "'a list \<Rightarrow> 'a list \<Rightarrow> nat option" where
  "find_last_of cs xs = map_option (\<lambda>i. length xs - Suc i) (find_first_of cs (rev xs))"

text \<open>\<open>s.substr(pos, n)\<close> for \<open>pos \<le> s.size()\<close>.\<close>

definition substr :: "'a list \<Rightarrow> nat \<Rightarrow> nat \<Rightarrow> 'a list" where
  "substr s pos n = take n (drop pos s)"

lemma find_str_SomeD:
  "find_str needle hay = Some i \<Longrightarrow>
     prefix needle (drop i hay) \<and> i \<le> length hay \<and> (\<forall>j<i. \<not> prefix needle (drop j hay))"
proof (induction hay arbitrary: i)
  case Nil
  then show ?case by (simp split: if_splits)
next
  case (Cons c cs)
  show ?case
  proof (cases "prefix needle (c # cs)")
    case True
    with Cons.prems show ?thesis by simp
  next
    case False
    with Cons.prems obtain k where k: "find_str needle cs = Some k" "i = Suc k" by auto
    from Cons.IH [OF k(1)] False k(2) show ?thesis
      by (auto simp: less_Suc_eq_0_disj)
  qed
qed

lemma find_str_NoneD: "find_str needle hay = None \<Longrightarrow> \<not> prefix needle (drop j hay)"
proof (induction hay arbitrary: j)
  case Nil
  then show ?case by (simp split: if_splits)
next
  case (Cons c cs)
  then show ?case by (cases j) (auto split: if_splits)
qed

lemma find_str_Some_iff [find_iff]:
  "find_str needle hay = Some i \<longleftrightarrow>
     prefix needle (drop i hay) \<and> i \<le> length hay \<and> (\<forall>j<i. \<not> prefix needle (drop j hay))"
    (is "?L \<longleftrightarrow> ?R")
proof
  assume ?R
  then obtain k where k: "find_str needle hay = Some k"
    using find_str_NoneD by (cases "find_str needle hay") blast+
  from find_str_SomeD [OF k] \<open>?R\<close> have "k = i" by (meson linorder_neqE_nat)
  with k show ?L by simp
qed (rule find_str_SomeD)

lemma find_str_None_iff [find_iff]:
  "find_str needle hay = None \<longleftrightarrow> (\<forall>j. \<not> prefix needle (drop j hay))"
proof
  assume h: "\<forall>j. \<not> prefix needle (drop j hay)"
  show "find_str needle hay = None"
  proof (cases "find_str needle hay")
    case (Some i)
    then show ?thesis using h find_str_SomeD by blast
  qed simp
qed (blast dest: find_str_NoneD)

lemma find_str_Some_split:
  assumes "find_str needle hay = Some i"
  shows "hay = take i hay @ needle @ drop (i + length needle) hay"
proof -
  from find_str_SomeD [OF assms] obtain r where r: "drop i hay = needle @ r" and "i \<le> length hay"
    by (auto simp: prefix_def)
  then have "drop (i + length needle) hay = r"
    by (metis add.commute append_eq_conv_conj drop_drop)
  with r show ?thesis by (metis append_take_drop_id)
qed

lemma find_str_bound:
  assumes "find_str needle hay = Some i"
  shows "i + length needle \<le> length hay"
proof -
  from find_str_SomeD [OF assms] have "length needle \<le> length (drop i hay)" "i \<le> length hay"
    by (auto dest: prefix_length_le)
  then show ?thesis by simp
qed

lemma find_str_single: "find_str [c] xs = find_first_of [c] xs"
  by (induction xs) auto

lemma find_first_not_of_dropWhile:
  "(case find_first_not_of cs xs of None \<Rightarrow> [] | Some i \<Rightarrow> drop i xs) = dropWhile (\<lambda>x. x \<in> set cs) xs"
  by (induction xs) (auto split: option.splits)

lemma find_first_not_of_None [find_iff]:
  "find_first_not_of cs xs = None \<longleftrightarrow> set xs \<subseteq> set cs"
  by (induction xs) auto

lemma find_first_of_None [find_iff]:
  "find_first_of cs xs = None \<longleftrightarrow> set xs \<inter> set cs = {}"
  by (induction xs) auto

lemma find_first_of_Some_iff [find_iff]:
  "find_first_of cs xs = Some i \<longleftrightarrow>
     i < length xs \<and> xs ! i \<in> set cs \<and> (\<forall>j<i. xs ! j \<notin> set cs)"
proof (induction xs arbitrary: i)
  case (Cons x xs)
  show ?case
  proof (cases i)
    case 0
    then show ?thesis by auto
  next
    case (Suc k)
    then show ?thesis using Cons.IH [of k] by (auto simp: less_Suc_eq_0_disj)
  qed
qed simp

lemma find_first_not_of_bound: "find_first_not_of cs xs = Some i \<Longrightarrow> i < length xs"
  by (induction xs arbitrary: i) (auto split: if_splits)

lemma find_first_of_append_left:
  "find_first_of cs xs = Some i \<Longrightarrow> find_first_of cs (xs @ ys) = Some i"
  by (induction xs arbitrary: i) (auto split: if_splits)

lemma find_first_of_append_right:
  "find_first_of cs xs = None \<Longrightarrow>
     find_first_of cs (xs @ ys) = map_option (\<lambda>i. length xs + i) (find_first_of cs ys)"
  by (induction xs) (auto simp: option.map_comp o_def option.map_ident
      plus_nat.add_0 [abs_def] split: if_splits intro!: option.map_cong)

section \<open>Words\<close>

lemma unat_lt_exp: "unat (w :: 'a::len word) < 2 ^ LENGTH('a)"
  by (fact unsigned_less)

lemma unat_word_of_nat: "n < 2 ^ LENGTH('a::len) \<Longrightarrow> unat (word_of_nat n :: 'a word) = n"
  by (simp add: unsigned_of_nat take_bit_nat_eq_self)

lemma unat_minus_one: "unat (- 1 :: 'a::len word) = 2 ^ LENGTH('a) - 1"
  by (simp add: unsigned_minus_1_eq_mask mask_eq_exp_minus_1)

lemma unat_add_lt:
  "unat a + unat b < 2 ^ LENGTH('a) \<Longrightarrow> unat (a + b :: 'a::len word) = unat a + unat b"
  by (simp add: unat_word_ariths)

section \<open>Invariants of step relations\<close>

text \<open>The contract of a step relation with an invariant, and what it gives for whole runs.\<close>

locale step_invariant =
  fixes step :: "'s \<Rightarrow> 's \<Rightarrow> bool"
    and inv :: "'s \<Rightarrow> bool"
  assumes step_inv: "step s s' \<Longrightarrow> inv s \<Longrightarrow> inv s'"
begin

lemma run_inv: "step\<^sup>*\<^sup>* s s' \<Longrightarrow> inv s \<Longrightarrow> inv s'"
  by (induction rule: rtranclp_induct) (auto intro: step_inv)

lemma run_from:
  assumes "inv s0" "step\<^sup>*\<^sup>* s0 s"
  shows "inv s"
  using run_inv assms by blast

end

end
