(* ===== verification/Utils.thy ===== *)
theory Utils
  imports Prelude
begin

text \<open>
  The string helpers of \<open>src/src/Utils.cpp\<close> and the number parser of \<open>src/src/Utils.tpp\<close>.
  Every function is translated with the searches of \<open>std::string\<close> it calls; the lemmas
  show that the trimming functions strip exactly the maximal runs, that \<open>replaceAll\<close>
  returns for a non-empty needle and computes the left-to-right replacement, and that
  \<open>parseNumber\<close> accepts exactly the canonical decimal numerals up to its bound, never
  wrapping around.
\<close>

section \<open>Prefixes, trimming, case\<close>

definition startsWith :: "string \<Rightarrow> string \<Rightarrow> bool" where
  "startsWith haystack needle \<longleftrightarrow> prefix needle haystack"

definition ltrim :: "string \<Rightarrow> string \<Rightarrow> string" where
  "ltrim s t = (case find_first_not_of t s of None \<Rightarrow> [] | Some i \<Rightarrow> drop i s)"

definition rtrim :: "string \<Rightarrow> string \<Rightarrow> string" where
  "rtrim s t = (case find_last_not_of t s of None \<Rightarrow> take 0 s | Some i \<Rightarrow> take (i + 1) s)"

definition trim :: "string \<Rightarrow> string \<Rightarrow> string" where
  "trim s t = ltrim (rtrim s t) t"

definition upper :: "string \<Rightarrow> string" where
  "upper str = map toupper str"

lemma ltrim_dropWhile: "ltrim s t = dropWhile (\<lambda>c. c \<in> set t) s"
  unfolding ltrim_def by (rule find_first_not_of_dropWhile)

lemma rtrim_dropWhile: "rtrim s t = rev (dropWhile (\<lambda>c. c \<in> set t) (rev s))"
proof (cases "find_first_not_of t (rev s)")
  case None
  then show ?thesis
    using find_first_not_of_dropWhile [where cs = t and xs = "rev s"]
    by (simp add: rtrim_def find_last_not_of_def)
next
  case (Some i)
  then have i: "i < length s" using find_first_not_of_bound by fastforce
  have "rev (drop i (rev s)) = take (length s - i) s" by (simp add: rev_drop)
  then show ?thesis
    using Some i find_first_not_of_dropWhile [where cs = t and xs = "rev s"]
    by (simp add: rtrim_def find_last_not_of_def Suc_diff_Suc)
qed

lemma upper_idem: "upper (upper s) = upper s"
  by (simp add: upper_def)

lemma rtrim_last:
  "rtrim s t = [] \<or> last (rtrim s t) \<notin> set t"
proof (cases "dropWhile (\<lambda>c. c \<in> set t) (rev s)")
  case (Cons x xs)
  then have "x \<notin> set t" by (simp add: dropWhile_eq_Cons_conv)
  with Cons show ?thesis by (simp add: rtrim_dropWhile last_rev)
qed (simp add: rtrim_dropWhile)

text \<open>A string is the trimmed string with runs of the trimmed characters around it.\<close>

lemma trim_decomp:
  "\<exists>l r. s = l @ trim s t @ r \<and> set l \<subseteq> set t \<and> set r \<subseteq> set t"
proof -
  let ?P = "\<lambda>c. c \<in> set t"
  let ?r = "rev (takeWhile ?P (rev s))" and ?l = "takeWhile ?P (rtrim s t)"
  have "s = rtrim s t @ ?r"
    unfolding rtrim_dropWhile by (metis rev_append rev_rev_ident takeWhile_dropWhile_id)
  moreover have "rtrim s t = ?l @ trim s t"
    by (simp add: trim_def ltrim_dropWhile)
  moreover have "set ?l \<subseteq> set t" "set ?r \<subseteq> set t"
    using set_takeWhileD by fastforce+
  ultimately show ?thesis by (metis append.assoc)
qed

lemma trim_ends:
  "trim s t = [] \<or> (hd (trim s t) \<notin> set t \<and> last (trim s t) \<notin> set t)"
proof (cases "trim s t")
  case (Cons x xs)
  then have ne: "trim s t \<noteq> []" by simp
  then have "hd (trim s t) \<notin> set t"
    using hd_dropWhile [of "\<lambda>c. c \<in> set t" "rtrim s t"] by (simp add: trim_def ltrim_dropWhile)
  moreover have "last (trim s t) = last (rtrim s t)"
    using ne unfolding trim_def ltrim_dropWhile
    by (metis last_appendR takeWhile_dropWhile_id)
  ultimately show ?thesis
    using rtrim_last [of s t] ne by (auto simp: trim_def ltrim_def split: option.splits)
qed simp

section \<open>Replacing every occurrence\<close>

text \<open>The loop of \<open>replaceAll\<close>; with an empty needle the source never leaves it.\<close>

partial_function (option) replaceAll_loop :: "string \<Rightarrow> string \<Rightarrow> string \<Rightarrow> nat \<Rightarrow> string option" where
  "replaceAll_loop needle replacement input start_pos =
     (case find_str_from needle input start_pos of
        None \<Rightarrow> Some input
      | Some p \<Rightarrow> replaceAll_loop needle replacement
                    (take p input @ replacement @ drop (p + length needle) input)
                    (p + length replacement))"

declare replaceAll_loop.simps [code]

definition replaceAll :: "string \<Rightarrow> string \<Rightarrow> string \<Rightarrow> string option" where
  "replaceAll input needle replacement = replaceAll_loop needle replacement input 0"

text \<open>The specification: scan from the left, replace each match, go on behind it.\<close>

function subst_all :: "string \<Rightarrow> string \<Rightarrow> string \<Rightarrow> string" where
  "subst_all needle r s =
     (if needle = [] then s
      else case find_str needle s of
        None \<Rightarrow> s
      | Some p \<Rightarrow> take p s @ r @ subst_all needle r (drop (p + length needle) s))"
  by pat_completeness auto
termination
proof (relation "measure (\<lambda>(n, r, s). length s)", goal_cases)
  case (2 needle r s p)
  then have "p + length needle \<le> length s" by (intro find_str_bound)
  moreover from 2 have "0 < length needle" by simp
  ultimately have "length s - (p + length needle) < length s" by linarith
  then show ?case by simp
qed simp

declare subst_all.simps [simp del]

lemma replaceAll_loop_subst_all:
  assumes "needle \<noteq> []"
  shows "replaceAll_loop needle r (done_part @ rest) (length done_part)
           = Some (done_part @ subst_all needle r rest)"
proof (induction "length rest" arbitrary: done_part rest rule: less_induct)
  case less
  show ?case
  proof (cases "find_str needle rest")
    case None
    then show ?thesis
      using assms by (simp add: replaceAll_loop.simps find_str_from_def subst_all.simps)
  next
    case (Some p)
    let ?d = "done_part @ take p rest @ r" and ?rest = "drop (p + length needle) rest"
    have b: "p + length needle \<le> length rest" using Some by (rule find_str_bound)
    then have "length ?rest < length rest" using assms by (cases needle) auto
    then have "replaceAll_loop needle r (?d @ ?rest) (length ?d) = Some (?d @ subst_all needle r ?rest)"
      by (rule less.hyps)
    then show ?thesis
      using Some assms b
      by (simp add: replaceAll_loop.simps [of _ _ "done_part @ rest"] find_str_from_def
          subst_all.simps [of needle r rest] add.assoc)
  qed
qed

lemma replaceAll_subst_all:
  "needle \<noteq> [] \<Longrightarrow> replaceAll input needle replacement = Some (subst_all needle replacement input)"
  using replaceAll_loop_subst_all [of needle replacement "[]" input] by (simp add: replaceAll_def)

text \<open>
  C12: \<open>Utils::replaceAll\<close> returns for every non-empty needle, and its result is the
  left-to-right replacement of the non-overlapping occurrences, although the source
  searches the string it is rewriting.
\<close>

theorem replaceAll_correct:
  "needle \<noteq> [] \<Longrightarrow> replaceAll input needle replacement = Some (subst_all needle replacement input)"
  by (rule replaceAll_subst_all)

theorem replaceAll_correct_witness:
  "replaceAll ''/a%20b%20%2020'' ''%20'' '' '' = Some ''/a b  20''"
proof -
  have "replaceAll ''/a%20b%20%2020'' ''%20'' '' '' = Some (subst_all ''%20'' '' '' ''/a%20b%20%2020'')"
    by (rule replaceAll_correct) simp
  also have "\<dots> = Some ''/a b  20''" by code_simp
  finally show ?thesis .
qed

section \<open>Parsing numbers\<close>

text \<open>
  \<open>parseNumber<T>\<close>: the result pairs the returned flag with the value left in the output
  parameter. \<open>T\<close> is \<open>size_t\<close> (64 bits) or \<open>int\<close> (32 bits); for \<open>int\<close> all values stay
  between 0 and \<open>max\<close>, where the signed and the unsigned comparisons agree.
\<close>

fun parseNumber_loop :: "'a::len word \<Rightarrow> 'a word \<Rightarrow> string \<Rightarrow> bool \<times> 'a word" where
  "parseNumber_loop mx number [] = (True, number)"
| "parseNumber_loop mx number (chr # str) =
     (if \<not> is_digit chr then (False, number)
      else let digit = word_of_nat (code_of chr) - 48 in
        if number > mx div 10 then (False, number)
        else let number = number * 10 in
          if number > mx - digit then (False, number)
          else parseNumber_loop mx (number + digit) str)"

definition parseNumber :: "string \<Rightarrow> 'a::len word \<Rightarrow> bool \<times> 'a word" where
  "parseNumber str mx =
     (if length str \<ge> 2 \<and> str ! 0 = CHR ''0'' then (False, 0) else parseNumber_loop mx 0 str)"

text \<open>The value of a string of decimal digits.\<close>

definition dec_value :: "nat \<Rightarrow> string \<Rightarrow> nat" where
  "dec_value n s = foldl (\<lambda>n c. 10 * n + digit_val c) n s"

lemma dec_value_simps [simp]:
  "dec_value n [] = n"
  "dec_value n (c # s) = dec_value (10 * n + digit_val c) s"
  by (simp_all add: dec_value_def)

lemma dec_value_ge: "n \<le> dec_value n s"
proof (induction s arbitrary: n)
  case (Cons c s)
  have "n \<le> 10 * n + digit_val c" by simp
  also have "\<dots> \<le> dec_value (10 * n + digit_val c) s" by (rule Cons.IH)
  finally show ?case by simp
qed simp

lemma dec_value_ge_step: "10 * n \<le> dec_value n (c # s)"
  using dec_value_ge [of "10 * n + digit_val c" s] by simp

lemma digit_word:
  fixes c :: char
  assumes "is_digit c" and "(10::nat) < 2 ^ LENGTH('a::len)"
  shows "unat (word_of_nat (code_of c) - 48 :: 'a word) = digit_val c"
proof -
  have "word_of_nat (code_of c) - 48 = (word_of_nat (code_of c - 48) :: 'a word)"
    using assms(1) by (simp add: is_digit_def)
  moreover have "code_of c - 48 < 2 ^ LENGTH('a)"
    using digit_val_le [OF assms(1)] assms(2) by (simp add: digit_val_def)
  ultimately show ?thesis by (simp add: digit_val_def unat_word_of_nat)
qed

lemma unat_ten: "(10::nat) < 2 ^ LENGTH('a::len) \<Longrightarrow> unat (10 :: 'a word) = 10"
  using unat_word_of_nat [of 10, where 'a = 'a] by simp

lemma parseNumber_step:
  fixes number mx :: "'a::len word"
  assumes len: "(10::nat) < 2 ^ LENGTH('a)" and mx: "9 \<le> unat mx" and d: "is_digit c"
    and le: "unat number \<le> unat mx div 10"
  defines "digit \<equiv> word_of_nat (code_of c) - 48 :: 'a word"
  shows "unat (number * 10) = 10 * unat number"
    and "(mx - digit < number * 10) = (unat mx < 10 * unat number + digit_val c)"
    and "10 * unat number + digit_val c \<le> unat mx \<Longrightarrow>
           unat (number * 10 + digit) = 10 * unat number + digit_val c"
proof -
  have ten: "10 * unat number \<le> unat mx" using le by simp
  then have lt: "10 * unat number < 2 ^ LENGTH('a)"
    using unat_lt_exp [of mx] by (rule le_less_trans)
  show n10: "unat (number * 10) = 10 * unat number"
    using lt unat_ten [OF len] by (simp add: unat_word_ariths mult.commute)
  have dv: "unat digit = digit_val c" unfolding digit_def by (rule digit_word [OF d len])
  have "digit_val c \<le> unat mx" using digit_val_le [OF d] mx by simp
  then have "unat (mx - digit) = unat mx - digit_val c"
    using dv by (simp add: unat_sub word_le_nat_alt)
  then show "(mx - digit < number * 10) = (unat mx < 10 * unat number + digit_val c)"
    using n10 \<open>digit_val c \<le> unat mx\<close> by (simp add: word_less_nat_alt less_diff_conv2)
  show "unat (number * 10 + digit) = 10 * unat number + digit_val c"
    if "10 * unat number + digit_val c \<le> unat mx"
    using unat_add_lt [of "number * 10" digit] le_less_trans [OF that unat_lt_exp]
    by (simp only: n10 dv)
qed

lemma parseNumber_loop_spec:
  fixes number mx :: "'a::len word"
  assumes len: "(10::nat) < 2 ^ LENGTH('a)" and mx: "9 \<le> unat mx" and "unat number \<le> unat mx"
  shows "(fst (parseNumber_loop mx number s) \<longleftrightarrow>
           list_all is_digit s \<and> dec_value (unat number) s \<le> unat mx) \<and>
         (fst (parseNumber_loop mx number s) \<longrightarrow>
           unat (snd (parseNumber_loop mx number s)) = dec_value (unat number) s)"
  using assms(3)
proof (induction s arbitrary: number)
  case (Cons c s)
  let ?digit = "word_of_nat (code_of c) - 48 :: 'a word"
  show ?case
  proof (cases "is_digit c \<and> unat number \<le> unat mx div 10")
    case False
    have "dec_value (unat number) (c # s) > unat mx" if "unat number > unat mx div 10"
      using that dec_value_ge_step [of "unat number" c s] by linarith
    then show ?thesis
      using False unat_ten [OF len] by (auto simp: word_less_nat_alt unat_div not_le)
  next
    case True
    note step = parseNumber_step [OF len mx conjunct1 [OF True] conjunct2 [OF True]]
    have nlt: "\<not> mx div 10 < number"
      using True unat_ten [OF len] by (simp add: word_less_nat_alt unat_div not_less)
    show ?thesis
    proof (cases "10 * unat number + digit_val c \<le> unat mx")
      case False
      then have "unat mx < dec_value (unat number) (c # s)"
        using dec_value_ge [of "10 * unat number + digit_val c" s] by simp
      then show ?thesis using True nlt False step(2) by (simp add: Let_def not_le)
    next
      case fits: True
      have u: "unat (number * 10 + ?digit) = 10 * unat number + digit_val c"
        by (rule step(3) [OF fits])
      then have "unat (number * 10 + ?digit) \<le> unat mx" using fits by simp
      from Cons.IH [OF this] show ?thesis
        using True nlt fits step(2) u by (simp add: Let_def)
    qed
  qed
qed simp

lemma parseNumber_spec:
  fixes mx :: "'a::len word"
  assumes "(10::nat) < 2 ^ LENGTH('a)" and "9 \<le> unat mx"
  shows "(fst (parseNumber str mx) \<longleftrightarrow>
           \<not> (length str \<ge> 2 \<and> hd str = CHR ''0'') \<and> list_all is_digit str \<and>
           dec_value 0 str \<le> unat mx) \<and>
         (fst (parseNumber str mx) \<longrightarrow> unat (snd (parseNumber str mx)) = dec_value 0 str)"
  using parseNumber_loop_spec [OF assms, of 0 str] by (cases str) (auto simp: parseNumber_def)

text \<open>
  C11: for a maximum of at least 9, in an unsigned type that holds the number 10,
  \<open>Utils::parseNumber\<close> succeeds exactly on the strings of decimal digits, the empty string
  included (with value 0), without a superfluous leading zero, whose value is at most \<open>max\<close>, and
  then stores that value; the overflow checks are exact, so no intermediate result wraps around.
  (Below 9 the subtraction \<open>max - digit\<close> wraps, see \<open>parseNumber_small_max\<close>.)
\<close>

theorem parseNumber_correct:
  fixes mx :: "'a::len word"
  assumes "(10::nat) < 2 ^ LENGTH('a)" and "9 \<le> unat mx"
  shows "(fst (parseNumber str mx) \<longleftrightarrow>
           \<not> (length str \<ge> 2 \<and> hd str = CHR ''0'') \<and> list_all is_digit str \<and>
           dec_value 0 str \<le> unat mx) \<and>
         (fst (parseNumber str mx) \<longrightarrow> unat (snd (parseNumber str mx)) = dec_value 0 str)"
  using assms by (rule parseNumber_spec)

theorem parseNumber_correct_witness:
  "fst (parseNumber ''18446744073709551615'' (- 1 :: 64 word)) \<and>
   unat (snd (parseNumber ''18446744073709551615'' (- 1 :: 64 word))) = 18446744073709551615 \<and>
   \<not> fst (parseNumber ''18446744073709551616'' (- 1 :: 64 word))"
proof -
  have h: "(10::nat) < 2 ^ LENGTH(64)" "9 \<le> unat (- 1 :: 64 word)"
    by (simp_all add: unat_minus_one)
  have d: "dec_value 0 ''18446744073709551615'' = 18446744073709551615"
    "dec_value 0 ''18446744073709551616'' = 18446744073709551616"
    by (simp_all add: digit_val_def)
  show ?thesis
    using parseNumber_correct [OF h, of "''18446744073709551615''"]
      parseNumber_correct [OF h, of "''18446744073709551616''"] d
    by (simp add: unat_minus_one is_digit_def)
qed

text \<open>With a maximum below 9, a digit above the maximum is accepted.\<close>

lemma parseNumber_small_max: "parseNumber ''7'' (5 :: 64 word) = (True, 7)"
  by (simp add: parseNumber_def is_digit_def digit_val_def)

section \<open>Printing numbers\<close>

text \<open>\<open>std::to_string\<close> of an unsigned value, also the stream insertion of a length.\<close>

fun to_dec :: "nat \<Rightarrow> string" where
  "to_dec n = (if n < 10 then [char_of (48 + n)] else to_dec (n div 10) @ [char_of (48 + n mod 10)])"

declare to_dec.simps [simp del]

lemma digit_char: "n < 10 \<Longrightarrow> is_digit (char_of (48 + n)) \<and> digit_val (char_of (48 + n)) = n"
  by (simp add: is_digit_def digit_val_def)

lemma to_dec_digits: "list_all is_digit (to_dec n)"
proof (induction n rule: to_dec.induct)
  case (1 n)
  then show ?case
    using digit_char [of n] digit_char [of "n mod 10"] by (subst to_dec.simps) auto
qed

lemma to_dec_not_Nil [simp]: "to_dec n \<noteq> []"
  by (subst to_dec.simps) simp

lemma dec_value_append: "dec_value n (xs @ ys) = dec_value (dec_value n xs) ys"
  by (simp add: dec_value_def)

lemma dec_value_to_dec: "dec_value 0 (to_dec n) = n"
proof (induction n rule: to_dec.induct)
  case (1 n)
  show ?case
  proof (cases "n < 10")
    case True
    then show ?thesis using digit_char [of n] by (simp add: to_dec.simps)
  next
    case False
    with 1 have "dec_value 0 (to_dec (n div 10)) = n div 10" by simp
    with False show ?thesis using digit_char [of "n mod 10"]
      by (simp add: to_dec.simps [of n] dec_value_append)
  qed
qed

lemma to_dec_no_leading_zero: "2 \<le> length (to_dec n) \<Longrightarrow> hd (to_dec n) \<noteq> CHR ''0''"
proof (induction n rule: to_dec.induct)
  case (1 n)
  show ?case
  proof (cases "n < 10")
    case True
    with "1.prems" show ?thesis by (simp add: to_dec.simps [of n])
  next
    case False
    let ?m = "n div 10"
    have hd: "hd (to_dec n) = hd (to_dec ?m)" using False by (simp add: to_dec.simps [of n])
    show ?thesis
    proof (cases "?m < 10")
      case True
      then have "hd (to_dec ?m) = char_of (48 + ?m)" by (simp add: to_dec.simps [of ?m])
      moreover have "code_of (char_of (48 + ?m) :: char) \<noteq> code_of CHR ''0''"
        using True False by simp
      ultimately show ?thesis using hd by metis
    next
      case big: False
      then have "2 \<le> length (to_dec ?m)"
        using to_dec_not_Nil [of "?m div 10"] by (subst to_dec.simps) (cases "to_dec (?m div 10)", auto)
      with "1.IH" [OF False] hd show ?thesis by simp
    qed
  qed
qed

text \<open>Reading a printed value gives it back.\<close>

lemma parseNumber_to_dec:
  fixes mx :: "'a::len word"
  assumes "(10::nat) < 2 ^ LENGTH('a)" and "9 \<le> unat mx" and "n \<le> unat mx"
  shows "parseNumber (to_dec n) mx = (True, word_of_nat n)"
proof -
  have ok: "fst (parseNumber (to_dec n) mx)"
    using parseNumber_spec [OF assms(1,2), of "to_dec n"] assms(3)
    by (auto simp: to_dec_digits dec_value_to_dec dest: to_dec_no_leading_zero)
  then have "unat (snd (parseNumber (to_dec n) mx)) = n"
    using parseNumber_spec [OF assms(1,2), of "to_dec n"] by (simp add: dec_value_to_dec)
  then have "snd (parseNumber (to_dec n) mx) = word_of_nat n" by (metis word_unat_eq_iff unat_word_of_nat le_less_trans [OF assms(3) unat_lt_exp])
  with ok show ?thesis by (metis prod.collapse)
qed

end
