(* ===== verification/Client.thy ===== *)
theory Client
  imports Utils
begin

text \<open>
  The state of one connection and the request parser, \<open>src/src/Client.hpp\<close> and the first
  half of \<open>src/src/Client.cpp\<close>. The record \<open>client\<close> has the data members of the class that
  the code reads or writes (the clock reading \<open>time_of_last_read\<close> is left out). A member
  function that may throw returns the exception, if any, together with the client it leaves
  behind, because the server goes on to use that client for the error response. The lemmas
  show that the loop over the chunks ends and the laws of the pieces of a stream, which
  \<open>Client_Stream\<close> puts together.
\<close>

section \<open>Data\<close>

text \<open>\<open>Status::Status\<close>: HTTP status codes; a CGI script can set any number up to 999.\<close>

type_synonym status = nat

abbreviation OK :: status where "OK \<equiv> 200"
abbreviation MOVED_PERMANENTLY :: status where "MOVED_PERMANENTLY \<equiv> 301"
abbreviation MOVED_TEMPORARILY :: status where "MOVED_TEMPORARILY \<equiv> 302"
abbreviation BAD_REQUEST :: status where "BAD_REQUEST \<equiv> 400"
abbreviation FORBIDDEN :: status where "FORBIDDEN \<equiv> 403"
abbreviation NOT_FOUND :: status where "NOT_FOUND \<equiv> 404"
abbreviation METHOD_NOT_ALLOWED :: status where "METHOD_NOT_ALLOWED \<equiv> 405"
abbreviation REQUEST_ENTITY_TOO_LARGE :: status where "REQUEST_ENTITY_TOO_LARGE \<equiv> 413"
abbreviation INTERNAL_SERVER_ERROR :: status where "INTERNAL_SERVER_ERROR \<equiv> 500"

datatype ClientToServerState = C2S_HEADER | C2S_BODY | C2S_DONE
datatype ServerToCGIState = S2CGI_NOT_WRITING | S2CGI_WRITING | S2CGI_DONE
datatype CGIToServerState = CGI2S_NOT_READING | CGI2S_READING | CGI2S_DONE
datatype ServerToClientState = S2C_NOT_WRITING | S2C_WRITING | S2C_DONE
datatype RequestMethod = NONE | GET | POST | DELETE
datatype ChunkedReadState =
    READING_CONTENT_LEN | READING_BODY | READING_CONTENT_LEN_ENDLINE | READING_BODY_ENDLINE

type_synonym fields = "(string \<times> string) list"

record client =
  server_fd :: int
  status :: status
  client_to_server_state :: ClientToServerState
  server_to_cgi_state :: ServerToCGIState
  cgi_to_server_state :: CGIToServerState
  server_to_client_state :: ServerToClientState
  request_method :: RequestMethod
  request_target :: string
  protocol :: string
  headers :: fields
  body :: string
  body_index :: nat
  client_max_body_size :: "64 word"
  response :: string
  response_index :: nat
  client_fd :: int
  server_to_cgi_fd :: int
  cgi_to_server_fd :: int
  cgi_pid :: int
  cgi_exit_status :: int
  cgi_killed :: bool
  being_removed :: bool
  redirect :: string
  server_name :: string
  unuppercased_server_name :: string
  server_port :: string
  content_type :: string
  content_length :: "64 word"
  custom_reason_phrase :: string
  response_content_type :: string
  header :: string
  is_chunked :: bool
  chunked_remaining_content_length :: "64 word"
  chunked_body_buffer :: string
  chunked_read_state :: ChunkedReadState

definition mk_client :: "int \<Rightarrow> int \<Rightarrow> string \<Rightarrow> 64 word \<Rightarrow> client" where
  "mk_client client_fd' server_fd' server_port' client_max_body_size' =
     \<lparr>server_fd = server_fd', status = OK, client_to_server_state = C2S_HEADER,
      server_to_cgi_state = S2CGI_NOT_WRITING, cgi_to_server_state = CGI2S_NOT_READING,
      server_to_client_state = S2C_NOT_WRITING, request_method = NONE, request_target = [],
      protocol = ''HTTP/1.1'', headers = [], body = [], body_index = 0,
      client_max_body_size = client_max_body_size', response = [], response_index = 0,
      client_fd = client_fd', server_to_cgi_fd = - 1, cgi_to_server_fd = - 1, cgi_pid = - 1,
      cgi_exit_status = - 1, cgi_killed = False, being_removed = False, redirect = [],
      server_name = [], unuppercased_server_name = [], server_port = server_port',
      content_type = [], content_length = 0, custom_reason_phrase = [],
      response_content_type = ''application/octet-stream'', header = [], is_chunked = False,
      chunked_remaining_content_length = 0, chunked_body_buffer = [],
      chunked_read_state = READING_CONTENT_LEN\<rparr>"

text \<open>
  The copy assignment operator. The last member, \<open>_chunked_read_state\<close>, is not assigned.
\<close>

definition assign :: "client \<Rightarrow> client \<Rightarrow> client" where
  "assign this src = src\<lparr>chunked_read_state := chunked_read_state this\<rparr>"

section \<open>Exceptions\<close>

datatype client_error = ClientException status | OutOfRange | AssertionFailed

type_synonym outcome = "client_error option \<times> client"

definition andThen :: "outcome \<Rightarrow> (client \<Rightarrow> outcome) \<Rightarrow> outcome" where
  "andThen r f = (case fst r of None \<Rightarrow> f (snd r) | Some e \<Rightarrow> r)"

definition throw :: "status \<Rightarrow> client \<Rightarrow> outcome" where
  "throw st c = (Some (ClientException st), c)"

lemma andThen_simps [simp]:
  "andThen (None, c) f = f c"
  "andThen (Some e, c) f = (Some e, c)"
  "andThen (throw st c) f = throw st c"
  by (simp_all add: andThen_def throw_def)

lemma andThen_None_iff:
  "andThen r f = (None, c') \<longleftrightarrow> (\<exists>c. r = (None, c) \<and> f c = (None, c'))"
  by (cases r) (auto simp: andThen_def split: option.splits)

lemma throw_not_None [simp]: "throw st c \<noteq> (None, c')" "(None, c') \<noteq> throw st c"
  by (simp_all add: throw_def)

section \<open>The request line\<close>

abbreviation crlf :: string where
  "crlf \<equiv> [CHR 0x0D, CHR 0x0A]"

function headerLinesLoop :: "string \<Rightarrow> nat \<Rightarrow> string list" where
  "headerLinesLoop h start =
     (case find_str_from crlf h start of
        None \<Rightarrow> []
      | Some i \<Rightarrow> substr h start (i - start) # headerLinesLoop h (i + 2))"
  by pat_completeness auto
termination
proof (relation "measure (\<lambda>(h, start). Suc (length h) - start)", goal_cases)
  case (2 h start i)
  then obtain k where "start \<le> length h" "find_str crlf (drop start h) = Some k" "i = start + k"
    by (auto simp: find_str_from_def split: if_splits)
  with find_str_bound [of crlf "drop start h" k] show ?case by auto
qed simp

declare headerLinesLoop.simps [simp del]

definition getHeaderLines :: "client \<Rightarrow> string list" where
  "getHeaderLines c = headerLinesLoop (header c) 0"

definition getRequestMethodEnumFromString :: "string \<Rightarrow> RequestMethod option" where
  "getRequestMethodEnumFromString s =
     (if s = ''GET'' then Some GET
      else if s = ''POST'' then Some POST
      else if s = ''DELETE'' then Some DELETE
      else None)"

definition decodeRequestTarget :: "client \<Rightarrow> client" where
  "decodeRequestTarget c =
     (case replaceAll (request_target c) ''%20'' '' '' of
        Some t \<Rightarrow> c\<lparr>request_target := t\<rparr>
      | None \<Rightarrow> c)"

text \<open>
  The last conjunct is the source's disjunction \<open>protocol[7] >= '0' || protocol[7] <= '9'\<close>.
\<close>

definition isValidProtocol :: "string \<Rightarrow> bool" where
  "isValidProtocol p \<longleftrightarrow>
     length p = length ''HTTP/0.0'' \<and> startsWith p ''HTTP/'' \<and>
     (48 \<le> code_of (p ! 5) \<and> code_of (p ! 5) \<le> 57) \<and> p ! 6 = CHR ''.'' \<and>
     (48 \<le> code_of (p ! 7) \<or> code_of (p ! 7) \<le> 57)"

definition parseRequestLine :: "string \<Rightarrow> client \<Rightarrow> outcome" where
  "parseRequestLine line c =
     (case find_str '' '' line of
        None \<Rightarrow> throw BAD_REQUEST c
      | Some i \<Rightarrow>
          (case getRequestMethodEnumFromString (substr line 0 i) of
             None \<Rightarrow> throw METHOD_NOT_ALLOWED c
           | Some m \<Rightarrow>
               (let c = c\<lparr>request_method := m\<rparr>; method_end = i + 1 in
                case find_last_of '' '' line of
                  None \<Rightarrow> throw BAD_REQUEST c
                | Some path_end \<Rightarrow>
                    if path_end = method_end - 1 then throw BAD_REQUEST c
                    else let c = c\<lparr>request_target := substr line method_end (path_end - method_end)\<rparr> in
                      if request_target c = [] \<or> request_target c ! 0 \<noteq> CHR ''/'' then throw BAD_REQUEST c
                      else let c = decodeRequestTarget c;
                               c = c\<lparr>protocol := drop (path_end + 1) line\<rparr> in
                        if \<not> isValidProtocol (protocol c) then throw BAD_REQUEST c
                        else (None, c))))"

section \<open>Header fields\<close>

definition normalizeKey :: "string \<Rightarrow> string" where
  "normalizeKey key = map (\<lambda>ch. if toupper ch = CHR ''-'' then CHR ''_'' else toupper ch) key"

text \<open>The result is the returned flag and the map as it was filled until then.\<close>

fun fillHeaders :: "string list \<Rightarrow> fields \<Rightarrow> bool \<times> fields" where
  "fillHeaders [] filled = (True, filled)"
| "fillHeaders (line # lines) filled =
     (case find_str '':'' line of
        None \<Rightarrow> (False, filled)
      | Some i \<Rightarrow>
          if i = 0 then (False, filled)
          else let key = normalizeKey (substr line 0 i);
                   value = trim (drop (i + 1) line) [CHR '' '', CHR 0x09]
            in if map_of filled key \<noteq> None then (False, filled)
               else fillHeaders lines (filled @ [(key, value)]))"

definition useTransferEncoding :: "client \<Rightarrow> client" where
  "useTransferEncoding c =
     (if map_of (headers c) ''TRANSFER_ENCODING'' = Some ''chunked'' then c\<lparr>is_chunked := True\<rparr> else c)"

definition useContentLength :: "client \<Rightarrow> outcome" where
  "useContentLength c =
     (case map_of (headers c) ''CONTENT_LENGTH'' of
        None \<Rightarrow> (None, c)
      | Some v \<Rightarrow>
          if is_chunked c then throw BAD_REQUEST c
          else let (ok, n) = parseNumber v (- 1); c = c\<lparr>content_length := n\<rparr>
            in if ok then (None, c) else throw BAD_REQUEST c)"

definition useHost :: "client \<Rightarrow> outcome" where
  "useHost c =
     (case map_of (headers c) ''HOST'' of
        None \<Rightarrow> throw BAD_REQUEST c
      | Some host \<Rightarrow>
          (let set_name = (\<lambda>n. (None, c\<lparr>unuppercased_server_name := n, server_name := upper n\<rparr>)) in
           case find_str '':'' host of
             None \<Rightarrow> set_name host
           | Some i \<Rightarrow> if i = 0 then throw BAD_REQUEST c else set_name (substr host 0 i)))"

definition useContentType :: "client \<Rightarrow> client" where
  "useContentType c =
     (case map_of (headers c) ''CONTENT_TYPE'' of None \<Rightarrow> c | Some v \<Rightarrow> c\<lparr>content_type := v\<rparr>)"

definition useHeaders :: "client \<Rightarrow> outcome" where
  "useHeaders c =
     andThen (useContentLength (useTransferEncoding c)) (\<lambda>c.
       andThen (useHost c) (\<lambda>c. (None, useContentType c)))"

section \<open>The body\<close>

definition is_hex :: "char \<Rightarrow> bool" where
  "is_hex ch \<longleftrightarrow> is_digit ch \<or> (65 \<le> code_of ch \<and> code_of ch \<le> 70) \<or> (97 \<le> code_of ch \<and> code_of ch \<le> 102)"

definition hex_digit :: "char \<Rightarrow> 64 word" where
  "hex_digit ch =
     (if is_digit ch then word_of_nat (code_of ch - 48)
      else if 65 \<le> code_of ch \<and> code_of ch \<le> 70 then word_of_nat (code_of ch - 65 + 10)
      else word_of_nat (code_of ch - 97 + 10))"

text \<open>The second loop of \<open>_hexToNum\<close>: consumes the leading hexadecimal digits.\<close>

fun hexToNum_loop :: "string \<Rightarrow> 64 word \<Rightarrow> string \<times> 64 word" where
  "hexToNum_loop [] num = ([], num)"
| "hexToNum_loop (ch # line) num =
     (if is_hex ch then hexToNum_loop line (num * 16 + hex_digit ch) else (ch # line, num))"

text \<open>\<open>None\<close> is the exception; the terminator \<open>line[0]\<close> of an empty line is no digit either.\<close>

definition hexToNum :: "string \<Rightarrow> 64 word \<Rightarrow> (string \<times> 64 word) option" where
  "hexToNum line num =
     (case line of
        [] \<Rightarrow> None
      | ch # rest \<Rightarrow> if is_hex ch then Some (hexToNum_loop rest (num + hex_digit ch)) else None)"

text \<open>
  One pass of the \<open>while (true)\<close> loop is the sequence of its three \<open>if\<close> statements, each of
  which falls through, breaks out of the loop or throws.
\<close>

datatype flow = Next client | Break client | Throw status client

definition chunkReadLen :: "client \<Rightarrow> flow" where
  "chunkReadLen c =
     (if chunked_read_state c = READING_CONTENT_LEN then
        (if find_first_not_of ''1234567890abcdefABCDEF'' (chunked_body_buffer c) = None then Break c
         else case hexToNum (chunked_body_buffer c) (chunked_remaining_content_length c) of
                None \<Rightarrow> Throw BAD_REQUEST c
              | Some (buffer, num) \<Rightarrow>
                  Next (c\<lparr>chunked_body_buffer := buffer, chunked_remaining_content_length := num,
                          content_length := content_length c + num,
                          chunked_read_state := READING_CONTENT_LEN_ENDLINE\<rparr>))
      else Next c)"

definition chunkReadBody :: "client \<Rightarrow> flow" where
  "chunkReadBody c =
     (if chunked_read_state c = READING_BODY then
        (let buffer = chunked_body_buffer c; n = unat (chunked_remaining_content_length c) in
         if length buffer \<ge> n then
           Next (c\<lparr>body := body c @ take n buffer, chunked_body_buffer := drop n buffer,
                   chunked_remaining_content_length := 0, chunked_read_state := READING_BODY_ENDLINE\<rparr>)
         else
           Break (c\<lparr>body := body c @ buffer,
                    chunked_remaining_content_length :=
                      chunked_remaining_content_length c - word_of_nat (length buffer),
                    chunked_body_buffer := []\<rparr>))
      else Next c)"

definition chunkReadEndline :: "client \<Rightarrow> flow" where
  "chunkReadEndline c =
     (if chunked_read_state c = READING_CONTENT_LEN_ENDLINE \<or> chunked_read_state c = READING_BODY_ENDLINE then
        (if length (chunked_body_buffer c) < 2 then Break c
         else if chunked_body_buffer c ! 0 = CHR 0x0D \<and> chunked_body_buffer c ! 1 = CHR 0x0A then
           (let c = c\<lparr>chunked_body_buffer := drop 2 (chunked_body_buffer c)\<rparr> in
            if chunked_remaining_content_length c = 0 \<and> chunked_read_state c = READING_CONTENT_LEN_ENDLINE
            then Next (c\<lparr>client_to_server_state := C2S_DONE\<rparr>)
            else if chunked_read_state c = READING_CONTENT_LEN_ENDLINE
            then Next (c\<lparr>chunked_read_state := READING_BODY\<rparr>)
            else Next (c\<lparr>chunked_read_state := READING_CONTENT_LEN\<rparr>))
         else Throw BAD_REQUEST c)
      else Next c)"

fun flowThen :: "flow \<Rightarrow> (client \<Rightarrow> flow) \<Rightarrow> flow" where
  "flowThen (Next c) f = f c"
| "flowThen (Break c) f = Break c"
| "flowThen (Throw st c) f = Throw st c"

fun flow_client :: "flow \<Rightarrow> client" where
  "flow_client (Next c) = c"
| "flow_client (Break c) = c"
| "flow_client (Throw st c) = c"

definition chunkPass :: "client \<Rightarrow> flow" where
  "chunkPass c = flowThen (flowThen (chunkReadLen c) chunkReadBody) chunkReadEndline"

lemma hexToNum_loop_length: "hexToNum_loop line num = (line', num') \<Longrightarrow> length line' \<le> length line"
  by (induction line num rule: hexToNum_loop.induct) (auto split: if_splits)

lemma hexToNum_length: "hexToNum line num = Some (line', num') \<Longrightarrow> length line' < length line"
  by (auto simp: hexToNum_def le_imp_less_Suc dest!: hexToNum_loop_length split: list.splits if_splits)

lemma chunkPass_decreases:
  "chunkPass c = Next c' \<Longrightarrow> length (chunked_body_buffer c') < length (chunked_body_buffer c)"
  by (cases "chunked_read_state c")
    (auto simp: chunkPass_def chunkReadLen_def chunkReadBody_def chunkReadEndline_def Let_def
      split: if_splits option.splits prod.splits dest!: hexToNum_length)

function chunkLoop :: "client \<Rightarrow> outcome" where
  "chunkLoop c =
     (case chunkPass c of
        Next c' \<Rightarrow> chunkLoop c'
      | Break c' \<Rightarrow> (None, c')
      | Throw st c' \<Rightarrow> throw st c')"
  by pat_completeness auto
termination
  by (relation "measure (\<lambda>c. length (chunked_body_buffer c))") (auto intro: chunkPass_decreases)

declare chunkLoop.simps [simp del]

abbreviation appendBuffer :: "string \<Rightarrow> client \<Rightarrow> client" where
  "appendBuffer s c \<equiv> c\<lparr>chunked_body_buffer := chunked_body_buffer c @ s\<rparr>"

definition plainBody :: "string \<Rightarrow> client \<Rightarrow> client" where
  "plainBody extra c =
     (if length (body c) + length extra \<ge> unat (content_length c)
      then c\<lparr>body := body c @ take (unat (content_length c) - length (body c)) extra,
             client_to_server_state := C2S_DONE\<rparr>
      else c\<lparr>body := body c @ extra\<rparr>)"

definition checkBodySize :: "client \<Rightarrow> outcome" where
  "checkBodySize c =
     (if length (body c) > unat (client_max_body_size c) then throw REQUEST_ENTITY_TOO_LARGE c
      else (None, c))"

definition parseBodyAppend :: "string \<Rightarrow> client \<Rightarrow> outcome" where
  "parseBodyAppend extra c =
     andThen (if is_chunked c then chunkLoop (appendBuffer extra c) else (None, plainBody extra c))
       checkBodySize"

section \<open>Reading from the client\<close>

definition finishHeader :: "string \<Rightarrow> client \<Rightarrow> outcome" where
  "finishHeader extra c =
     (if request_method c \<noteq> POST \<or> (content_length c = 0 \<and> \<not> is_chunked c)
      then (None, c\<lparr>client_to_server_state := C2S_DONE, server_to_cgi_state := S2CGI_DONE\<rparr>)
      else let c = c\<lparr>client_to_server_state := C2S_BODY\<rparr> in
        if length extra > 0 then parseBodyAppend extra c else (None, c))"

definition parseHeader :: "string \<Rightarrow> client \<Rightarrow> outcome" where
  "parseHeader extra c =
     (case getHeaderLines c of
        [] \<Rightarrow> (Some OutOfRange, c)
      | request_line # header_lines \<Rightarrow>
          andThen (parseRequestLine request_line c) (\<lambda>c.
            let (ok, filled) = fillHeaders header_lines (headers c); c = c\<lparr>headers := filled\<rparr> in
            if \<not> ok then throw BAD_REQUEST c
            else andThen (useHeaders c) (finishHeader extra)))"

definition appendReadString :: "string \<Rightarrow> client \<Rightarrow> outcome" where
  "appendReadString received c =
     (case client_to_server_state c of
        C2S_HEADER \<Rightarrow>
          (let c = c\<lparr>header := header c @ received\<rparr> in
           case find_str (crlf @ crlf) (header c) of
             None \<Rightarrow> (None, c)
           | Some i \<Rightarrow> parseHeader (drop (i + 4) (header c)) (c\<lparr>header := take (i + 2) (header c)\<rparr>))
      | C2S_BODY \<Rightarrow> parseBodyAppend received c
      | C2S_DONE \<Rightarrow> (None, c))"

section \<open>Decoding a stream piece by piece\<close>

text \<open>
  The contract of an incremental decoder: as long as it is still open, feeding two pieces one
  after the other is feeding their concatenation. The lemma lifts this to any way of cutting
  the input into pieces.
\<close>

fun feedAll :: "('i \<Rightarrow> 's \<Rightarrow> 'e option \<times> 's) \<Rightarrow> 'i list \<Rightarrow> 's \<Rightarrow> 'e option \<times> 's" where
  "feedAll feed [] s = (None, s)"
| "feedAll feed (x # xs) s =
     (case feed x s of (None, t) \<Rightarrow> feedAll feed xs t | (Some e, t) \<Rightarrow> (Some e, t))"

locale stream_decoder =
  fixes feed :: "'a list \<Rightarrow> 's \<Rightarrow> 'e option \<times> 's"
    and wf :: "'s \<Rightarrow> bool"
    and still_open :: "'s \<Rightarrow> bool"
  assumes feed_wf: "wf s \<Longrightarrow> feed xs s = (None, t) \<Longrightarrow> wf t"
    and feed_append: "wf s \<Longrightarrow> feed xs s = (None, t) \<Longrightarrow> still_open t \<Longrightarrow> feed (xs @ ys) s = feed ys t"
begin

lemma feed_pieces:
  assumes "wf s" and "xss \<noteq> []"
    and "\<And>n t. 0 < n \<Longrightarrow> n < length xss \<Longrightarrow> feedAll feed (take n xss) s = (None, t) \<Longrightarrow> still_open t"
    and "\<And>n. n < length xss \<Longrightarrow> \<exists>t. feedAll feed (take n xss) s = (None, t)"
  shows "feedAll feed xss s = feed (concat xss) s"
  using assms
proof (induction xss arbitrary: s)
  case (Cons xs xss)
  show ?case
  proof (cases "xss = []")
    case True
    then show ?thesis by (auto split: prod.splits option.splits)
  next
    case False
    with Cons.prems(4) [of 1] obtain t where t: "feed xs s = (None, t)"
      by (cases "feed xs s") (auto split: option.splits)
    with Cons.prems(3) [of 1 t] False have op: "still_open t" by auto
    have "feedAll feed xss t = feed (concat xss) t"
    proof (rule Cons.IH)
      show "wf t" by (rule feed_wf [OF Cons.prems(1) t])
      show "still_open u" if "0 < n" "n < length xss" "feedAll feed (take n xss) t = (None, u)" for n u
        using Cons.prems(3) [of "Suc n" u] that t by simp
      show "\<exists>u. feedAll feed (take n xss) t = (None, u)" if "n < length xss" for n
        using Cons.prems(4) [of "Suc n"] that t by simp
    qed (rule False)
    also have "\<dots> = feed (xs @ concat xss) s"
      by (rule feed_append [OF Cons.prems(1) t op, symmetric])
    finally show ?thesis using t by simp
  qed
qed simp

end

section \<open>The chunked decoder and the pieces of its input\<close>

lemma hex_chars: "ch \<in> set ''1234567890abcdefABCDEF'' \<longleftrightarrow> is_hex ch"
proof -
  have "ch \<in> set ''1234567890abcdefABCDEF'' \<longleftrightarrow>
      code_of ch \<in> code_of ` set ''1234567890abcdefABCDEF''"
    by (rule inj_image_mem_iff [symmetric]) (rule inj_of_char)
  also have "\<dots> \<longleftrightarrow> is_hex ch" unfolding is_hex_def is_digit_def by simp presburger
  finally show ?thesis .
qed

lemma all_hex_iff:
  "find_first_not_of ''1234567890abcdefABCDEF'' s = None \<longleftrightarrow> list_all is_hex s"
  using hex_chars by (force simp: find_first_not_of_None list_all_iff subset_iff)

lemma hexToNum_loop_append:
  "\<not> list_all is_hex line \<Longrightarrow> hexToNum_loop line num = (line', num') \<Longrightarrow>
     hexToNum_loop (line @ s) num = (line' @ s, num')"
  by (induction line num rule: hexToNum_loop.induct) (auto split: if_splits)

lemma hexToNum_append:
  assumes "\<not> list_all is_hex line"
  shows "hexToNum (line @ s) num = map_option (\<lambda>(l, n). (l @ s, n)) (hexToNum line num)"
  using assms hexToNum_loop_append
  by (cases line) (auto simp: hexToNum_def split: prod.splits)

lemmas chunk_defs = chunkPass_def chunkReadLen_def chunkReadBody_def chunkReadEndline_def Let_def

text \<open>More input behind the buffer changes no step that did not wait for it.\<close>

fun flowAppend :: "string \<Rightarrow> flow \<Rightarrow> flow" where
  "flowAppend s (Next c) = Next (appendBuffer s c)"
| "flowAppend s (Break c) = Break (appendBuffer s c)"
| "flowAppend s (Throw st c) = Throw st (appendBuffer s c)"

definition waits :: "flow \<Rightarrow> bool" where
  "waits f \<longleftrightarrow> (\<exists>c. f = Break c)"

lemma waits_simps [simp]: "\<not> waits (Next c)" "waits (Break c)" "\<not> waits (Throw st c)"
  by (simp_all add: waits_def)

lemma chunkReadLen_append:
  "\<not> waits (chunkReadLen c) \<Longrightarrow> chunkReadLen (appendBuffer s c) = flowAppend s (chunkReadLen c)"
  by (auto simp: chunkReadLen_def all_hex_iff hexToNum_append split: option.splits)

lemma chunkReadBody_append:
  "\<not> waits (chunkReadBody c) \<Longrightarrow> chunkReadBody (appendBuffer s c) = flowAppend s (chunkReadBody c)"
  by (auto simp: chunkReadBody_def Let_def)

lemma chunkReadEndline_append:
  "\<not> waits (chunkReadEndline c) \<Longrightarrow> chunkReadEndline (appendBuffer s c) = flowAppend s (chunkReadEndline c)"
  by (auto simp: chunkReadEndline_def Let_def nth_append)

lemma chunkPass_append:
  assumes "\<not> waits (chunkPass c)"
  shows "chunkPass (appendBuffer s c) = flowAppend s (chunkPass c)"
proof -
  have 1: "\<not> waits (chunkReadLen c)" using assms by (auto simp: chunkPass_def waits_def)
  show ?thesis
  proof (cases "chunkReadLen c")
    case (Next d)
    have 2: "\<not> waits (chunkReadBody d)" using assms Next by (auto simp: chunkPass_def waits_def)
    have 3: "chunkReadBody (appendBuffer s d) = flowAppend s (chunkReadBody d)"
      by (rule chunkReadBody_append [OF 2])
    have 4: "chunkReadLen (appendBuffer s c) = Next (appendBuffer s d)"
      using chunkReadLen_append [OF 1, of s] Next by simp
    show ?thesis
    proof (cases "chunkReadBody d")
      case inner: (Next e)
      then have "\<not> waits (chunkReadEndline e)" using assms Next by (simp add: chunkPass_def)
      from chunkReadEndline_append [OF this, of s] show ?thesis
        using Next inner 3 4 by (simp add: chunkPass_def)
    qed (use Next 2 3 4 in \<open>simp_all add: chunkPass_def\<close>)
  qed (use 1 chunkReadLen_append [OF 1, of s] in \<open>simp_all add: chunkPass_def\<close>)
qed

text \<open>After a step that waits, more input continues as if it had been there from the start.\<close>

lemma unat_diff_length:
  assumes "length (b :: string) < unat (r :: 64 word)"
  shows "unat (r - word_of_nat (length b)) = unat r - length b"
proof -
  have "unat (word_of_nat (length b) :: 64 word) = length b"
    using assms unat_lt_exp [of r] by (intro unat_word_of_nat) simp
  with assms show ?thesis by (simp add: unat_sub word_le_nat_alt)
qed

lemma chunkReadBody_Break:
  assumes "chunkReadBody c = Break c'"
  shows "chunkReadBody (appendBuffer s c') = chunkReadBody (appendBuffer s c)"
    and "chunkReadLen (appendBuffer s c') = Next (appendBuffer s c')"
proof -
  let ?b = "chunked_body_buffer c" and ?r = "chunked_remaining_content_length c"
  from assms have st: "chunked_read_state c = READING_BODY" and lt: "length ?b < unat ?r"
    and c': "c' = c\<lparr>body := body c @ ?b,
        chunked_remaining_content_length := ?r - word_of_nat (length ?b), chunked_body_buffer := []\<rparr>"
    by (auto simp: chunkReadBody_def Let_def split: if_splits)
  have u: "unat (?r - word_of_nat (length ?b)) = unat ?r - length ?b" by (rule unat_diff_length [OF lt])
  show "chunkReadBody (appendBuffer s c') = chunkReadBody (appendBuffer s c)"
    unfolding c' using st lt u by (auto simp: chunkReadBody_def Let_def diff_diff_eq)
  show "chunkReadLen (appendBuffer s c') = Next (appendBuffer s c')"
    using st c' by (simp add: chunkReadLen_def)
qed

lemma chunkReadEndline_Break:
  assumes "chunkReadEndline c = Break c'"
  shows "c' = c" and "chunkPass (appendBuffer s c) = chunkReadEndline (appendBuffer s c)"
proof -
  have st: "chunked_read_state c \<noteq> READING_CONTENT_LEN" "chunked_read_state c \<noteq> READING_BODY"
    and eq: "c' = c"
    using assms by (auto simp: chunkReadEndline_def Let_def split: if_splits)
  show "c' = c" by (rule eq)
  show "chunkPass (appendBuffer s c) = chunkReadEndline (appendBuffer s c)"
    using st by (simp add: chunkPass_def chunkReadLen_def chunkReadBody_def)
qed

lemma chunkPass_Break:
  assumes "chunkPass c = Break c'"
  shows "chunkPass (appendBuffer s c') = chunkPass (appendBuffer s c)"
proof (cases "chunkReadLen c")
  case (Break d)
  then have "d = c" by (auto simp: chunkReadLen_def split: if_splits option.splits)
  with Break assms show ?thesis by (simp add: chunkPass_def)
next
  case (Next d)
  have len: "chunkReadLen (appendBuffer s c) = Next (appendBuffer s d)"
    using chunkReadLen_append [of c s] Next by simp
  show ?thesis
  proof (cases "chunkReadBody d")
    case (Break e)
    with Next assms have "e = c'" by (simp add: chunkPass_def)
    with chunkReadBody_Break [of d c' s] Break len show ?thesis by (simp add: chunkPass_def)
  next
    case inner: (Next e)
    then have b: "chunkReadBody (appendBuffer s d) = Next (appendBuffer s e)"
      using chunkReadBody_append [of d s] by simp
    have "chunkReadEndline e = Break c'" using assms Next inner by (simp add: chunkPass_def)
    from chunkReadEndline_Break [OF this] show ?thesis using len b by (simp add: chunkPass_def [of "appendBuffer s c"])
  qed (use assms Next in \<open>simp add: chunkPass_def\<close>)
qed (use assms in \<open>simp add: chunkPass_def\<close>)

lemma chunkLoop_cong: "chunkPass c = chunkPass d \<Longrightarrow> chunkLoop c = chunkLoop d"
  by (subst (1 2) chunkLoop.simps) simp

lemma chunkLoop_Next: "chunkPass c = Next d \<Longrightarrow> chunkLoop c = chunkLoop d"
  by (subst chunkLoop.simps) simp

lemma chunkLoop_append:
  "chunkLoop c = (None, c') \<Longrightarrow> chunkLoop (appendBuffer s c) = chunkLoop (appendBuffer s c')"
proof (induction c rule: chunkLoop.induct)
  case (1 c)
  show ?case
  proof (cases "chunkPass c")
    case (Next d)
    have "chunkLoop d = (None, c')" using "1.prems" chunkLoop_Next [OF Next] by simp
    then have "chunkLoop (appendBuffer s d) = chunkLoop (appendBuffer s c')" by (rule "1.IH" [OF Next])
    moreover have "chunkPass (appendBuffer s c) = Next (appendBuffer s d)"
      using chunkPass_append [of c s] Next by simp
    ultimately show ?thesis using chunkLoop_Next by simp
  next
    case (Break d)
    then have "d = c'" using "1.prems" by (subst (asm) chunkLoop.simps) simp
    with chunkPass_Break [of c c' s] Break show ?thesis by (intro chunkLoop_cong) simp
  next
    case (Throw st d)
    then show ?thesis using "1.prems" by (subst (asm) chunkLoop.simps) simp
  qed
qed

end
