(* ===== verification/Client_Stream.thy ===== *)
theory Client_Stream
  imports Client
begin

text \<open>
  The request parser as a stream decoder. \<open>parseBodyAppend\<close> and \<open>appendReadString\<close> are shown
  to meet the contract \<open>stream_decoder\<close>, so the result of reading a request does not depend on
  how the bytes were cut into reads, as long as the request is not complete before the last
  one; and the size limit and the declared length are never exceeded.
\<close>

section \<open>What the parsers leave alone\<close>

text \<open>The client without the members that body parsing writes, or that header parsing writes.\<close>

definition outside_body :: "client \<Rightarrow> client" where
  "outside_body c =
     c\<lparr>body := [], chunked_body_buffer := [], chunked_remaining_content_length := 0,
       content_length := 0, chunked_read_state := READING_BODY, client_to_server_state := C2S_DONE\<rparr>"

definition outside_header :: "client \<Rightarrow> client" where
  "outside_header c =
     c\<lparr>request_method := NONE, request_target := [], protocol := [], headers := [],
       is_chunked := False, content_length := 0, server_name := [], unuppercased_server_name := [],
       content_type := []\<rparr>"

lemma outside_bodyD:
  assumes "outside_body c' = outside_body c"
  shows "is_chunked c' = is_chunked c" and "client_max_body_size c' = client_max_body_size c"
proof -
  have "is_chunked (outside_body c') = is_chunked (outside_body c)"
    "client_max_body_size (outside_body c') = client_max_body_size (outside_body c)"
    by (simp_all add: assms)
  then show "is_chunked c' = is_chunked c" "client_max_body_size c' = client_max_body_size c"
    by (simp_all add: outside_body_def)
qed

lemma outside_headerD:
  assumes "outside_header c' = outside_header c"
  shows "client_to_server_state c' = client_to_server_state c" and "body c' = body c"
    and "chunked_body_buffer c' = chunked_body_buffer c"
    and "chunked_remaining_content_length c' = chunked_remaining_content_length c"
    and "chunked_read_state c' = chunked_read_state c"
proof -
  have "client_to_server_state (outside_header c') = client_to_server_state (outside_header c)"
    "body (outside_header c') = body (outside_header c)"
    "chunked_body_buffer (outside_header c') = chunked_body_buffer (outside_header c)"
    "chunked_remaining_content_length (outside_header c') = chunked_remaining_content_length (outside_header c)"
    "chunked_read_state (outside_header c') = chunked_read_state (outside_header c)"
    by (simp_all add: assms)
  then show "client_to_server_state c' = client_to_server_state c" "body c' = body c"
    "chunked_body_buffer c' = chunked_body_buffer c"
    "chunked_remaining_content_length c' = chunked_remaining_content_length c"
    "chunked_read_state c' = chunked_read_state c"
    by (simp_all add: outside_header_def)
qed

lemma chunkReadLen_frame: "outside_body (flow_client (chunkReadLen c)) = outside_body c"
  by (auto simp: chunkReadLen_def outside_body_def split: option.splits)

lemma chunkReadBody_frame: "outside_body (flow_client (chunkReadBody c)) = outside_body c"
  by (auto simp: chunkReadBody_def Let_def outside_body_def)

lemma chunkReadEndline_frame: "outside_body (flow_client (chunkReadEndline c)) = outside_body c"
  by (auto simp: chunkReadEndline_def Let_def outside_body_def)

lemma flowThen_frame:
  assumes "outside_body (flow_client f) = x" and "\<And>c. outside_body (flow_client (g c)) = outside_body c"
  shows "outside_body (flow_client (flowThen f g)) = x"
  using assms by (cases f) auto

lemma chunkPass_frame: "outside_body (flow_client (chunkPass c)) = outside_body c"
  unfolding chunkPass_def
  by (intro flowThen_frame chunkReadLen_frame chunkReadBody_frame chunkReadEndline_frame)

lemma chunkLoop_frame: "outside_body (snd (chunkLoop c)) = outside_body c"
proof (induction c rule: chunkLoop.induct)
  case (1 c)
  then show ?case
    using chunkPass_frame [of c]
    by (subst chunkLoop.simps) (auto simp: throw_def split: flow.split)
qed

lemma checkBodySize_None: "checkBodySize c = (None, d) \<longleftrightarrow> d = c \<and> length (body c) \<le> unat (client_max_body_size c)"
  by (auto simp: checkBodySize_def)

section \<open>The body\<close>

text \<open>Without chunking, no more than the declared number of bytes is taken.\<close>

definition body_wf :: "client \<Rightarrow> bool" where
  "body_wf c \<longleftrightarrow> is_chunked c \<or> length (body c) \<le> unat (content_length c)"

lemma plainBody_append:
  assumes "length (body c) \<le> unat (content_length c)"
  shows "plainBody ys (plainBody xs c) = plainBody (xs @ ys) c"
  using assms by (auto simp: plainBody_def)

lemma plainBody_wf:
  "length (body c) \<le> unat (content_length c) \<Longrightarrow>
     length (body (plainBody xs c)) \<le> unat (content_length (plainBody xs c))"
  by (auto simp: plainBody_def)

lemma parseBodyAppend_None:
  assumes "parseBodyAppend xs c = (None, d)"
  shows "if is_chunked c then chunkLoop (appendBuffer xs c) = (None, d) else d = plainBody xs c"
    and "length (body d) \<le> unat (client_max_body_size d)"
    and "is_chunked d = is_chunked c"
proof -
  show 1: "if is_chunked c then chunkLoop (appendBuffer xs c) = (None, d) else d = plainBody xs c"
    and "length (body d) \<le> unat (client_max_body_size d)"
    using assms by (auto simp: parseBodyAppend_def andThen_None_iff checkBodySize_None split: if_splits)
  show "is_chunked d = is_chunked c"
  proof (cases "is_chunked c")
    case True
    with 1 have "outside_body d = outside_body (appendBuffer xs c)"
      using chunkLoop_frame [of "appendBuffer xs c"] by simp
    from outside_bodyD(1) [OF this] show ?thesis by simp
  next
    case False
    with 1 show ?thesis by (simp add: plainBody_def)
  qed
qed

lemma parseBodyAppend_append:
  assumes "body_wf c" and p: "parseBodyAppend xs c = (None, d)"
  shows "parseBodyAppend (xs @ ys) c = parseBodyAppend ys d"
proof -
  note r = parseBodyAppend_None [OF p]
  show ?thesis
  proof (cases "is_chunked c")
    case True
    with r(1) have "chunkLoop (appendBuffer xs c) = (None, d)" by simp
    from chunkLoop_append [OF this, of ys] show ?thesis
      using True r(3) by (simp add: parseBodyAppend_def)
  next
    case False
    with r(1) assms(1) show ?thesis
      using r(3) plainBody_append [of c ys xs] by (simp add: parseBodyAppend_def body_wf_def)
  qed
qed

lemma parseBodyAppend_wf:
  assumes "body_wf c" and p: "parseBodyAppend xs c = (None, d)"
  shows "body_wf d"
  using assms(1) parseBodyAppend_None [OF p] plainBody_wf [of c xs] by (auto simp: body_wf_def split: if_splits)

text \<open>The body parser decodes a stream: cutting the body into reads does not change the result.\<close>

interpretation body_decoder: stream_decoder parseBodyAppend body_wf "\<lambda>c. True"
  by unfold_locales (auto intro: parseBodyAppend_wf parseBodyAppend_append)

section \<open>The header\<close>

lemma outside_header_updates [simp]:
  "outside_header (c\<lparr>request_method := m\<rparr>) = outside_header c"
  "outside_header (c\<lparr>request_target := t\<rparr>) = outside_header c"
  "outside_header (c\<lparr>protocol := t\<rparr>) = outside_header c"
  "outside_header (c\<lparr>headers := h\<rparr>) = outside_header c"
  "outside_header (c\<lparr>is_chunked := b\<rparr>) = outside_header c"
  "outside_header (c\<lparr>content_length := n\<rparr>) = outside_header c"
  "outside_header (c\<lparr>server_name := t\<rparr>) = outside_header c"
  "outside_header (c\<lparr>unuppercased_server_name := t\<rparr>) = outside_header c"
  "outside_header (c\<lparr>content_type := t\<rparr>) = outside_header c"
  by (simp_all add: outside_header_def)

lemma decodeRequestTarget_frame [simp]: "outside_header (decodeRequestTarget c) = outside_header c"
  by (simp add: decodeRequestTarget_def split: option.split)

lemma parseRequestLine_frame: "outside_header (snd (parseRequestLine line c)) = outside_header c"
  by (simp add: parseRequestLine_def Let_def throw_def split: option.split)

lemma useHeaders_frame: "outside_header (snd (useHeaders c)) = outside_header c"
proof -
  have 1: "outside_header (useTransferEncoding c) = outside_header c"
    by (simp add: useTransferEncoding_def)
  have 2: "outside_header (snd (useContentLength d)) = outside_header d" for d
    by (simp add: useContentLength_def Let_def throw_def split: option.split prod.split)
  have 3: "outside_header (snd (useHost d)) = outside_header d" for d
    by (simp add: useHost_def Let_def throw_def split: option.split)
  have 4: "outside_header (useContentType d) = outside_header d" for d
    by (simp add: useContentType_def split: option.split)
  have and_frame: "outside_header (snd (andThen r f)) = x"
    if "outside_header (snd r) = x" "\<And>d. outside_header (snd (f d)) = outside_header d" for r f x
    using that by (auto simp: andThen_def split: option.split)
  show ?thesis
    unfolding useHeaders_def by (intro and_frame) (simp_all add: 1 2 3 4)
qed

text \<open>A client whose header is still being read has not started on a body.\<close>

definition fresh_body :: "client \<Rightarrow> bool" where
  "fresh_body c \<longleftrightarrow> body c = [] \<and> chunked_body_buffer c = [] \<and>
     chunked_remaining_content_length c = 0 \<and> chunked_read_state c = READING_CONTENT_LEN"

definition client_wf :: "client \<Rightarrow> bool" where
  "client_wf c \<longleftrightarrow>
     (client_to_server_state c = C2S_HEADER \<longrightarrow> fresh_body c) \<and>
     (client_to_server_state c = C2S_BODY \<longrightarrow> body_wf c)"

abbreviation reading :: "client \<Rightarrow> bool" where
  "reading c \<equiv> client_to_server_state c \<noteq> C2S_DONE"

lemma client_wf_init: "client_wf (mk_client fd sfd port n)"
  by (simp add: client_wf_def fresh_body_def mk_client_def)

lemma parseBodyAppend_Nil:
  assumes "fresh_body c" and "is_chunked c \<or> content_length c \<noteq> 0"
  shows "parseBodyAppend [] c = (None, c)"
proof (cases "is_chunked c")
  case True
  have "chunkLoop c = (None, c)"
    using assms(1) by (subst chunkLoop.simps) (simp add: chunkPass_def chunkReadLen_def fresh_body_def)
  moreover have "appendBuffer [] c = c" by simp
  ultimately have "parseBodyAppend [] c = checkBodySize c"
    using True by (simp only: parseBodyAppend_def if_True andThen_simps)
  with assms(1) show ?thesis by (simp add: checkBodySize_def fresh_body_def)
next
  case False
  with assms have "plainBody [] c = c" by (simp add: plainBody_def fresh_body_def unat_eq_0)
  with False assms(1) show ?thesis
    by (simp add: parseBodyAppend_def checkBodySize_def fresh_body_def)
qed

text \<open>The part of \<open>parseHeader\<close> before the body is looked at.\<close>

definition headerPart :: "client \<Rightarrow> outcome" where
  "headerPart c =
     (case getHeaderLines c of
        [] \<Rightarrow> (Some OutOfRange, c)
      | request_line # header_lines \<Rightarrow>
          andThen (parseRequestLine request_line c) (\<lambda>c.
            let (ok, filled) = fillHeaders header_lines (headers c); c = c\<lparr>headers := filled\<rparr> in
            if \<not> ok then throw BAD_REQUEST c else useHeaders c))"

lemma andThen_assoc: "andThen (andThen r f) g = andThen r (\<lambda>c. andThen (f c) g)"
  by (simp add: andThen_def split: option.split)

lemma parseHeader_split: "parseHeader extra c = andThen (headerPart c) (finishHeader extra)"
  by (auto simp: parseHeader_def headerPart_def andThen_assoc Let_def split: list.split prod.split
      intro!: arg_cong2 [where f = andThen] ext)

lemma headerPart_frame:
  assumes "headerPart c = (None, d)"
  shows "outside_header d = outside_header c"
proof -
  from assms obtain l ls c1 where
    1: "parseRequestLine l c = (None, c1)" and
    2: "(case fillHeaders ls (headers c1) of (ok, filled) \<Rightarrow>
          if \<not> ok then throw BAD_REQUEST (c1\<lparr>headers := filled\<rparr>) else useHeaders (c1\<lparr>headers := filled\<rparr>)) = (None, d)"
    unfolding headerPart_def by (auto simp: andThen_None_iff Let_def split: list.splits)
  obtain ok filled where "fillHeaders ls (headers c1) = (ok, filled)" by (rule prod.exhaust)
  with 2 have 3: "(if \<not> ok then throw BAD_REQUEST (c1\<lparr>headers := filled\<rparr>)
      else useHeaders (c1\<lparr>headers := filled\<rparr>)) = (None, d)" by simp
  from 3 have "useHeaders (c1\<lparr>headers := filled\<rparr>) = (None, d)" by (auto split: if_splits)
  with useHeaders_frame [of "c1\<lparr>headers := filled\<rparr>"] have "outside_header d = outside_header c1" by simp
  also have "\<dots> = outside_header c" using parseRequestLine_frame [of l c] 1 by simp
  finally show ?thesis .
qed

lemma fresh_body_frame: "outside_header d = outside_header c \<Longrightarrow> fresh_body d \<longleftrightarrow> fresh_body c"
  by (auto simp: fresh_body_def dest: outside_headerD)

lemma parseBodyAppend_state:
  assumes "parseBodyAppend xs c = (e, d)"
  shows "client_to_server_state d = client_to_server_state c \<or> client_to_server_state d = C2S_DONE"
proof -
  have pass: "client_to_server_state (flow_client (chunkPass x)) \<in> {client_to_server_state x, C2S_DONE}" for x
  proof -
    have a: "client_to_server_state (flow_client (chunkReadLen y)) = client_to_server_state y" for y
      by (auto simp: chunkReadLen_def split: option.splits)
    have b: "client_to_server_state (flow_client (chunkReadBody y)) = client_to_server_state y" for y
      by (auto simp: chunkReadBody_def Let_def)
    have c: "client_to_server_state (flow_client (chunkReadEndline y)) \<in> {client_to_server_state y, C2S_DONE}" for y
      by (auto simp: chunkReadEndline_def Let_def)
    show ?thesis
      using a [of x] b c
      by (cases "chunkReadLen x"; cases "chunkReadBody (flow_client (chunkReadLen x))")
        (auto simp: chunkPass_def dest!: arg_cong [where f = flow_client], metis+)
  qed
  have loop: "client_to_server_state (snd (chunkLoop x)) \<in> {client_to_server_state x, C2S_DONE}" for x
  proof (induction x rule: chunkLoop.induct)
    case (1 x)
    then show ?case using pass [of x]
      by (subst chunkLoop.simps) (auto simp: throw_def split: flow.split)
  qed
  have "client_to_server_state (snd (parseBodyAppend xs c)) \<in> {client_to_server_state c, C2S_DONE}"
    using loop [of "appendBuffer xs c"]
    by (auto simp: parseBodyAppend_def andThen_def checkBodySize_def throw_def plainBody_def split: option.split)
  with assms show ?thesis by auto
qed

section \<open>The whole request\<close>

lemma find_str_append:
  assumes "find_str needle hay = Some i"
  shows "find_str needle (hay @ s) = Some i"
proof -
  from find_str_SomeD [OF assms] find_str_bound [OF assms]
  have "prefix needle (drop i hay)" "i + length needle \<le> length hay"
    "\<forall>j<i. \<not> prefix needle (drop j hay)" by auto
  moreover have "prefix needle (drop j (hay @ s)) \<longleftrightarrow> prefix needle (drop j hay)"
    if "j \<le> i" for j
  proof -
    have "length needle \<le> length (drop j hay)" using that \<open>i + length needle \<le> length hay\<close> by simp
    then have "prefix needle (drop j hay @ s) \<longleftrightarrow> prefix needle (drop j hay)"
      by (meson prefix_length_prefix prefix_prefix prefixI)
    then show ?thesis using that \<open>i + length needle \<le> length hay\<close> by simp
  qed
  ultimately show ?thesis by (simp add: find_str_Some_iff)
qed

lemma finishHeader_append:
  assumes "fresh_body c" and f: "finishHeader extra c = (None, d)" and "reading d"
  shows "client_to_server_state d = C2S_BODY" and "body_wf d"
    and "finishHeader (extra @ ys) c = parseBodyAppend ys d"
proof -
  let ?b = "c\<lparr>client_to_server_state := C2S_BODY\<rparr>"
  from f assms(3) have post: "\<not> (request_method c \<noteq> POST \<or> (content_length c = 0 \<and> \<not> is_chunked c))"
    by (auto simp: finishHeader_def split: if_splits)
  have fresh: "fresh_body ?b" using assms(1) by (simp add: fresh_body_def)
  have nil: "parseBodyAppend [] ?b = (None, ?b)"
    using post by (intro parseBodyAppend_Nil [OF fresh]) auto
  have fin: "finishHeader zs c = parseBodyAppend zs ?b" for zs
    using post nil by (cases zs) (auto simp: finishHeader_def)
  have wf: "body_wf ?b" using fresh by (simp add: body_wf_def fresh_body_def)
  have p: "parseBodyAppend extra ?b = (None, d)" using f fin by simp
  show "client_to_server_state d = C2S_BODY" using parseBodyAppend_state [OF p] assms(3) by simp
  show "body_wf d" by (rule parseBodyAppend_wf [OF wf p])
  show "finishHeader (extra @ ys) c = parseBodyAppend ys d"
    using fin parseBodyAppend_append [OF wf p] by simp
qed

lemma appendReadString_header:
  assumes "client_to_server_state c = C2S_HEADER" and "fresh_body c"
    and a: "appendReadString xs c = (None, d)" and "reading d"
  shows "client_wf d" and "appendReadString (xs @ ys) c = appendReadString ys d"
proof -
  let ?h = "header c @ xs"
  have "client_wf d \<and> appendReadString (xs @ ys) c = appendReadString ys d"
  proof (cases "find_str (crlf @ crlf) ?h")
    case None
    with a assms(1) have d: "d = c\<lparr>header := ?h\<rparr>" by (simp add: appendReadString_def)
    with assms(1,2) show ?thesis
      by (simp add: appendReadString_def client_wf_def fresh_body_def)
  next
    case (Some i)
    let ?c = "c\<lparr>header := take (i + 2) ?h\<rparr>" and ?extra = "drop (i + 4) ?h"
    have len: "i + 4 \<le> length ?h" using find_str_bound [OF Some] by simp
    from a assms(1) Some have "parseHeader ?extra ?c = (None, d)" by (simp add: appendReadString_def)
    then obtain c1 where c1: "headerPart ?c = (None, c1)" "finishHeader ?extra c1 = (None, d)"
      by (auto simp: parseHeader_split andThen_None_iff)
    have "fresh_body c1"
      using fresh_body_frame [OF headerPart_frame [OF c1(1)]] assms(2) by (simp add: fresh_body_def)
    note fin = finishHeader_append [OF this c1(2) assms(4)]
    have "find_str (crlf @ crlf) (?h @ ys) = Some i" by (rule find_str_append [OF Some])
    then have "appendReadString (xs @ ys) c = parseHeader (?extra @ ys) ?c"
      using assms(1) len by (simp add: appendReadString_def)
    also have "\<dots> = parseBodyAppend ys d" using c1(1) fin(3) by (simp add: parseHeader_split)
    finally show ?thesis using fin(1,2) by (simp add: appendReadString_def client_wf_def)
  qed
  then show "client_wf d" "appendReadString (xs @ ys) c = appendReadString ys d" by simp_all
qed

lemma appendReadString_wf:
  assumes "client_wf c" and a: "appendReadString xs c = (None, d)"
  shows "client_wf d"
proof (cases "reading d")
  case True
  show ?thesis
  proof (cases "client_to_server_state c")
    case C2S_HEADER
    with assms True appendReadString_header(1) show ?thesis by (simp add: client_wf_def)
  next
    case C2S_BODY
    with a have p: "parseBodyAppend xs c = (None, d)" by (simp add: appendReadString_def)
    with C2S_BODY True parseBodyAppend_state [OF p] parseBodyAppend_wf [OF _ p] assms(1) show ?thesis
      by (auto simp: client_wf_def)
  next
    case C2S_DONE
    with a assms(1) show ?thesis by (simp add: appendReadString_def)
  qed
qed (simp add: client_wf_def)

lemma appendReadString_append:
  assumes "client_wf c" and a: "appendReadString xs c = (None, d)" and "reading d"
  shows "appendReadString (xs @ ys) c = appendReadString ys d"
proof (cases "client_to_server_state c")
  case C2S_HEADER
  with assms appendReadString_header(2) show ?thesis by (simp add: client_wf_def)
next
  case C2S_BODY
  with a have p: "parseBodyAppend xs c = (None, d)" by (simp add: appendReadString_def)
  with C2S_BODY assms(3) parseBodyAppend_state [OF p] have "client_to_server_state d = C2S_BODY" by auto
  with C2S_BODY parseBodyAppend_append [OF _ p] assms(1) show ?thesis
    by (simp add: appendReadString_def client_wf_def)
next
  case C2S_DONE
  with a assms(3) show ?thesis by (simp add: appendReadString_def)
qed

interpretation request_decoder: stream_decoder appendReadString client_wf reading
  by unfold_locales (auto intro: appendReadString_wf appendReadString_append)

text \<open>
  C2: the request parser does not depend on how the bytes arrive. If the reads \<open>xss\<close> all
  succeed but perhaps the last, and the request is not complete before the last one, then
  reading them one by one leaves exactly the client, and throws exactly the exception, that
  reading all the bytes at once would.
\<close>

theorem appendReadString_segmentation:
  assumes "client_wf c" and "xss \<noteq> []"
    and "\<And>n. n < length xss \<Longrightarrow> \<exists>t. feedAll appendReadString (take n xss) c = (None, t)"
    and "\<And>n t. 0 < n \<Longrightarrow> n < length xss \<Longrightarrow> feedAll appendReadString (take n xss) c = (None, t) \<Longrightarrow>
           client_to_server_state t \<noteq> C2S_DONE"
  shows "feedAll appendReadString xss c = appendReadString (concat xss) c"
  using assms(1,2,4,3) by (rule request_decoder.feed_pieces)

definition example_client :: client where
  "example_client = mk_client 5 3 ''8080'' 1000"

definition example_reads :: "string list" where
  "example_reads =
     [''POST /a%20b HTTP/1.1'' @ crlf @ ''Host: x'' @ crlf @ ''Content-Le'',
      ''ngth: 5'' @ crlf @ crlf @ ''he'', ''llo'']"

theorem appendReadString_segmentation_witness:
  "feedAll appendReadString example_reads example_client
     = appendReadString (concat example_reads) example_client \<and>
   body (snd (appendReadString (concat example_reads) example_client)) = ''hello''"
proof -
  let ?f = "\<lambda>n. feedAll appendReadString (take n example_reads) example_client"
  have n: "length example_reads = 3" by (simp add: example_reads_def)
  have ok: "fst (?f 0) = None" "fst (?f 1) = None" "fst (?f 2) = None" by code_simp+
  have op: "client_to_server_state (snd (?f 1)) = C2S_HEADER"
    "client_to_server_state (snd (?f 2)) = C2S_BODY" by code_simp+
  have cases: "i = 0 \<or> i = 1 \<or> i = 2" if "i < length example_reads" for i
    using that n by auto
  have 1: "\<exists>t. ?f i = (None, t)" if "i < length example_reads" for i
    using cases [OF that] ok by (metis prod.collapse)
  have 2: "client_to_server_state t \<noteq> C2S_DONE" if "0 < i" "i < length example_reads" "?f i = (None, t)" for i t
    using cases [OF that(2)] op that by auto
  have "feedAll appendReadString example_reads example_client
      = appendReadString (concat example_reads) example_client"
  proof (rule appendReadString_segmentation)
    show "client_wf example_client" unfolding example_client_def by (rule client_wf_init)
  qed (use 1 2 n in auto)
  moreover have "body (snd (appendReadString (concat example_reads) example_client)) = ''hello''"
    by code_simp
  ultimately show ?thesis by blast
qed

end
