(* ===== verification/Tokenizer.thy ===== *)
theory Tokenizer
  imports Utils
begin

text \<open>
  The tokenizer of the configuration parser, \<open>src/src/config/Tokenizer.cpp\<close>. Its state is the
  input stream (contents, read position, end-of-file flag) and the position it can roll back
  to. Reading the last character does not set the flag, reading beyond it does, together
  with the fail bit, and \<open>_getChar\<close> then throws; \<open>seekg\<close> moves a stream whose flag is clear.
  The lemmas give progress, the exact text each token stands for, and that rolling back
  re-reads the same token.
\<close>

datatype token_type =
    BOOLEAN_TRUE | BOOLEAN_FALSE | INTEGER | STRING | COMMA | COLON
  | ARRAY_OPEN | ARRAY_CLOSE | OBJECT_OPEN | OBJECT_CLOSE

record token =
  ttype :: token_type
  tstring :: string

datatype token_exception =
    RanOutOfNonWhitespaceCharacters | ExpectedBoolean | UnexpectedCharacter

record tokenizer =
  contents :: string
  gpos :: nat
  eofbit :: bool
  prevPos :: nat

definition mk_tokenizer :: "string \<Rightarrow> tokenizer" where
  "mk_tokenizer file = \<lparr>contents = file, gpos = 0, eofbit = False, prevPos = 0\<rparr>"

definition getChar :: "tokenizer \<Rightarrow> token_exception + char \<times> tokenizer" where
  "getChar t =
     (if \<not> eofbit t \<and> gpos t < length (contents t)
      then Inr (contents t ! gpos t, t\<lparr>gpos := gpos t + 1\<rparr>)
      else Inl RanOutOfNonWhitespaceCharacters)"

definition remaining :: "tokenizer \<Rightarrow> nat" where
  "remaining t = length (contents t) - gpos t"

lemma getChar_InrD:
  "getChar t = Inr (c, t') \<Longrightarrow> \<not> eofbit t \<and> gpos t < length (contents t) \<and>
     c = contents t ! gpos t \<and> t' = t\<lparr>gpos := gpos t + 1\<rparr>"
  by (auto simp: getChar_def split: if_splits)

lemma getChar_remaining: "getChar t = Inr (c, t') \<Longrightarrow> remaining t' < remaining t"
  by (auto dest!: getChar_InrD simp: remaining_def)

function getWithoutWhitespace :: "tokenizer \<Rightarrow> token_exception + char \<times> tokenizer" where
  "getWithoutWhitespace t =
     bindR (getChar t) (\<lambda>(c, t').
       if \<not> isspace c then Inr (c, t')
       else if eofbit t' then Inl RanOutOfNonWhitespaceCharacters
       else getWithoutWhitespace t')"
  by pat_completeness auto
termination
  by (relation "measure remaining") (auto intro: getChar_remaining)

text \<open>The loop that collects the characters of a string up to the closing quote.\<close>

function readString :: "string \<Rightarrow> tokenizer \<Rightarrow> token_exception + string \<times> tokenizer" where
  "readString acc t =
     bindR (getChar t) (\<lambda>(c, t').
       if c = CHR 0x22 then Inr (acc, t') else readString (acc @ [c]) t')"
  by pat_completeness auto
termination
  by (relation "measure (\<lambda>(acc, t). remaining t)") (auto intro: getChar_remaining)

text \<open>
  The loop that collects digits. It gives back the first other character with \<open>seekg\<close>;
  the branch for a set end-of-file flag is the source's, which \<open>_getChar\<close> never reaches.
\<close>

function readDigits :: "string \<Rightarrow> tokenizer \<Rightarrow> token_exception + string \<times> tokenizer" where
  "readDigits acc t =
     (let prevCharPos = gpos t in
      bindR (getChar t) (\<lambda>(c, t').
        if eofbit t' then Inr (acc, t')
        else if is_digit c then readDigits (acc @ [c]) t'
        else Inr (acc, t'\<lparr>gpos := prevCharPos\<rparr>)))"
  by pat_completeness auto
termination
  by (relation "measure (\<lambda>(acc, t). remaining t)") (auto intro: getChar_remaining)

text \<open>The short-circuit chain \<open>_getChar() == 'r' && _getChar() == 'u' && ...\<close>.\<close>

fun expectChars :: "string \<Rightarrow> tokenizer \<Rightarrow> token_exception + bool \<times> tokenizer" where
  "expectChars [] t = Inr (True, t)"
| "expectChars (x # xs) t =
     bindR (getChar t) (\<lambda>(c, t'). if c = x then expectChars xs t' else Inr (False, t'))"

definition lexToken :: "char \<Rightarrow> tokenizer \<Rightarrow> token_exception + token \<times> tokenizer" where
  "lexToken c t =
     (if c = CHR 0x22 then
        bindR (readString [] t) (\<lambda>(s, t). Inr (\<lparr>ttype = STRING, tstring = s\<rparr>, t))
      else if c = CHR ''{'' then Inr (\<lparr>ttype = OBJECT_OPEN, tstring = []\<rparr>, t)
      else if c = CHR ''}'' then Inr (\<lparr>ttype = OBJECT_CLOSE, tstring = []\<rparr>, t)
      else if c = CHR ''['' then Inr (\<lparr>ttype = ARRAY_OPEN, tstring = []\<rparr>, t)
      else if c = CHR '']'' then Inr (\<lparr>ttype = ARRAY_CLOSE, tstring = []\<rparr>, t)
      else if c = CHR '','' then Inr (\<lparr>ttype = COMMA, tstring = []\<rparr>, t)
      else if c = CHR '':'' then Inr (\<lparr>ttype = COLON, tstring = []\<rparr>, t)
      else if is_digit c then
        bindR (readDigits [c] t) (\<lambda>(s, t). Inr (\<lparr>ttype = INTEGER, tstring = s\<rparr>, t))
      else if c = CHR ''t'' then
        bindR (expectChars ''rue'' t) (\<lambda>(ok, t).
          if ok then Inr (\<lparr>ttype = BOOLEAN_TRUE, tstring = []\<rparr>, t) else Inl ExpectedBoolean)
      else if c = CHR ''f'' then
        bindR (expectChars ''alse'' t) (\<lambda>(ok, t).
          if ok then Inr (\<lparr>ttype = BOOLEAN_FALSE, tstring = []\<rparr>, t) else Inl ExpectedBoolean)
      else Inl UnexpectedCharacter)"

definition getToken :: "tokenizer \<Rightarrow> token_exception + token \<times> tokenizer" where
  "getToken t =
     (if eofbit t then Inl RanOutOfNonWhitespaceCharacters
      else bindR (getWithoutWhitespace (t\<lparr>prevPos := gpos t\<rparr>)) (\<lambda>(c, t'). lexToken c t'))"

definition rollBackToken :: "tokenizer \<Rightarrow> tokenizer" where
  "rollBackToken t = t\<lparr>eofbit := False, gpos := prevPos t\<rparr>"

declare getWithoutWhitespace.simps [simp del] readString.simps [simp del] readDigits.simps [simp del]

section \<open>Frame and progress\<close>

text \<open>
  A reader step moves only the read position, forwards and inside the file, and leaves the
  end-of-file flag clear.
\<close>

definition advances :: "tokenizer \<Rightarrow> tokenizer \<Rightarrow> bool" where
  "advances t t' \<longleftrightarrow> (\<exists>p. t' = t\<lparr>gpos := p\<rparr> \<and> gpos t \<le> p \<and> p \<le> length (contents t)) \<and> \<not> eofbit t"

lemma advances_refl: "\<not> eofbit t \<Longrightarrow> gpos t \<le> length (contents t) \<Longrightarrow> advances t t"
  unfolding advances_def by (intro conjI exI [of _ "gpos t"]) simp_all

lemma advances_trans [trans]: "advances t u \<Longrightarrow> advances u v \<Longrightarrow> advances t v"
  by (auto simp: advances_def)

lemma advances_gpos: "advances t t' \<Longrightarrow> gpos t \<le> gpos t'"
  by (auto simp: advances_def)

lemma getChar_advances: "getChar t = Inr (c, t') \<Longrightarrow> advances t t' \<and> gpos t < gpos t'"
  by (auto dest!: getChar_InrD simp: advances_def)

lemma getWithoutWhitespace_advances:
  "getWithoutWhitespace t = Inr (c, t') \<Longrightarrow> advances t t' \<and> gpos t < gpos t' \<and> \<not> isspace c"
proof (induction t rule: getWithoutWhitespace.induct)
  case (1 t)
  from "1.prems" obtain d u where u: "getChar t = Inr (d, u)"
    and rest: "(if \<not> isspace d then Inr (d, u)
       else if eofbit u then Inl RanOutOfNonWhitespaceCharacters
       else getWithoutWhitespace u) = Inr (c, t')"
    by (subst (asm) getWithoutWhitespace.simps) (auto simp: result_iff)
  show ?case
  proof (cases "isspace d")
    case True
    with rest have "\<not> eofbit u" "getWithoutWhitespace u = Inr (c, t')" by (auto split: if_splits)
    with "1.IH" [OF u refl] True have "advances u t' \<and> gpos u < gpos t' \<and> \<not> isspace c" by simp
    with getChar_advances [OF u] show ?thesis by (auto intro: advances_trans)
  next
    case False
    with rest getChar_advances [OF u] show ?thesis by auto
  qed
qed

lemma readString_advances: "readString acc t = Inr (s, t') \<Longrightarrow> advances t t'"
proof (induction acc t rule: readString.induct)
  case (1 acc t)
  from "1.prems" obtain d u where u: "getChar t = Inr (d, u)"
    and rest: "(if d = CHR 0x22 then Inr (acc, u) else readString (acc @ [d]) u) = Inr (s, t')"
    by (subst (asm) readString.simps) (auto simp: result_iff)
  show ?case
  proof (cases "d = CHR 0x22")
    case False
    with rest "1.IH" [OF u refl False] have "advances u t'" by simp
    with getChar_advances [OF u] show ?thesis by (auto intro: advances_trans)
  next
    case True
    with rest getChar_advances [OF u] show ?thesis by auto
  qed
qed

lemma readDigits_advances: "readDigits acc t = Inr (s, t') \<Longrightarrow> advances t t'"
proof (induction acc t rule: readDigits.induct)
  case (1 acc t)
  from "1.prems" obtain d u where u: "getChar t = Inr (d, u)"
    and rest: "(if eofbit u then Inr (acc, u) else if is_digit d then readDigits (acc @ [d]) u
       else Inr (acc, u\<lparr>gpos := gpos t\<rparr>)) = Inr (s, t')"
    by (subst (asm) readDigits.simps) (auto simp: result_iff)
  have flag: "\<not> eofbit u" using getChar_InrD [OF u] by simp
  show ?case
  proof (cases "is_digit d")
    case True
    with rest flag "1.IH" [OF refl u refl flag True] have "advances u t'" by simp
    with getChar_advances [OF u] show ?thesis by (auto intro: advances_trans)
  next
    case False
    with rest flag getChar_InrD [OF u] show ?thesis by (auto intro: advances_refl)
  qed
qed

lemma expectChars_advances: "\<not> eofbit t \<Longrightarrow> gpos t \<le> length (contents t) \<Longrightarrow>
    expectChars xs t = Inr (ok, t') \<Longrightarrow> advances t t'"
proof (induction xs arbitrary: t)
  case Nil
  then show ?case by (auto intro: advances_refl)
next
  case (Cons x xs)
  then obtain d u where u: "getChar t = Inr (d, u)"
    and rest: "(if d = x then expectChars xs u else Inr (False, u)) = Inr (ok, t')"
    by (auto simp: result_iff)
  have "\<not> eofbit u" "gpos u \<le> length (contents u)" using getChar_InrD [OF u] by auto
  with Cons.IH [of u] rest getChar_advances [OF u] show ?case
    by (auto intro: advances_trans split: if_splits)
qed

lemma lexToken_advances:
  assumes "lexToken c t = Inr (tok, t')" and "\<not> eofbit t" and "gpos t \<le> length (contents t)"
  shows "advances t t'"
proof -
  have self: "advances t t" using assms(2,3) by (rule advances_refl)
  show ?thesis
    using assms self
    by (auto simp: lexToken_def result_iff simp del: expectChars.simps split: if_splits
        dest: readString_advances readDigits_advances expectChars_advances)
qed

lemma getToken_advances:
  assumes "getToken t = Inr (tok, t')"
  shows "advances (t\<lparr>prevPos := gpos t\<rparr>) t' \<and> gpos t < gpos t'"
proof -
  let ?t = "t\<lparr>prevPos := gpos t\<rparr>"
  from assms obtain c u where u: "getWithoutWhitespace ?t = Inr (c, u)" and l: "lexToken c u = Inr (tok, t')"
    by (auto simp: getToken_def result_iff split: if_splits)
  from getWithoutWhitespace_advances [OF u] have a: "advances ?t u" "gpos t < gpos u" by auto
  then have "\<not> eofbit u" "gpos u \<le> length (contents u)" by (auto simp: advances_def)
  with l have "advances u t'" by (rule lexToken_advances)
  with a show ?thesis by (auto intro: advances_trans dest: advances_gpos)
qed

lemmas getToken_frame = getToken_advances [unfolded advances_def]

lemma getToken_remaining: "getToken t = Inr (tok, t') \<Longrightarrow> remaining t' < remaining t"
  using getToken_frame [of t tok t'] by (auto simp: remaining_def)

lemma getToken_prevPos [simp]: "getToken (t\<lparr>prevPos := p\<rparr>) = getToken t"
  by (simp add: getToken_def)

lemma rollBackToken_getToken:
  assumes "getToken t = Inr (tok, t')"
  shows "rollBackToken t' = t\<lparr>prevPos := gpos t\<rparr>"
  using getToken_frame [OF assms] by (auto simp: rollBackToken_def)

text \<open>
  C13: rolling back re-reads the same token: after a successful \<open>getToken\<close>, \<open>rollBackToken\<close>
  followed by \<open>getToken\<close> returns that token again and leaves the tokenizer where it was.
\<close>

theorem rollBack_rereads:
  "getToken t = Inr (tok, t') \<Longrightarrow> getToken (rollBackToken t') = Inr (tok, t')"
  by (simp add: rollBackToken_getToken)

theorem rollBack_rereads_witness:
  "\<exists>t'. getToken (mk_tokenizer ''  12, 3'') = Inr (\<lparr>ttype = INTEGER, tstring = ''12''\<rparr>, t') \<and>
     getToken (rollBackToken t') = Inr (\<lparr>ttype = INTEGER, tstring = ''12''\<rparr>, t')"
proof -
  have "getToken (mk_tokenizer ''  12, 3'') =
      Inr (\<lparr>ttype = INTEGER, tstring = ''12''\<rparr>,
           \<lparr>contents = ''  12, 3'', gpos = 4, eofbit = False, prevPos = 0\<rparr>)"
    by code_simp
  then show ?thesis using rollBack_rereads by blast
qed

section \<open>The text of a token\<close>

definition rest :: "tokenizer \<Rightarrow> string" where
  "rest t = drop (gpos t) (contents t)"

lemma rest_Cons:
  assumes "rest t = c # r"
  shows "gpos t < length (contents t)" and "contents t ! gpos t = c"
    and "rest (t\<lparr>gpos := Suc (gpos t)\<rparr>) = r"
proof -
  show lt: "gpos t < length (contents t)"
    using assms by (metis rest_def drop_all linorder_not_le list.distinct(1))
  then show "contents t ! gpos t = c" "rest (t\<lparr>gpos := Suc (gpos t)\<rparr>) = r"
    using assms by (simp_all add: rest_def flip: Cons_nth_drop_Suc)
qed

lemma getChar_rest:
  "\<not> eofbit t \<Longrightarrow> rest t = c # r \<Longrightarrow> getChar t = Inr (c, t\<lparr>gpos := Suc (gpos t)\<rparr>)"
  using rest_Cons [of t c r] by (simp add: getChar_def)

lemma rest_prevPos [simp]: "rest (t\<lparr>prevPos := p\<rparr>) = rest t"
  by (simp add: rest_def)

lemma rest_advance: "rest t = xs @ ys \<Longrightarrow> rest (t\<lparr>gpos := gpos t + length xs\<rparr>) = ys"
  by (simp add: rest_def add.commute flip: drop_drop)

lemma getWithoutWhitespace_rest:
  "\<not> eofbit t \<Longrightarrow> rest t = ws @ c # r \<Longrightarrow> list_all isspace ws \<Longrightarrow> \<not> isspace c \<Longrightarrow>
     getWithoutWhitespace t = Inr (c, t\<lparr>gpos := gpos t + length ws + 1\<rparr>)"
proof (induction ws arbitrary: t)
  case Nil
  then show ?case by (subst getWithoutWhitespace.simps) (simp add: getChar_rest)
next
  case (Cons w ws)
  let ?u = "t\<lparr>gpos := Suc (gpos t)\<rparr>"
  have "rest ?u = ws @ c # r" using Cons.prems(2) by (intro rest_Cons(3)) simp
  with Cons show ?case
    by (subst getWithoutWhitespace.simps) (simp add: getChar_rest [of t w "ws @ c # r"])
qed

lemma readString_rest:
  "\<not> eofbit t \<Longrightarrow> rest t = s @ CHR 0x22 # r \<Longrightarrow> CHR 0x22 \<notin> set s \<Longrightarrow>
     readString acc t = Inr (acc @ s, t\<lparr>gpos := gpos t + length s + 1\<rparr>)"
proof (induction s arbitrary: t acc)
  case Nil
  then show ?case by (subst readString.simps) (simp add: getChar_rest)
next
  case (Cons x s)
  let ?u = "t\<lparr>gpos := Suc (gpos t)\<rparr>"
  have "rest ?u = s @ CHR 0x22 # r" using Cons.prems(2) by (intro rest_Cons(3)) simp
  with Cons show ?case
    by (subst readString.simps) (auto simp: getChar_rest [of t x "s @ CHR 0x22 # r"])
qed

lemma readDigits_rest:
  "\<not> eofbit t \<Longrightarrow> rest t = s @ c # r \<Longrightarrow> list_all is_digit s \<Longrightarrow> \<not> is_digit c \<Longrightarrow>
     readDigits acc t = Inr (acc @ s, t\<lparr>gpos := gpos t + length s\<rparr>)"
proof (induction s arbitrary: t acc)
  case Nil
  then show ?case by (subst readDigits.simps) (simp add: getChar_rest)
next
  case (Cons x s)
  let ?u = "t\<lparr>gpos := Suc (gpos t)\<rparr>"
  have "rest ?u = s @ c # r" using Cons.prems(2) by (intro rest_Cons(3)) simp
  with Cons show ?case
    by (subst readDigits.simps) (auto simp: getChar_rest [of t x "s @ c # r"])
qed

lemma expectChars_rest:
  "\<not> eofbit t \<Longrightarrow> rest t = xs @ r \<Longrightarrow>
     expectChars xs t = Inr (True, t\<lparr>gpos := gpos t + length xs\<rparr>)"
proof (induction xs arbitrary: t)
  case (Cons x xs)
  let ?u = "t\<lparr>gpos := Suc (gpos t)\<rparr>"
  have "rest ?u = xs @ r" using Cons.prems(2) by (intro rest_Cons(3)) simp
  with Cons show ?case by (simp add: getChar_rest [of t x "xs @ r"])
qed simp

fun token_text :: "token_type \<Rightarrow> string \<Rightarrow> string" where
  "token_text BOOLEAN_TRUE s = ''true''"
| "token_text BOOLEAN_FALSE s = ''false''"
| "token_text INTEGER s = s"
| "token_text STRING s = CHR 0x22 # s @ [CHR 0x22]"
| "token_text COMMA s = '',''"
| "token_text COLON s = '':''"
| "token_text ARRAY_OPEN s = ''[''"
| "token_text ARRAY_CLOSE s = '']''"
| "token_text OBJECT_OPEN s = ''{''"
| "token_text OBJECT_CLOSE s = ''}''"

text \<open>
  A token that \<open>getToken\<close> can return, in front of \<open>r\<close>: a string holds no quote, an integer
  is a non-empty run of digits that ends before a character of \<open>r\<close>.
\<close>

fun valid_token :: "token_type \<Rightarrow> string \<Rightarrow> string \<Rightarrow> bool" where
  "valid_token INTEGER s r \<longleftrightarrow> s \<noteq> [] \<and> list_all is_digit s \<and> r \<noteq> [] \<and> \<not> is_digit (hd r)"
| "valid_token STRING s r \<longleftrightarrow> CHR 0x22 \<notin> set s"
| "valid_token _ s r \<longleftrightarrow> s = []"

lemma isspace_special:
  "\<not> isspace CHR 0x22" "\<not> isspace CHR ''{''" "\<not> isspace CHR ''}''" "\<not> isspace CHR ''[''"
  "\<not> isspace CHR '']''" "\<not> isspace CHR '',''" "\<not> isspace CHR '':''" "\<not> isspace CHR ''t''"
  "\<not> isspace CHR ''f''"
  by (simp_all add: isspace_def)

lemma is_digit_special:
  "\<not> is_digit CHR 0x22" "\<not> is_digit CHR ''{''" "\<not> is_digit CHR ''}''" "\<not> is_digit CHR ''[''"
  "\<not> is_digit CHR '']''" "\<not> is_digit CHR '',''" "\<not> is_digit CHR '':''" "\<not> is_digit CHR ''t''"
  "\<not> is_digit CHR ''f''"
  by (simp_all add: is_digit_def)

lemma token_text_Cons:
  assumes "valid_token ty s r"
  obtains c cs where "token_text ty s = c # cs" and "\<not> isspace c"
proof (cases ty)
  case INTEGER
  with assms obtain c cs where "s = c # cs" "is_digit c" by (cases s) auto
  with INTEGER is_digit_not_special that show ?thesis by simp
qed (use that isspace_special in auto)

lemma lexToken_text:
  assumes "\<not> eofbit t" and "token_text ty s = c # cs" and "rest t = cs @ r" and "valid_token ty s r"
  shows "lexToken c t = Inr (\<lparr>ttype = ty, tstring = s\<rparr>, t\<lparr>gpos := gpos t + length cs\<rparr>)"
proof (cases ty)
  case INTEGER
  with assms obtain d r' where r: "r = d # r'" "\<not> is_digit d" by (cases r) auto
  from INTEGER assms have c: "is_digit c" "list_all is_digit cs" "s = c # cs" by auto
  have "readDigits [c] t = Inr ([c] @ cs, t\<lparr>gpos := gpos t + length cs\<rparr>)"
    using assms(1,3) c(2) r by (intro readDigits_rest [of t cs d r']) auto
  moreover have "c \<notin> {CHR 0x22, CHR ''{'', CHR ''}'', CHR ''['', CHR '']'', CHR '','', CHR '':''}"
    using c(1) is_digit_special by auto
  ultimately show ?thesis using INTEGER c by (simp add: lexToken_def)
next
  case STRING
  with assms have c: "c = CHR 0x22" "cs = s @ [CHR 0x22]" by auto
  have "readString [] t = Inr ([] @ s, t\<lparr>gpos := gpos t + length s + 1\<rparr>)"
    using assms c STRING by (intro readString_rest [of t s r]) auto
  then show ?thesis using STRING c by (simp add: lexToken_def)
next
  case BOOLEAN_TRUE
  with assms show ?thesis using is_digit_special
    by (auto simp: lexToken_def expectChars_rest [of t cs r])
next
  case BOOLEAN_FALSE
  with assms show ?thesis using is_digit_special
    by (auto simp: lexToken_def expectChars_rest [of t cs r])
qed (use assms in \<open>auto simp: lexToken_def\<close>)

lemma getToken_reads:
  assumes "\<not> eofbit t" and "rest t = ws @ token_text ty s @ r" and "list_all isspace ws"
    and "valid_token ty s r"
  shows "getToken t = Inr (\<lparr>ttype = ty, tstring = s\<rparr>,
           t\<lparr>prevPos := gpos t, gpos := gpos t + length ws + length (token_text ty s)\<rparr>)"
proof -
  let ?t = "t\<lparr>prevPos := gpos t\<rparr>"
  obtain c cs where c: "token_text ty s = c # cs" "\<not> isspace c"
    using assms(4) by (rule token_text_Cons)
  let ?u = "?t\<lparr>gpos := gpos t + length (ws @ [c])\<rparr>"
  have "getWithoutWhitespace ?t = Inr (c, ?u)"
    using assms c getWithoutWhitespace_rest [of ?t ws c "cs @ r"] by simp
  moreover have "rest ?u = cs @ r"
    using rest_advance [of ?t "ws @ [c]" "cs @ r"] assms(2) c(1) by simp
  ultimately show ?thesis
    using assms(1,4) c lexToken_text [of ?u ty s c cs r] by (simp add: getToken_def add.assoc)
qed

text \<open>
  the text of a token, after any whitespace, is read as exactly that token, and the
  tokenizer stops right behind the text.
\<close>

lemma getToken_text:
  assumes "\<not> eofbit t" and "rest t = ws @ token_text ty s @ r" and "list_all isspace ws"
    and "valid_token ty s r"
  shows "getToken t = Inr (\<lparr>ttype = ty, tstring = s\<rparr>,
           t\<lparr>prevPos := gpos t, gpos := gpos t + length ws + length (token_text ty s)\<rparr>)"
  using assms by (rule getToken_reads)

end
