(* ===== verification/Json.thy ===== *)
theory Json
  imports Tokenizer
begin

text \<open>
  The JSON values and the recursive-descent parser of the configuration file:
  \<open>src/src/config/Node.cpp\<close> and \<open>src/src/config/JSON.cpp\<close>. A \<open>std::map\<close> is an association list
  sorted by key. The mutual recursion of \<open>_parseArray\<close> and \<open>_parseObject\<close>, with their loops,
  runs on fuel; \<open>OutOfFuel\<close> is the model's own result, and the lemmas show that
  \<open>2 * length file + 2\<close> units always suffice, so the constructor \<open>JSON\<close> never returns it.
\<close>

section \<open>Nodes\<close>

datatype node =
    NBoolean bool
  | NInteger "64 word"
  | NString string
  | NArray "node list"
  | NObject "(string \<times> node) list"

datatype node_exception = GetBoolean | GetInteger | GetString | GetArray | GetObject

fun getBoolean :: "node \<Rightarrow> node_exception + bool" where
  "getBoolean (NBoolean b) = Inr b"
| "getBoolean _ = Inl GetBoolean"

fun getInteger :: "node \<Rightarrow> node_exception + 64 word" where
  "getInteger (NInteger i) = Inr i"
| "getInteger _ = Inl GetInteger"

fun getString :: "node \<Rightarrow> node_exception + string" where
  "getString (NString s) = Inr s"
| "getString _ = Inl GetString"

fun getArray :: "node \<Rightarrow> node_exception + node list" where
  "getArray (NArray xs) = Inr xs"
| "getArray _ = Inl GetArray"

fun getObject :: "node \<Rightarrow> node_exception + (string \<times> node) list" where
  "getObject (NObject m) = Inr m"
| "getObject _ = Inl GetObject"

section \<open>Ordered maps\<close>

text \<open>\<open>std::map::contains\<close> and \<open>std::map::emplace\<close>, which keeps an existing entry.\<close>

definition contains :: "('k \<times> 'v) list \<Rightarrow> 'k \<Rightarrow> bool" where
  "contains m k \<longleftrightarrow> map_of m k \<noteq> None"

fun emplace :: "'k::linorder \<Rightarrow> 'v \<Rightarrow> ('k \<times> 'v) list \<Rightarrow> ('k \<times> 'v) list" where
  "emplace k v [] = [(k, v)]"
| "emplace k v ((k', v') # m) =
     (if k < k' then (k, v) # (k', v') # m
      else if k = k' then (k', v') # m
      else (k', v') # emplace k v m)"

abbreviation sorted_keys :: "('k::linorder \<times> 'v) list \<Rightarrow> bool" where
  "sorted_keys m \<equiv> sorted_wrt (<) (map fst m)"

lemma contains_iff: "contains m k \<longleftrightarrow> k \<in> fst ` set m"
  by (auto simp: contains_def map_of_eq_None_iff)

lemma Ball_emplace:
  "\<not> contains m k \<Longrightarrow>
     (\<forall>x \<in> set (emplace k v m). P x) \<longleftrightarrow> P (k, v) \<and> (\<forall>x \<in> set m. P x)"
  by (induction k v m rule: emplace.induct) (auto simp: contains_iff)

lemma sorted_keys_emplace:
  "sorted_keys m \<Longrightarrow> \<not> contains m k \<Longrightarrow> sorted_keys (emplace k v m)"
proof (induction k v m rule: emplace.induct)
  case (2 k v k' v' m)
  then have "\<not> contains m k" by (simp add: contains_iff)
  with 2 show ?case by (auto simp: Ball_emplace contains_iff not_less_iff_gr_or_eq)
qed simp

lemma map_of_emplace:
  "\<not> contains m k \<Longrightarrow> map_of (emplace k v m) = (map_of m)(k \<mapsto> v)"
  by (induction k v m rule: emplace.induct) (auto simp: contains_iff fun_eq_iff)

lemma emplace_greatest:
  "\<forall>k' \<in> set (map fst m). k' < k \<Longrightarrow> emplace k v m = m @ [(k, v)]"
  by (induction m) (auto simp: not_less_iff_gr_or_eq)

section \<open>The parser\<close>

datatype json_exception =
    TokenError token_exception
  | ExpectedStringKey | ExpectedColon | ExpectedComma | ExpectedObject | InvalidInteger
  | UnexpectedToken | DuplicateKey | NestedTooDeep
  | OutOfFuel

record json =
  jtok :: tokenizer
  max_depth :: int
  depth :: int

definition nextToken :: "json \<Rightarrow> json_exception + token \<times> json" where
  "nextToken j = (case getToken (jtok j) of
       Inl e \<Rightarrow> Inl (TokenError e)
     | Inr (tok, t) \<Rightarrow> Inr (tok, j\<lparr>jtok := t\<rparr>))"

definition rollBack :: "json \<Rightarrow> json" where
  "rollBack j = j\<lparr>jtok := rollBackToken (jtok j)\<rparr>"

definition parseBoolean :: "json \<Rightarrow> json_exception + node \<times> json" where
  "parseBoolean j =
     bindR (nextToken j) (\<lambda>(token, j). Inr (NBoolean (ttype token = BOOLEAN_TRUE), j))"

definition parseInteger :: "json \<Rightarrow> json_exception + node \<times> json" where
  "parseInteger j =
     bindR (nextToken j) (\<lambda>(token, j).
       let (ok, integer) = parseNumber (tstring token) (- 1 :: 64 word)
       in if ok then Inr (NInteger integer, j) else Inl InvalidInteger)"

definition parseString :: "json \<Rightarrow> json_exception + node \<times> json" where
  "parseString j = bindR (nextToken j) (\<lambda>(token, j). Inr (NString (tstring token), j))"

text \<open>
  \<open>arrayLoop\<close> and \<open>objectLoop\<close> are the \<open>while (true)\<close> loops; their token argument is the
  one already read, and the accumulated container is their result.
\<close>

fun parseArray :: "nat \<Rightarrow> json \<Rightarrow> json_exception + node \<times> json"
  and arrayLoop :: "nat \<Rightarrow> token \<Rightarrow> node list \<Rightarrow> json \<Rightarrow> json_exception + node list \<times> json"
  and parseObject :: "nat \<Rightarrow> json \<Rightarrow> json_exception + node \<times> json"
  and objectLoop :: "nat \<Rightarrow> token \<Rightarrow> (string \<times> node) list \<Rightarrow> json \<Rightarrow>
        json_exception + (string \<times> node) list \<times> json"
where
  "parseArray 0 j = Inl OutOfFuel"
| "parseArray (Suc n) j =
     (let j = j\<lparr>depth := depth j + 1\<rparr> in
      if depth j > max_depth j then Inl NestedTooDeep
      else bindR (nextToken j) (\<lambda>(token, j).
        bindR (if ttype token \<noteq> ARRAY_CLOSE then arrayLoop n token [] j else Inr ([], j))
          (\<lambda>(array, j). Inr (NArray array, j\<lparr>depth := depth j - 1\<rparr>))))"
| "arrayLoop 0 token array j = Inl OutOfFuel"
| "arrayLoop (Suc n) token array j =
     bindR (case ttype token of
              INTEGER \<Rightarrow> parseInteger (rollBack j)
            | STRING \<Rightarrow> parseString (rollBack j)
            | ARRAY_OPEN \<Rightarrow> parseArray n j
            | OBJECT_OPEN \<Rightarrow> parseObject n j
            | _ \<Rightarrow> Inl UnexpectedToken)
       (\<lambda>(value, j). bindR (nextToken j) (\<lambda>(token, j).
          if ttype token = ARRAY_CLOSE then Inr (array @ [value], j)
          else if ttype token = COMMA then
            bindR (nextToken j) (\<lambda>(token, j). arrayLoop n token (array @ [value]) j)
          else Inl ExpectedComma))"
| "parseObject 0 j = Inl OutOfFuel"
| "parseObject (Suc n) j =
     (let j = j\<lparr>depth := depth j + 1\<rparr> in
      if depth j > max_depth j then Inl NestedTooDeep
      else bindR (nextToken j) (\<lambda>(keyToken, j).
        bindR (if ttype keyToken \<noteq> OBJECT_CLOSE then objectLoop n keyToken [] j else Inr ([], j))
          (\<lambda>(object, j). Inr (NObject object, j\<lparr>depth := depth j - 1\<rparr>))))"
| "objectLoop 0 keyToken object j = Inl OutOfFuel"
| "objectLoop (Suc n) keyToken object j =
     (if ttype keyToken \<noteq> STRING then Inl ExpectedStringKey
      else let key = tstring keyToken in
      if contains object key then Inl DuplicateKey
      else bindR (nextToken j) (\<lambda>(colon, j).
        if ttype colon \<noteq> COLON then Inl ExpectedColon
        else bindR (nextToken j) (\<lambda>(valueToken, j).
          bindR (case ttype valueToken of
                   BOOLEAN_TRUE \<Rightarrow> parseBoolean (rollBack j)
                 | BOOLEAN_FALSE \<Rightarrow> parseBoolean (rollBack j)
                 | INTEGER \<Rightarrow> parseInteger (rollBack j)
                 | STRING \<Rightarrow> parseString (rollBack j)
                 | ARRAY_OPEN \<Rightarrow> parseArray n j
                 | OBJECT_OPEN \<Rightarrow> parseObject n j
                 | _ \<Rightarrow> Inl UnexpectedToken)
            (\<lambda>(value, j). bindR (nextToken j) (\<lambda>(token, j).
               if ttype token = OBJECT_CLOSE then Inr (emplace key value object, j)
               else if ttype token = COMMA then
                 bindR (nextToken j) (\<lambda>(keyToken, j).
                   objectLoop n keyToken (emplace key value object) j)
               else Inl ExpectedComma)))))"

text \<open>The constructor \<open>JSON::JSON\<close>; its result is the member \<open>root\<close>.\<close>

definition JSON :: "string \<Rightarrow> int \<Rightarrow> json_exception + node" where
  "JSON file max_depth' =
     bindR (nextToken \<lparr>jtok = mk_tokenizer file, max_depth = max_depth', depth = 0\<rparr>) (\<lambda>(token, j).
       if ttype token \<noteq> OBJECT_OPEN then Inl ExpectedObject
       else bindR (parseObject (2 * length file + 2) j) (\<lambda>(node, j). Inr node))"

section \<open>Reading a value again\<close>

text \<open>\<open>held token j\<close>: \<open>token\<close> is the token just read, and rolling back re-reads it.\<close>

definition held :: "token \<Rightarrow> json \<Rightarrow> bool" where
  "held token j \<longleftrightarrow> nextToken (rollBack j) = Inr (token, j)"

abbreviation remj :: "json \<Rightarrow> nat" where
  "remj j \<equiv> remaining (jtok j)"

text \<open>\<open>jstep j j'\<close>: only the tokenizer moved, and it moved forwards.\<close>

definition jstep :: "json \<Rightarrow> json \<Rightarrow> bool" where
  "jstep j j' \<longleftrightarrow> (\<exists>t. j' = j\<lparr>jtok := t\<rparr> \<and> remaining t < remj j)"

lemma jstep_trans: "jstep j k \<Longrightarrow> jstep k l \<Longrightarrow> jstep j l"
  by (auto simp: jstep_def)

lemma jstep_remj: "jstep j k \<Longrightarrow> remj k < remj j"
  by (auto simp: jstep_def)

lemma jstep_depth [simp]:
  "jstep (j\<lparr>depth := d\<rparr>) k \<Longrightarrow> jstep j (k\<lparr>depth := depth j\<rparr>)"
  "jstep (j\<lparr>depth := d\<rparr>) k \<Longrightarrow> depth k = d"
  by (auto simp: jstep_def)

lemma nextToken_Inr:
  assumes "nextToken j = Inr (token, k)"
  shows "jstep j k" and "held token k"
proof -
  from assms obtain t where t: "getToken (jtok j) = Inr (token, t)" "k = j\<lparr>jtok := t\<rparr>"
    by (auto simp: nextToken_def split: sum.splits prod.splits)
  show "jstep j k" using t getToken_remaining [OF t(1)] by (auto simp: jstep_def)
  show "held token k"
    using t rollBackToken_getToken [OF t(1)] by (simp add: held_def nextToken_def rollBack_def)
qed

lemma nextToken_not_fuel: "nextToken j \<noteq> Inl OutOfFuel"
  by (auto simp: nextToken_def split: sum.splits)

lemma held_parse:
  assumes "held token j"
  shows "parseBoolean (rollBack j) = Inr (NBoolean (ttype token = BOOLEAN_TRUE), j)"
    and "parseString (rollBack j) = Inr (NString (tstring token), j)"
    and "parseInteger (rollBack j) =
           (let (ok, integer) = parseNumber (tstring token) (- 1 :: 64 word)
            in if ok then Inr (NInteger integer, j) else Inl InvalidInteger)"
  using assms by (simp_all add: held_def parseBoolean_def parseString_def parseInteger_def)

section \<open>Progress and enough fuel\<close>

text \<open>The value read for a token, common to the two loops.\<close>

definition value_case :: "nat \<Rightarrow> bool \<Rightarrow> token \<Rightarrow> json \<Rightarrow> json_exception + node \<times> json" where
  "value_case n booleans token j =
     (case ttype token of
        BOOLEAN_TRUE \<Rightarrow> if booleans then parseBoolean (rollBack j) else Inl UnexpectedToken
      | BOOLEAN_FALSE \<Rightarrow> if booleans then parseBoolean (rollBack j) else Inl UnexpectedToken
      | INTEGER \<Rightarrow> parseInteger (rollBack j)
      | STRING \<Rightarrow> parseString (rollBack j)
      | ARRAY_OPEN \<Rightarrow> parseArray n j
      | OBJECT_OPEN \<Rightarrow> parseObject n j
      | _ \<Rightarrow> Inl UnexpectedToken)"

lemma arrayLoop_Suc:
  "arrayLoop (Suc n) token array j =
     bindR (value_case n False token j)
       (\<lambda>(value, j). bindR (nextToken j) (\<lambda>(token, j).
          if ttype token = ARRAY_CLOSE then Inr (array @ [value], j)
          else if ttype token = COMMA then
            bindR (nextToken j) (\<lambda>(token, j). arrayLoop n token (array @ [value]) j)
          else Inl ExpectedComma))"
  by (simp add: value_case_def split: token_type.split)

lemma objectLoop_Suc:
  "objectLoop (Suc n) keyToken object j =
     (if ttype keyToken \<noteq> STRING then Inl ExpectedStringKey
      else if contains object (tstring keyToken) then Inl DuplicateKey
      else bindR (nextToken j) (\<lambda>(colon, j).
        if ttype colon \<noteq> COLON then Inl ExpectedColon
        else bindR (nextToken j) (\<lambda>(valueToken, j).
          bindR (value_case n True valueToken j)
            (\<lambda>(value, j). bindR (nextToken j) (\<lambda>(token, j).
               if ttype token = OBJECT_CLOSE then Inr (emplace (tstring keyToken) value object, j)
               else if ttype token = COMMA then
                 bindR (nextToken j) (\<lambda>(keyToken', j).
                   objectLoop n keyToken' (emplace (tstring keyToken) value object) j)
               else Inl ExpectedComma)))))"
  by (simp add: value_case_def Let_def cong: token_type.case_cong if_cong)

declare arrayLoop.simps(2) [simp del] objectLoop.simps(2) [simp del]
  parseArray.simps(2) [simp del] parseObject.simps(2) [simp del]

lemma value_case_held:
  assumes "held token j" and "value_case n b token j = Inr (value, k)"
    and "\<And>v k. parseArray n j = Inr (v, k) \<Longrightarrow> jstep j k"
    and "\<And>v k. parseObject n j = Inr (v, k) \<Longrightarrow> jstep j k"
  shows "k = j \<or> jstep j k"
  using assms(2) held_parse [OF assms(1)]
  by (auto simp: value_case_def Let_def dest: assms(3,4)
      split: token_type.splits prod.splits if_splits)

text \<open>The four statements of progress at one amount of fuel.\<close>

definition progress :: "nat \<Rightarrow> bool" where
  "progress n \<longleftrightarrow>
     (\<forall>j v k. parseArray n j = Inr (v, k) \<longrightarrow> jstep j k) \<and>
     (\<forall>token xs j v k. held token j \<longrightarrow> arrayLoop n token xs j = Inr (v, k) \<longrightarrow> jstep j k) \<and>
     (\<forall>j v k. parseObject n j = Inr (v, k) \<longrightarrow> jstep j k) \<and>
     (\<forall>token m j v k. held token j \<longrightarrow> objectLoop n token m j = Inr (v, k) \<longrightarrow> jstep j k)"

lemma progress_value:
  "progress n \<Longrightarrow> held token j \<Longrightarrow> value_case n b token j = Inr (value, k) \<Longrightarrow> k = j \<or> jstep j k"
  by (rule value_case_held) (auto simp: progress_def)

lemma progress_next:
  assumes "progress n" and "nextToken j = Inr (token, k)"
  shows "arrayLoop n token xs k = Inr (v, l) \<Longrightarrow> jstep j l"
    and "objectLoop n token m k = Inr (w, l) \<Longrightarrow> jstep j l"
  using assms(1) nextToken_Inr [OF assms(2)] unfolding progress_def
  by (blast intro: jstep_trans)+

lemma progress_parseArray:
  assumes "progress n" and "parseArray (Suc n) j = Inr (v, k)"
  shows "jstep j k"
proof -
  let ?j = "j\<lparr>depth := depth j + 1\<rparr>"
  have deep: "\<not> depth ?j > max_depth ?j" using assms(2) by (auto simp: parseArray.simps)
  obtain token j1 xs j2 where
    t: "nextToken ?j = Inr (token, j1)"
    and l: "(if ttype token \<noteq> ARRAY_CLOSE then arrayLoop n token [] j1 else Inr ([], j1)) = Inr (xs, j2)"
    and k: "k = j2\<lparr>depth := depth j2 - 1\<rparr>"
    using assms(2) deep
    by (auto simp: parseArray.simps Let_def result_iff split del: if_split)
  note n = nextToken_Inr [OF t]
  from l n(2) assms(1) have "j2 = j1 \<or> jstep j1 j2"
    by (auto simp: progress_def split: if_splits)
  with n(1) have "jstep ?j j2" by (auto intro: jstep_trans)
  with k show ?thesis using jstep_depth [where j = j and d = "depth j + 1" and k = j2] by simp
qed

lemma progress_parseObject:
  assumes "progress n" and "parseObject (Suc n) j = Inr (v, k)"
  shows "jstep j k"
proof -
  let ?j = "j\<lparr>depth := depth j + 1\<rparr>"
  have deep: "\<not> depth ?j > max_depth ?j" using assms(2) by (auto simp: parseObject.simps)
  obtain token j1 m j2 where
    t: "nextToken ?j = Inr (token, j1)"
    and l: "(if ttype token \<noteq> OBJECT_CLOSE then objectLoop n token [] j1 else Inr ([], j1)) = Inr (m, j2)"
    and k: "k = j2\<lparr>depth := depth j2 - 1\<rparr>"
    using assms(2) deep
    by (auto simp: parseObject.simps Let_def result_iff split del: if_split)
  note n = nextToken_Inr [OF t]
  from l n(2) assms(1) have "j2 = j1 \<or> jstep j1 j2"
    by (auto simp: progress_def split: if_splits)
  with n(1) have "jstep ?j j2" by (auto intro: jstep_trans)
  with k show ?thesis using jstep_depth [where j = j and d = "depth j + 1" and k = j2] by simp
qed

lemma progress_arrayLoop:
  assumes "progress n" and "held token j" and "arrayLoop (Suc n) token xs j = Inr (v, k)"
  shows "jstep j k"
proof -
  from assms(3) obtain x j1 tok j2 where
    val: "value_case n False token j = Inr (x, j1)" and t: "nextToken j1 = Inr (tok, j2)"
    and r: "(if ttype tok = ARRAY_CLOSE then Inr (xs @ [x], j2)
        else if ttype tok = COMMA then
          bindR (nextToken j2) (\<lambda>(token, j). arrayLoop n token (xs @ [x]) j)
        else Inl ExpectedComma) = Inr (v, k)"
    by (auto simp: arrayLoop_Suc result_iff)
  have j2: "jstep j j2"
    using progress_value [OF assms(1,2) val] nextToken_Inr(1) [OF t] by (auto intro: jstep_trans)
  from r have "k = j2 \<or> jstep j2 k"
    by (auto simp: result_iff split: if_splits dest: progress_next [OF assms(1)])
  with j2 show ?thesis by (auto intro: jstep_trans)
qed

lemma progress_objectLoop:
  assumes "progress n" and "held token j" and "objectLoop (Suc n) token m j = Inr (v, k)"
  shows "jstep j k"
proof -
  let ?m = "\<lambda>x. emplace (tstring token) x m"
  from assms(3) obtain colon j0 vtok j1 x j2 tok j3 where
    c: "nextToken j = Inr (colon, j0)" and vt: "nextToken j0 = Inr (vtok, j1)"
    and val: "value_case n True vtok j1 = Inr (x, j2)" and t: "nextToken j2 = Inr (tok, j3)"
    and r: "(if ttype tok = OBJECT_CLOSE then Inr (?m x, j3)
        else if ttype tok = COMMA then bindR (nextToken j3) (\<lambda>(keyToken, j). objectLoop n keyToken (?m x) j)
        else Inl ExpectedComma) = Inr (v, k)"
    by (auto simp: objectLoop_Suc result_iff split: if_splits)
  have "jstep j j1"
    using nextToken_Inr(1) [OF c] nextToken_Inr(1) [OF vt] by (rule jstep_trans)
  moreover have "j2 = j1 \<or> jstep j1 j2"
    using progress_value [OF assms(1) nextToken_Inr(2) [OF vt] val] .
  ultimately have j3: "jstep j j3"
    using nextToken_Inr(1) [OF t] by (auto intro: jstep_trans)
  from r have "k = j3 \<or> jstep j3 k"
    by (auto simp: result_iff split: if_splits dest: progress_next [OF assms(1)])
  with j3 show ?thesis by (auto intro: jstep_trans)
qed

lemma progress: "progress n"
proof (induction n)
  case 0
  then show ?case by (simp add: progress_def)
next
  case (Suc n)
  then show ?case
    unfolding progress_def [of "Suc n"]
    by (blast intro: progress_parseArray progress_arrayLoop progress_parseObject progress_objectLoop)
qed

text \<open>Fuel: parsing from \<open>r\<close> remaining characters needs at most \<open>2 r + 2\<close> units.\<close>

definition enough :: "nat \<Rightarrow> bool" where
  "enough n \<longleftrightarrow>
     (\<forall>j. 2 * remj j + 2 \<le> n \<longrightarrow> parseArray n j \<noteq> Inl OutOfFuel) \<and>
     (\<forall>token xs j. held token j \<longrightarrow> 2 * remj j + 3 \<le> n \<longrightarrow> arrayLoop n token xs j \<noteq> Inl OutOfFuel) \<and>
     (\<forall>j. 2 * remj j + 2 \<le> n \<longrightarrow> parseObject n j \<noteq> Inl OutOfFuel) \<and>
     (\<forall>token m j. held token j \<longrightarrow> 2 * remj j + 3 \<le> n \<longrightarrow> objectLoop n token m j \<noteq> Inl OutOfFuel)"

lemma enough_value:
  assumes "enough n" and "held token j" and "2 * remj j + 2 \<le> n"
  shows "value_case n b token j \<noteq> Inl OutOfFuel"
  using assms(1,3) held_parse [OF assms(2)]
  by (auto simp: value_case_def enough_def Let_def split: token_type.splits prod.splits if_splits)

lemma enough_next:
  assumes "enough n" and "nextToken j = Inr (token, k)" and "2 * remj j + 1 \<le> n"
  shows "arrayLoop n token xs k \<noteq> Inl OutOfFuel" and "objectLoop n token m k \<noteq> Inl OutOfFuel"
  using assms(1,3) nextToken_Inr [OF assms(2)] jstep_remj [OF nextToken_Inr(1) [OF assms(2)]]
  unfolding enough_def by auto

lemma enough_after_value:
  assumes "held token j" and "value_case n b token j = Inr (v, k)"
  shows "remj k \<le> remj j"
  using progress_value [OF progress assms] by (auto dest: jstep_remj)

lemma enough: "enough n"
proof (induction n)
  case 0
  then show ?case by (simp add: enough_def)
next
  case (Suc n)
  have "parseArray (Suc n) j \<noteq> Inl OutOfFuel" if "2 * remj j + 2 \<le> Suc n" for j
    using that enough_next(1) [OF Suc.IH, of "j\<lparr>depth := depth j + 1\<rparr>"]
    by (auto simp: parseArray.simps Let_def bindR_Inl_iff nextToken_not_fuel split: if_splits)
  moreover have "parseObject (Suc n) j \<noteq> Inl OutOfFuel" if "2 * remj j + 2 \<le> Suc n" for j
    using that enough_next(2) [OF Suc.IH, of "j\<lparr>depth := depth j + 1\<rparr>"]
    by (auto simp: parseObject.simps Let_def bindR_Inl_iff nextToken_not_fuel split: if_splits)
  moreover have "arrayLoop (Suc n) token xs j \<noteq> Inl OutOfFuel"
    if h: "held token j" and r: "2 * remj j + 3 \<le> Suc n" for token xs j
  proof -
    have v: "value_case n False token j \<noteq> Inl OutOfFuel"
      using Suc.IH h r by (intro enough_value) auto
    have "arrayLoop n tok ys l \<noteq> Inl OutOfFuel"
      if "value_case n False token j = Inr (x, j1)" "nextToken j1 = Inr (t, k)" "nextToken k = Inr (tok, l)"
      for x j1 t k tok l ys
      using that enough_after_value [OF h that(1)] jstep_remj [OF nextToken_Inr(1) [OF that(2)]] r
      by (intro enough_next(1) [OF Suc.IH that(3)]) linarith
    with v show ?thesis
      by (auto simp: arrayLoop_Suc bindR_Inl_iff nextToken_not_fuel split: if_splits)
  qed
  moreover have "objectLoop (Suc n) token m j \<noteq> Inl OutOfFuel"
    if r: "2 * remj j + 3 \<le> Suc n" for token m j
  proof -
    have v: "value_case n True vt j1 \<noteq> Inl OutOfFuel"
      if "nextToken j = Inr (c, j0)" "nextToken j0 = Inr (vt, j1)" for c j0 vt j1
      using jstep_remj [OF nextToken_Inr(1) [OF that(1)]] jstep_remj [OF nextToken_Inr(1) [OF that(2)]] r
      by (intro enough_value [OF Suc.IH nextToken_Inr(2) [OF that(2)]]) linarith
    have "objectLoop n tok m' l \<noteq> Inl OutOfFuel"
      if "nextToken j = Inr (c, j0)" "nextToken j0 = Inr (vt, j1)" "value_case n True vt j1 = Inr (x, j2)"
        "nextToken j2 = Inr (t, k)" "nextToken k = Inr (tok, l)"
      for c j0 vt j1 x j2 t k tok l m'
      using jstep_remj [OF nextToken_Inr(1) [OF that(1)]] jstep_remj [OF nextToken_Inr(1) [OF that(2)]]
        enough_after_value [OF nextToken_Inr(2) [OF that(2)] that(3)]
        jstep_remj [OF nextToken_Inr(1) [OF that(4)]] r
      by (intro enough_next(2) [OF Suc.IH that(5)]) linarith
    with v show ?thesis
      by (auto simp: objectLoop_Suc bindR_Inl_iff nextToken_not_fuel split: if_splits)
  qed
  ultimately show ?case unfolding enough_def by blast
qed

text \<open>
  C10: the parser always returns: for every file and every depth limit, the constructor
  \<open>JSON\<close> ends with a node or with one of the source's exceptions; the fuel of the model is
  never exhausted.
\<close>

theorem JSON_terminates: "JSON file d \<noteq> Inl OutOfFuel"
proof -
  let ?j = "\<lparr>jtok = mk_tokenizer file, max_depth = d, depth = 0\<rparr>"
  have "parseObject (2 * length file + 2) k \<noteq> Inl OutOfFuel" if "nextToken ?j = Inr (token, k)" for token k
    using enough [of "2 * length file + 2"] jstep_remj [OF nextToken_Inr(1) [OF that]]
    by (auto simp: enough_def remaining_def mk_tokenizer_def)
  then show ?thesis
    by (auto simp: JSON_def bindR_Inl_iff nextToken_not_fuel split: if_splits)
qed

section \<open>Printing and parsing back\<close>

text \<open>
  The tokens of a value: its first token, then \<open>tail_tokens\<close>. A text is laid out from tokens when it
  has them in order with any whitespace, or none, in front of each.
\<close>

type_synonym tok = "token_type \<times> string"

fun first_token :: "node \<Rightarrow> tok" where
  "first_token (NBoolean b) = (if b then BOOLEAN_TRUE else BOOLEAN_FALSE, [])"
| "first_token (NInteger i) = (INTEGER, to_dec (unat i))"
| "first_token (NString s) = (STRING, s)"
| "first_token (NArray xs) = (ARRAY_OPEN, [])"
| "first_token (NObject m) = (OBJECT_OPEN, [])"

definition tok_of :: "tok \<Rightarrow> token" where
  "tok_of p = \<lparr>ttype = fst p, tstring = snd p\<rparr>"

definition text_of :: "tok \<Rightarrow> string" where
  "text_of p = token_text (fst p) (snd p)"

inductive laid_out :: "string \<Rightarrow> tok list \<Rightarrow> bool" where
  nothing: "laid_out [] []"
| token: "list_all isspace w \<Longrightarrow> laid_out t ps \<Longrightarrow> laid_out (w @ text_of p @ t) (p # ps)"

inductive_cases laid_out_NilE: "laid_out t []"
inductive_cases laid_out_ConsE: "laid_out t (p # ps)"

fun tail_tokens :: "node \<Rightarrow> tok list" where
  "tail_tokens (NArray []) = [(ARRAY_CLOSE, [])]"
| "tail_tokens (NArray (x # xs)) =
     first_token x # tail_tokens x @
     concat (map (\<lambda>y. (COMMA, []) # first_token y # tail_tokens y) xs) @ [(ARRAY_CLOSE, [])]"
| "tail_tokens (NObject []) = [(OBJECT_CLOSE, [])]"
| "tail_tokens (NObject ((k, v) # m)) =
     (STRING, k) # (COLON, []) # first_token v # tail_tokens v @
     concat (map (\<lambda>(k, v). (COMMA, []) # (STRING, k) # (COLON, []) # first_token v # tail_tokens v) m) @
     [(OBJECT_CLOSE, [])]"
| "tail_tokens v = []"

definition tokens :: "node \<Rightarrow> tok list" where
  "tokens v = first_token v # tail_tokens v"

definition array_rest :: "node list \<Rightarrow> tok list" where
  "array_rest xs = concat (map (\<lambda>y. (COMMA, []) # tokens y) xs) @ [(ARRAY_CLOSE, [])]"

definition entry_rest :: "node \<Rightarrow> tok list" where
  "entry_rest v = (COLON, []) # tokens v"

definition object_rest :: "(string \<times> node) list \<Rightarrow> tok list" where
  "object_rest m =
     concat (map (\<lambda>(k, v). (COMMA, []) # (STRING, k) # entry_rest v) m) @ [(OBJECT_CLOSE, [])]"

lemma tail_tokens_array: "tail_tokens (NArray (x # xs)) = tokens x @ array_rest xs"
  by (simp add: tokens_def array_rest_def)

lemma tail_tokens_object:
  "tail_tokens (NObject ((k, v) # m)) = (STRING, k) # entry_rest v @ object_rest m"
  by (simp add: tokens_def object_rest_def entry_rest_def)

declare tail_tokens.simps(2,4) [simp del]

text \<open>
  What the parser can return: strings without quotes, arrays without booleans (the parser
  refuses them there), objects with keys in increasing order.
\<close>

fun parsable :: "node \<Rightarrow> bool" where
  "parsable (NBoolean b) \<longleftrightarrow> True"
| "parsable (NInteger i) \<longleftrightarrow> True"
| "parsable (NString s) \<longleftrightarrow> CHR 0x22 \<notin> set s"
| "parsable (NArray xs) \<longleftrightarrow> (\<forall>x \<in> set xs. parsable x \<and> (\<forall>b. x \<noteq> NBoolean b))"
| "parsable (NObject m) \<longleftrightarrow> sorted_keys m \<and> (\<forall>(k, v) \<in> set m. CHR 0x22 \<notin> set k \<and> parsable v)"

fun nesting :: "node \<Rightarrow> nat" where
  "nesting (NArray xs) = Suc (fold max (map nesting xs) 0)"
| "nesting (NObject m) = Suc (fold max (map (\<lambda>(k, v). nesting v) m) 0)"
| "nesting v = 0"

lemma fold_max_ge: "x \<in> set xs \<Longrightarrow> x \<le> fold max xs (a::nat)" and fold_max_acc: "a \<le> fold max xs (a::nat)"
proof (induction xs arbitrary: a)
  case (Cons y ys)
  {
    case 1
    have "max y a \<le> fold max ys (max y a)" by (rule Cons.IH(2))
    with 1 Cons.IH(1) show ?case by auto
  next
    case 2
    have "max y a \<le> fold max ys (max y a)" by (rule Cons.IH(2))
    then show ?case by simp
  }
qed simp_all

lemma nesting_array: "x \<in> set xs \<Longrightarrow> nesting x < nesting (NArray xs)"
  using fold_max_ge [of "nesting x" "map nesting xs" 0] by simp

lemma nesting_object: "(k, v) \<in> set m \<Longrightarrow> nesting v < nesting (NObject m)"
  using fold_max_ge [of "nesting v" "map (\<lambda>(k, v). nesting v) m" 0] by force

section \<open>Reading back what was printed\<close>

text \<open>The parser is in front of the tokens \<open>r\<close>, in any layout, and then the text \<open>z\<close>.\<close>

definition okAt :: "string \<Rightarrow> json \<Rightarrow> tok list \<Rightarrow> bool" where
  "okAt z j r \<longleftrightarrow> \<not> eofbit (jtok j) \<and> (\<exists>t. laid_out t r \<and> rest (jtok j) = t @ z)"

definition same_depth :: "json \<Rightarrow> json \<Rightarrow> bool" where
  "same_depth j k \<longleftrightarrow> depth k = depth j \<and> max_depth k = max_depth j"

text \<open>\<open>yields z m v j r\<close>: unless its fuel ran out, \<open>m\<close> returned \<open>v\<close> and stopped before the tokens \<open>r\<close> and \<open>z\<close>.\<close>

definition yields :: "string \<Rightarrow> json_exception + 'a \<times> json \<Rightarrow> 'a \<Rightarrow> json \<Rightarrow> tok list \<Rightarrow> bool" where
  "yields z m v j r \<longleftrightarrow> m = Inl OutOfFuel \<or> (\<exists>k. m = Inr (v, k) \<and> okAt z k r \<and> same_depth j k)"

lemma yields_Inr [simp]: "yields z (Inr (v, k)) v' j r \<longleftrightarrow> v = v' \<and> okAt z k r \<and> same_depth j k"
  by (auto simp: yields_def)

lemma yields_bind:
  assumes "yields z m v j r"
    and "\<And>k. okAt z k r \<Longrightarrow> same_depth j k \<Longrightarrow> yields z (f (v, k)) v' j' r'"
  shows "yields z (bindR m f) v' j' r'"
proof (cases "m = Inl OutOfFuel")
  case False
  with assms(1) obtain k where "m = Inr (v, k)" "okAt z k r" "same_depth j k" by (auto simp: yields_def)
  with assms(2) show ?thesis by simp
qed (simp add: yields_def)

lemma yields_same: "yields z m v k r \<Longrightarrow> same_depth j k \<Longrightarrow> yields z m v j r"
  by (auto simp: yields_def same_depth_def)

text \<open>What follows a number never extends it: the next token is punctuation.\<close>

definition delimited :: "tok list \<Rightarrow> bool" where
  "delimited r \<longleftrightarrow> r \<noteq> [] \<and> fst (hd r) \<in> {COMMA, ARRAY_CLOSE, OBJECT_CLOSE}"

fun valid_next :: "tok \<Rightarrow> tok list \<Rightarrow> bool" where
  "valid_next (INTEGER, s) r \<longleftrightarrow> s \<noteq> [] \<and> list_all is_digit s \<and> delimited r"
| "valid_next (STRING, s) r \<longleftrightarrow> CHR 0x22 \<notin> set s"
| "valid_next (_, s) r \<longleftrightarrow> s = []"

lemma delimited_text:
  assumes "laid_out t r" "delimited r"
  shows "t \<noteq> [] \<and> \<not> is_digit (hd t)"
proof -
  obtain p ps where r: "r = p # ps" using assms(2) by (cases r) (auto simp: delimited_def)
  from assms(1) [unfolded r] obtain w t' where t: "t = w @ text_of p @ t'" "list_all isspace w"
    by (rule laid_out_ConsE)
  have "text_of p \<noteq> [] \<and> \<not> is_digit (hd (text_of p))"
    using assms(2) by (auto simp: r delimited_def text_of_def is_digit_def)
  with t show ?thesis by (cases w) (auto simp: isspace_def is_digit_def)
qed

lemma valid_next_text: "valid_next p r \<Longrightarrow> laid_out t r \<Longrightarrow> valid_token (fst p) (snd p) (t @ z)"
  using delimited_text [of t r] by (cases "(p, r)" rule: valid_next.cases) auto

lemma nextToken_text:
  assumes "okAt z j (p # r)" and "valid_next p r"
  shows "\<exists>k. nextToken j = Inr (tok_of p, k) \<and> okAt z k r \<and> same_depth j k \<and> held (tok_of p) k"
proof -
  from assms(1) obtain t where eof: "\<not> eofbit (jtok j)" and t: "laid_out t (p # r)" "rest (jtok j) = t @ z"
    by (auto simp: okAt_def)
  from t(1) obtain w t' where w: "t = w @ text_of p @ t'" "list_all isspace w" "laid_out t' r"
    by (rule laid_out_ConsE)
  let ?t = "jtok j"
  let ?u = "?t\<lparr>prevPos := gpos ?t, gpos := gpos ?t + length w + length (token_text (fst p) (snd p))\<rparr>"
  have g: "getToken ?t = Inr (tok_of p, ?u)"
    using eof t(2) w valid_next_text [OF assms(2) w(3), of z] getToken_reads [of ?t w "fst p" "snd p" "t' @ z"]
    by (simp add: text_of_def tok_of_def)
  then have n: "nextToken j = Inr (tok_of p, j\<lparr>jtok := ?u\<rparr>)" by (simp add: nextToken_def)
  have "rest ?u = t' @ z"
    using rest_advance [of "?t\<lparr>prevPos := gpos ?t\<rparr>" "w @ text_of p" "t' @ z"] t(2) w(1)
    by (simp add: text_of_def add.assoc)
  with n nextToken_Inr(2) [OF n] eof w(3) show ?thesis
    by (auto simp: okAt_def same_depth_def)
qed

lemma delimited_array_rest: "delimited (array_rest xs @ r)"
  by (cases xs) (simp_all add: array_rest_def delimited_def)

lemma delimited_object_rest: "delimited (object_rest m @ r)"
  by (cases m) (auto simp: object_rest_def delimited_def split: prod.split)

lemma valid_first_token:
  assumes "parsable v" and "delimited r"
  shows "valid_next (first_token v) (tail_tokens v @ r)"
  using assms by (cases v) (auto simp: to_dec_digits)

lemma nextToken_value:
  assumes "okAt z j (tokens v @ r)" and "parsable v" and "delimited r"
  shows "\<exists>k. nextToken j = Inr (tok_of (first_token v), k) \<and> okAt z k (tail_tokens v @ r) \<and>
           same_depth j k \<and> held (tok_of (first_token v)) k"
  using assms valid_first_token [OF assms(2,3)]
  by (intro nextToken_text) (auto simp: tokens_def)

text \<open>The four statements of reading back, at one amount of fuel.\<close>

definition fits :: "json \<Rightarrow> node \<Rightarrow> bool" where
  "fits j v \<longleftrightarrow> depth j + int (nesting v) \<le> max_depth j"

definition reads_array :: "string \<Rightarrow> nat \<Rightarrow> bool" where
  "reads_array z n \<longleftrightarrow> (\<forall>j xs r. okAt z j (tail_tokens (NArray xs) @ r) \<longrightarrow> parsable (NArray xs) \<longrightarrow>
     fits j (NArray xs) \<longrightarrow> yields z (parseArray n j) (NArray xs) j r)"

definition reads_object :: "string \<Rightarrow> nat \<Rightarrow> bool" where
  "reads_object z n \<longleftrightarrow> (\<forall>j m r. okAt z j (tail_tokens (NObject m) @ r) \<longrightarrow> parsable (NObject m) \<longrightarrow>
     fits j (NObject m) \<longrightarrow> yields z (parseObject n j) (NObject m) j r)"

definition reads_arrayLoop :: "string \<Rightarrow> nat \<Rightarrow> bool" where
  "reads_arrayLoop z n \<longleftrightarrow> (\<forall>j ys x xs r. okAt z j (tail_tokens x @ array_rest xs @ r) \<longrightarrow>
     held (tok_of (first_token x)) j \<longrightarrow> parsable (NArray (x # xs)) \<longrightarrow>
     (\<forall>y \<in> set (x # xs). fits j y) \<longrightarrow>
     yields z (arrayLoop n (tok_of (first_token x)) ys j) (ys @ x # xs) j r)"

definition reads_objectLoop :: "string \<Rightarrow> nat \<Rightarrow> bool" where
  "reads_objectLoop z n \<longleftrightarrow> (\<forall>j m' k v m r. okAt z j (entry_rest v @ object_rest m @ r) \<longrightarrow>
     sorted_keys (m' @ (k, v) # m) \<longrightarrow> parsable (NObject ((k, v) # m)) \<longrightarrow>
     (\<forall>(k, v) \<in> set ((k, v) # m). fits j v) \<longrightarrow>
     yields z (objectLoop n (tok_of (STRING, k)) m' j) (m' @ (k, v) # m) j r)"

lemma fits_same: "same_depth j k \<Longrightarrow> fits k v \<longleftrightarrow> fits j v"
  by (simp add: fits_def same_depth_def)

lemma reads_value:
  assumes "reads_array z n" and "reads_object z n"
    and "okAt z j (tail_tokens v @ r)" and "held (tok_of (first_token v)) j" and "parsable v" and "fits j v"
    and "b \<or> (\<forall>b. v \<noteq> NBoolean b)"
  shows "yields z (value_case n b (tok_of (first_token v)) j) v j r"
proof (cases v)
  case (NInteger i)
  have "unat i \<le> unat (- 1 :: 64 word)" using unat_lt_exp [of i] by (simp add: unat_minus_one)
  then have "parseNumber (to_dec (unat i)) (- 1) = (True, i)"
    by (simp add: parseNumber_to_dec unat_minus_one)
  with NInteger assms(3) show ?thesis
    using held_parse [OF assms(4)] by (simp add: value_case_def tok_of_def same_depth_def)
qed (use assms held_parse [OF assms(4)] in
      \<open>auto simp: value_case_def tok_of_def same_depth_def reads_array_def reads_object_def\<close>)

lemma reads_array_step:
  assumes "reads_arrayLoop z n"
  shows "reads_array z (Suc n)"
  unfolding reads_array_def
proof (intro allI impI)
  fix j xs r
  assume at: "okAt z j (tail_tokens (NArray xs) @ r)" and p: "parsable (NArray xs)" and f: "fits j (NArray xs)"
  let ?j = "j\<lparr>depth := depth j + 1\<rparr>"
  have at': "okAt z ?j (tail_tokens (NArray xs) @ r)" using at by (simp add: okAt_def)
  have d: "\<not> depth ?j > max_depth ?j" using f by (simp add: fits_def)
  have body: "yields z (bindR (nextToken ?j) (\<lambda>(token, j).
      if ttype token \<noteq> ARRAY_CLOSE then arrayLoop n token [] j else Inr ([], j))) xs ?j r"
  proof (cases xs)
    case Nil
    then obtain k where "nextToken ?j = Inr (tok_of (ARRAY_CLOSE, []), k)" "okAt z k r" "same_depth ?j k"
      using nextToken_text [of z ?j "(ARRAY_CLOSE, [])" r] at' by auto
    with Nil show ?thesis by (simp add: tok_of_def)
  next
    case (Cons x ys)
    have px: "parsable x" using p Cons by simp
    obtain k where k: "nextToken ?j = Inr (tok_of (first_token x), k)"
      "okAt z k (tail_tokens x @ array_rest ys @ r)" "same_depth ?j k" "held (tok_of (first_token x)) k"
      using nextToken_value [of z ?j x "array_rest ys @ r"] at' px Cons
        delimited_array_rest by (auto simp: tail_tokens_array)
    have "\<forall>y \<in> set (x # ys). fits k y"
      using f nesting_array [of _ xs] k(3) Cons by (force simp: fits_def same_depth_def)
    then have "yields z (arrayLoop n (tok_of (first_token x)) [] k) xs k r"
      using assms k(2,4) p Cons unfolding reads_arrayLoop_def by (metis append_Nil)
    moreover have "ttype (tok_of (first_token x)) \<noteq> ARRAY_CLOSE" by (cases x) (auto simp: tok_of_def)
    ultimately show ?thesis using k by (auto intro: yields_same)
  qed
  have "parseArray (Suc n) j = bindR (bindR (nextToken ?j) (\<lambda>(token, j).
      if ttype token \<noteq> ARRAY_CLOSE then arrayLoop n token [] j else Inr ([], j)))
      (\<lambda>(array, j). Inr (NArray array, j\<lparr>depth := depth j - 1\<rparr>))"
    using d by (simp add: parseArray.simps bindR_assoc split_def)
  also have "yields z \<dots> (NArray xs) j r"
    by (rule yields_bind [OF body]) (simp add: okAt_def same_depth_def)
  finally show "yields z (parseArray (Suc n) j) (NArray xs) j r" .
qed

lemma reads_object_step:
  assumes "reads_objectLoop z n"
  shows "reads_object z (Suc n)"
  unfolding reads_object_def
proof (intro allI impI)
  fix j m r
  assume at: "okAt z j (tail_tokens (NObject m) @ r)" and p: "parsable (NObject m)" and f: "fits j (NObject m)"
  let ?j = "j\<lparr>depth := depth j + 1\<rparr>"
  have at': "okAt z ?j (tail_tokens (NObject m) @ r)" using at by (simp add: okAt_def)
  have d: "\<not> depth ?j > max_depth ?j" using f by (simp add: fits_def)
  have body: "yields z (bindR (nextToken ?j) (\<lambda>(keyToken, j).
      if ttype keyToken \<noteq> OBJECT_CLOSE then objectLoop n keyToken [] j else Inr ([], j))) m ?j r"
  proof (cases m)
    case Nil
    then obtain k where "nextToken ?j = Inr (tok_of (OBJECT_CLOSE, []), k)" "okAt z k r" "same_depth ?j k"
      using nextToken_text [of z ?j "(OBJECT_CLOSE, [])" r] at' by auto
    with Nil show ?thesis by (simp add: tok_of_def)
  next
    case (Cons e m')
    obtain key v where e: "e = (key, v)" by (cases e)
    obtain k where k: "nextToken ?j = Inr (tok_of (STRING, key), k)"
      "okAt z k (entry_rest v @ object_rest m' @ r)" "same_depth ?j k"
      using nextToken_text [of z ?j "(STRING, key)" "entry_rest v @ object_rest m' @ r"]
        at' p Cons e by (auto simp: tail_tokens_object)
    have "\<forall>(k', v') \<in> set ((key, v) # m'). fits k v'"
      using f nesting_object [of _ _ m] k(3) Cons e by (force simp: fits_def same_depth_def)
    then have "yields z (objectLoop n (tok_of (STRING, key)) [] k) m k r"
      using assms k(2) p Cons e unfolding reads_objectLoop_def
      by (metis append_Nil parsable.simps(5))
    then show ?thesis using k by (auto simp: tok_of_def intro: yields_same)
  qed
  have "parseObject (Suc n) j = bindR (bindR (nextToken ?j) (\<lambda>(keyToken, j).
      if ttype keyToken \<noteq> OBJECT_CLOSE then objectLoop n keyToken [] j else Inr ([], j)))
      (\<lambda>(object, j). Inr (NObject object, j\<lparr>depth := depth j - 1\<rparr>))"
    using d by (simp add: parseObject.simps bindR_assoc split_def)
  also have "yields z \<dots> (NObject m) j r"
    by (rule yields_bind [OF body]) (simp add: okAt_def same_depth_def)
  finally show "yields z (parseObject (Suc n) j) (NObject m) j r" .
qed

lemma reads_arrayLoop_step:
  assumes "reads_array z n" "reads_object z n" and loop: "reads_arrayLoop z n"
  shows "reads_arrayLoop z (Suc n)"
  unfolding reads_arrayLoop_def
proof (intro allI impI)
  fix j ys x xs r
  assume at: "okAt z j (tail_tokens x @ array_rest xs @ r)" and h: "held (tok_of (first_token x)) j"
    and p: "parsable (NArray (x # xs))" and f: "\<forall>y \<in> set (x # xs). fits j y"
  have val: "yields z (value_case n False (tok_of (first_token x)) j) x j (array_rest xs @ r)"
    using assms(1,2) at h p f by (intro reads_value) auto
  show "yields z (arrayLoop (Suc n) (tok_of (first_token x)) ys j) (ys @ x # xs) j r"
    unfolding arrayLoop_Suc
  proof (rule yields_bind [OF val], simp only: prod.case)
    fix k
    assume k: "okAt z k (array_rest xs @ r)" "same_depth j k"
    show "yields z (bindR (nextToken k) (\<lambda>(token, j).
          if ttype token = ARRAY_CLOSE then Inr (ys @ [x], j)
          else if ttype token = COMMA then
            bindR (nextToken j) (\<lambda>(token, j). arrayLoop n token (ys @ [x]) j)
          else Inl ExpectedComma)) (ys @ x # xs) j r"
    proof (cases xs)
      case Nil
      then obtain l where "nextToken k = Inr (tok_of (ARRAY_CLOSE, []), l)" "okAt z l r" "same_depth k l"
        using nextToken_text [of z k "(ARRAY_CLOSE, [])" r] k(1) by (auto simp: array_rest_def)
      with Nil k(2) show ?thesis by (simp add: tok_of_def same_depth_def)
    next
      case (Cons y zs)
      obtain l where l: "nextToken k = Inr (tok_of (COMMA, []), l)"
        "okAt z l (tokens y @ array_rest zs @ r)" "same_depth k l"
        using nextToken_text [of z k "(COMMA, [])" "tokens y @ array_rest zs @ r"] k(1) Cons
        by (auto simp: array_rest_def)
      obtain o' where o': "nextToken l = Inr (tok_of (first_token y), o')"
        "okAt z o' (tail_tokens y @ array_rest zs @ r)" "same_depth l o'" "held (tok_of (first_token y)) o'"
        using nextToken_value [of z l y "array_rest zs @ r"] l(2) p Cons delimited_array_rest by auto
      have same: "same_depth j o'" using k(2) l(3) o'(3) by (simp add: same_depth_def)
      have "yields z (arrayLoop n (tok_of (first_token y)) (ys @ [x]) o') ((ys @ [x]) @ y # zs) o' r"
        by (rule loop [unfolded reads_arrayLoop_def, rule_format, of o' y zs r "ys @ [x]"])
          (use o'(2,4) p f Cons fits_same [OF same] in auto)
      then have "yields z (arrayLoop n (tok_of (first_token y)) (ys @ [x]) o') (ys @ x # xs) j r"
        using Cons same yields_same by fastforce
      then show ?thesis using l(1) o'(1) by (simp add: tok_of_def)
    qed
  qed
qed

lemma reads_objectLoop_step:
  assumes "reads_array z n" "reads_object z n" and loop: "reads_objectLoop z n"
  shows "reads_objectLoop z (Suc n)"
  unfolding reads_objectLoop_def
proof (intro allI impI)
  fix j m' key v m r
  assume at: "okAt z j (entry_rest v @ object_rest m @ r)" and srt: "sorted_keys (m' @ (key, v) # m)"
    and p: "parsable (NObject ((key, v) # m))" and f: "\<forall>(k, v) \<in> set ((key, v) # m). fits j v"
  have lt: "\<forall>k' \<in> set (map fst m'). k' < key" using srt by (auto simp: sorted_wrt_append)
  then have em: "emplace key v m' = m' @ [(key, v)]" by (rule emplace_greatest)
  have nc: "\<not> contains m' key" using lt by (auto simp: contains_iff)
  obtain j0 where j0: "nextToken j = Inr (tok_of (COLON, []), j0)"
    "okAt z j0 (tokens v @ object_rest m @ r)" "same_depth j j0"
    using nextToken_text [of z j "(COLON, [])" "tokens v @ object_rest m @ r"] at
    by (auto simp: entry_rest_def)
  obtain j1 where j1: "nextToken j0 = Inr (tok_of (first_token v), j1)"
    "okAt z j1 (tail_tokens v @ object_rest m @ r)" "same_depth j0 j1" "held (tok_of (first_token v)) j1"
    using nextToken_value [of z j0 v "object_rest m @ r"] j0(2) p delimited_object_rest by auto
  have same1: "same_depth j j1" using j0(3) j1(3) by (simp add: same_depth_def)
  have val: "yields z (value_case n True (tok_of (first_token v)) j1) v j1 (object_rest m @ r)"
    using assms(1,2) j1(2,4) p f fits_same [OF same1] by (intro reads_value) auto
  have tail: "yields z (bindR (nextToken k) (\<lambda>(token, j).
          if ttype token = OBJECT_CLOSE then Inr (m' @ [(key, v)], j)
          else if ttype token = COMMA then
            bindR (nextToken j) (\<lambda>(keyToken', j). objectLoop n keyToken' (m' @ [(key, v)]) j)
          else Inl ExpectedComma)) (m' @ (key, v) # m) j r"
    if k: "okAt z k (object_rest m @ r)" "same_depth j1 k" for k
  proof (cases m)
    case Nil
    then obtain l where "nextToken k = Inr (tok_of (OBJECT_CLOSE, []), l)" "okAt z l r" "same_depth k l"
      using nextToken_text [of z k "(OBJECT_CLOSE, [])" r] k(1) by (auto simp: object_rest_def)
    with Nil k(2) same1 show ?thesis by (simp add: tok_of_def same_depth_def)
  next
    case (Cons e zs)
    obtain key' v' where e: "e = (key', v')" by (cases e)
    let ?r = "entry_rest v' @ object_rest zs @ r"
    obtain l where l: "nextToken k = Inr (tok_of (COMMA, []), l)"
      "okAt z l ((STRING, key') # ?r)" "same_depth k l"
      using nextToken_text [of z k "(COMMA, [])" "(STRING, key') # ?r"] k(1) Cons e
      by (auto simp: object_rest_def)
    obtain q where q: "nextToken l = Inr (tok_of (STRING, key'), q)" "okAt z q ?r" "same_depth l q"
      using nextToken_text [of z l "(STRING, key')" ?r] l(2) p Cons e by auto
    have same: "same_depth j q" using same1 k(2) l(3) q(3) by (simp add: same_depth_def)
    have "yields z (objectLoop n (tok_of (STRING, key')) (m' @ [(key, v)]) q)
        ((m' @ [(key, v)]) @ (key', v') # zs) q r"
      using q(2) srt p f Cons e fits_same [OF same]
      by (intro loop [unfolded reads_objectLoop_def, THEN spec, THEN spec, THEN spec, THEN spec,
            THEN spec, THEN spec, THEN mp, THEN mp, THEN mp, THEN mp]) auto
    then have "yields z (objectLoop n (tok_of (STRING, key')) (m' @ [(key, v)]) q) (m' @ (key, v) # m) j r"
      using Cons e same yields_same by fastforce
    then show ?thesis using l(1) q(1) by (simp add: tok_of_def)
  qed
  have unfold: "objectLoop (Suc n) (tok_of (STRING, key)) m' j =
      bindR (value_case n True (tok_of (first_token v)) j1)
        (\<lambda>(value, k). bindR (nextToken k) (\<lambda>(token, j).
          if ttype token = OBJECT_CLOSE then Inr (emplace key value m', j)
          else if ttype token = COMMA then
            bindR (nextToken j) (\<lambda>(keyToken', j). objectLoop n keyToken' (emplace key value m') j)
          else Inl ExpectedComma))"
    using nc j0(1) j1(1) by (simp add: objectLoop_Suc tok_of_def cong: if_cong)
  show "yields z (objectLoop (Suc n) (tok_of (STRING, key)) m' j) (m' @ (key, v) # m) j r"
    unfolding unfold by (rule yields_bind [OF val]) (simp only: prod.case em tail)
qed

lemma reads_all:
  "reads_array z n \<and> reads_object z n \<and> reads_arrayLoop z n \<and> reads_objectLoop z n"
proof (induction n)
  case 0
  then show ?case
    by (auto simp: reads_array_def reads_object_def reads_arrayLoop_def reads_objectLoop_def yields_def)
next
  case (Suc n)
  then show ?case
    using reads_array_step reads_object_step reads_arrayLoop_step reads_objectLoop_step by blast
qed

text \<open>
  C9: parsing inverts printing, in any layout. A file that has the tokens of an object in order, with
  any whitespace or none in front of each, and anything behind the object, is parsed to exactly that
  object, if its keys are in increasing order, its keys and strings hold no quote, its arrays hold
  no booleans and it is not nested deeper than the limit.
\<close>

theorem JSON_render:
  assumes "laid_out t (tokens (NObject m))" and "parsable (NObject m)" and "int (nesting (NObject m)) \<le> d"
  shows "JSON (t @ z) d = Inr (NObject m)"
proof -
  let ?f = "t @ z"
  let ?j = "\<lparr>jtok = mk_tokenizer ?f, max_depth = d, depth = 0\<rparr>"
  have "okAt z ?j ((OBJECT_OPEN, []) # tail_tokens (NObject m))"
    using assms(1) by (auto simp: okAt_def rest_def mk_tokenizer_def tokens_def)
  then obtain k where k: "nextToken ?j = Inr (tok_of (OBJECT_OPEN, []), k)"
    "okAt z k (tail_tokens (NObject m))" "same_depth ?j k"
    using nextToken_text [of z ?j "(OBJECT_OPEN, [])"] by auto
  have "yields z (parseObject (2 * length ?f + 2) k) (NObject m) k []"
    using reads_all k assms(2,3) unfolding reads_object_def
    by (metis (no_types, lifting) append_Nil2 fits_def same_depth_def add.left_neutral json.select_convs(2,3))
  moreover have "parseObject (2 * length ?f + 2) k \<noteq> Inl OutOfFuel"
    using enough [of "2 * length ?f + 2"] jstep_remj [OF nextToken_Inr(1) [OF k(1)]]
    by (auto simp: enough_def remaining_def mk_tokenizer_def)
  ultimately show ?thesis using k(1) by (auto simp: JSON_def yields_def tok_of_def)
qed

theorem JSON_render_witness:
  "JSON ('' {  '' @ text_of (STRING, ''a'') @ '':[420 ,{ } ] ,'' @ text_of (STRING, ''b'') @ '': true}'' @ ''x'') 5
     = Inr (NObject [(''a'', NArray [NInteger 420, NObject []]), (''b'', NBoolean True)])"
proof -
  have 420: "to_dec 420 = ''420''" by code_simp
  have "laid_out ('' '' @ text_of (OBJECT_OPEN, []) @ ''  '' @ text_of (STRING, ''a'') @ [] @ text_of (COLON, []) @
      [] @ text_of (ARRAY_OPEN, []) @ [] @ text_of (INTEGER, ''420'') @ '' '' @ text_of (COMMA, []) @
      [] @ text_of (OBJECT_OPEN, []) @ '' '' @ text_of (OBJECT_CLOSE, []) @ '' '' @ text_of (ARRAY_CLOSE, []) @
      '' '' @ text_of (COMMA, []) @ [] @ text_of (STRING, ''b'') @ [] @ text_of (COLON, []) @
      '' '' @ text_of (BOOLEAN_TRUE, []) @ [] @ text_of (OBJECT_CLOSE, []) @ [])
    [(OBJECT_OPEN, []), (STRING, ''a''), (COLON, []), (ARRAY_OPEN, []), (INTEGER, ''420''), (COMMA, []),
     (OBJECT_OPEN, []), (OBJECT_CLOSE, []), (ARRAY_CLOSE, []), (COMMA, []), (STRING, ''b''), (COLON, []),
     (BOOLEAN_TRUE, []), (OBJECT_CLOSE, [])]"
    by (intro laid_out.intros) (simp_all add: isspace_def)
  then have "laid_out ('' {  '' @ text_of (STRING, ''a'') @ '':[420 ,{ } ] ,'' @ text_of (STRING, ''b'') @ '': true}'')
      (tokens (NObject [(''a'', NArray [NInteger 420, NObject []]), (''b'', NBoolean True)]))"
    by (simp add: tokens_def tail_tokens.simps(2,4) 420 text_of_def)
  from JSON_render [OF this, of 5 "''x''"] show ?thesis by simp
qed

end
