(* ===== verification/Js.thy ===== *)
theory Js
  imports Prelude "HOL-Library.Signed_Division"
begin

text \<open>
  What the scripts of the bundled page, \<open>src/webserv_correction_files/script.js\<close>, use of
  JavaScript: integral numbers with \<open>NaN\<close> and \<open>undefined\<close>, the 32-bit bitwise operators, byte
  arrays whose elements read as \<open>undefined\<close> outside the array and ignore writes there, strings
  as sequences of 16-bit code units, and exceptions as values. Numbers are exact integers; the
  code modelled with them stays within the \<open>2 ^ 53\<close> that a double represents exactly.
\<close>

unbundle bit_operations_syntax

section \<open>Values\<close>

datatype js_error = RangeError | TypeError | PlainError

datatype jsnum = Undef | NaN | Num int

type_synonym byte = "8 word"
type_synonym buffer = "byte list"
type_synonym code_unit = "16 word"
type_synonym js_string = "code_unit list"

text \<open>A string literal of the source.\<close>

definition lit :: "string \<Rightarrow> js_string" where
  "lit s = map (\<lambda>c. word_of_nat (code_of c)) s"

section \<open>Arithmetic\<close>

fun jadd :: "jsnum \<Rightarrow> jsnum \<Rightarrow> jsnum" where
  "jadd (Num a) (Num b) = Num (a + b)"
| "jadd _ _ = NaN"

fun jsub :: "jsnum \<Rightarrow> jsnum \<Rightarrow> jsnum" where
  "jsub (Num a) (Num b) = Num (a - b)"
| "jsub _ _ = NaN"

fun jmul :: "jsnum \<Rightarrow> jsnum \<Rightarrow> jsnum" where
  "jmul (Num a) (Num b) = Num (a * b)"
| "jmul _ _ = NaN"

text \<open>Comparisons with \<open>NaN\<close> or \<open>undefined\<close> are false.\<close>

fun jge :: "jsnum \<Rightarrow> jsnum \<Rightarrow> bool" where
  "jge (Num a) (Num b) \<longleftrightarrow> a \<ge> b"
| "jge _ _ \<longleftrightarrow> False"

section \<open>Bitwise operators\<close>

text \<open>\<open>ToInt32\<close>, which maps what is not a number to 0.\<close>

fun toInt32 :: "jsnum \<Rightarrow> 32 word" where
  "toInt32 (Num a) = word_of_int a"
| "toInt32 _ = 0"

definition jor :: "jsnum \<Rightarrow> jsnum \<Rightarrow> jsnum" where
  "jor a b = Num (sint (toInt32 a OR toInt32 b))"

definition jand :: "jsnum \<Rightarrow> jsnum \<Rightarrow> jsnum" where
  "jand a b = Num (sint (toInt32 a AND toInt32 b))"

definition jshl :: "jsnum \<Rightarrow> nat \<Rightarrow> jsnum" where
  "jshl a n = Num (sint (push_bit n (toInt32 a)))"

text \<open>The signed shift \<open>>>\<close> and the unsigned one \<open>>>>\<close>.\<close>

definition jshr :: "jsnum \<Rightarrow> nat \<Rightarrow> jsnum" where
  "jshr a n = Num (sint (signed_drop_bit n (toInt32 a)))"

definition jushr :: "jsnum \<Rightarrow> nat \<Rightarrow> jsnum" where
  "jushr a n = Num (uint (drop_bit n (toInt32 a)))"

text \<open>\<open>x | 0\<close> on an integer.\<close>

definition int32 :: "int \<Rightarrow> int" where
  "int32 x = sint (word_of_int x :: 32 word)"

lemma int32_id: "- 0x80000000 \<le> x \<Longrightarrow> x < 0x80000000 \<Longrightarrow> int32 x = x"
  by (simp add: int32_def int_word_sint)

text \<open>On small non-negative integers the operators are the arithmetic ones.\<close>

lemma sint_small: "0 \<le> a \<Longrightarrow> a < 2 ^ 31 \<Longrightarrow> sint (word_of_int a :: 32 word) = a"
  by (simp add: int_word_sint)

lemma or_less_exp:
  fixes a b :: int
  assumes "0 \<le> a" "a < 2 ^ n" "0 \<le> b" "b < 2 ^ n"
  shows "0 \<le> a OR b" and "a OR b < 2 ^ n"
proof -
  show "0 \<le> a OR b" using assms by simp
  have "take_bit n (a OR b) = a OR b" using assms by (simp add: take_bit_int_eq_self)
  then show "a OR b < 2 ^ n" using take_bit_int_less_exp [of n "a OR b"] by simp
qed

lemma jor_small:
  assumes "0 \<le> a" "a < 2 ^ 31" "0 \<le> b" "b < 2 ^ 31"
  shows "jor (Num a) (Num b) = Num (a OR b)"
  using sint_small [OF or_less_exp [OF assms]] by (simp add: jor_def of_int_or_eq [symmetric] del: of_int_or_eq)

lemma jand_small:
  assumes "0 \<le> a" "0 \<le> b" "b < 2 ^ 31"
  shows "jand (Num a) (Num b) = Num (a AND b)"
proof -
  have "a AND b \<le> b" using assms by simp
  then have "sint (word_of_int (a AND b) :: 32 word) = a AND b" using assms by (intro sint_small) auto
  then show ?thesis by (simp add: jand_def of_int_and_eq [symmetric] del: of_int_and_eq)
qed

lemma jand_mask:
  assumes "0 \<le> a" "n < 32"
  shows "jand (Num a) (Num (2 ^ n - 1)) = Num (a mod 2 ^ n)"
proof -
  have "(2::int) ^ n \<le> 2 ^ 31" using assms(2) by (intro power_increasing) simp_all
  then have "(2::int) ^ n - 1 < 2 ^ 31" by simp
  moreover have "a AND (2 ^ n - 1) = a mod 2 ^ n"
    by (metis mask_eq_exp_minus_1 take_bit_eq_mask take_bit_eq_mod)
  ultimately show ?thesis using jand_small [of a "2 ^ n - 1"] assms by simp
qed

lemma jshl_small:
  assumes "0 \<le> a" "a * 2 ^ n < 2 ^ 31"
  shows "jshl (Num a) n = Num (a * 2 ^ n)"
  using sint_small [of "a * 2 ^ n"] assms
  by (simp add: jshl_def push_bit_eq_mult)

lemma jshr_small:
  assumes "0 \<le> a" "a < 2 ^ 31"
  shows "jshr (Num a) n = Num (a div 2 ^ n)"
  using sint_small [OF assms]
  by (simp add: jshr_def sint_signed_drop_bit_eq drop_bit_eq_div)

lemma or_disjoint:
  fixes a b :: int
  assumes "0 \<le> b" "b < 2 ^ n"
  shows "a * 2 ^ n OR b = a * 2 ^ n + b"
proof -
  have "push_bit n a OR b = push_bit n a + b"
  proof (rule disjunctive_add [symmetric])
    fix m
    have "take_bit n b = b" using assms by (simp add: take_bit_int_eq_self)
    then have "bit b m \<longrightarrow> m < n" by (metis bit_take_bit_iff)
    then show "\<not> bit (push_bit n a) m \<or> \<not> bit b m" by (auto simp: bit_push_bit_iff)
  qed
  then show ?thesis by (simp add: push_bit_eq_mult)
qed

lemma jor_disjoint:
  assumes "0 \<le> a" "0 \<le> b" "b < 2 ^ n" "a * 2 ^ n + b < 2 ^ 31"
  shows "jor (Num (a * 2 ^ n)) (Num b) = Num (a * 2 ^ n + b)"
proof -
  have "0 \<le> a * 2 ^ n" using assms(1) by simp
  with assms have "jor (Num (a * 2 ^ n)) (Num b) = Num (a * 2 ^ n OR b)" by (intro jor_small) linarith+
  with or_disjoint [of b n a] assms show ?thesis by simp
qed

section \<open>Byte arrays\<close>

definition at :: "buffer \<Rightarrow> int \<Rightarrow> jsnum" where
  "at b i = (if 0 \<le> i \<and> i < int (length b) then Num (uint (b ! nat i)) else Undef)"

text \<open>\<open>ToUint8\<close> and the store into a \<open>Uint8Array\<close>.\<close>

fun toUint8 :: "jsnum \<Rightarrow> byte" where
  "toUint8 (Num a) = word_of_int a"
| "toUint8 _ = 0"

definition put :: "buffer \<Rightarrow> int \<Rightarrow> jsnum \<Rightarrow> buffer" where
  "put b i v = (if 0 \<le> i \<and> i < int (length b) then b[nat i := toUint8 v] else b)"

lemma length_put [simp]: "length (put b i v) = length b"
  by (simp add: put_def)

lemma put_put_swap: "i \<noteq> j \<Longrightarrow> put (put b i v) j w = put (put b j w) i v"
  by (auto simp: put_def list_update_swap)

lemma at_put: "at (put b i v) j = (if i = j \<and> 0 \<le> i \<and> i < int (length b) then Num (uint (toUint8 v)) else at b j)"
  by (auto simp: at_def put_def nth_list_update)

lemma at_nat: "i < length b \<Longrightarrow> at b (int i) = Num (uint (b ! i))"
  by (simp add: at_def)

lemma at_nonneg: "0 \<le> i \<Longrightarrow> i < int (length b) \<Longrightarrow> at b i = Num (uint (b ! nat i))"
  by (simp add: at_def)

end
