(* ===== verification/Buffer_Num.thy ===== *)
theory Buffer_Num
  imports Js
begin

text \<open>
  The integer accessors of the browser \<open>Buffer\<close>, \<open>script.js\<close> module 364: \<open>readUIntLE\<close> to
  \<open>readInt32BE\<close> and \<open>writeUIntLE\<close> to \<open>writeInt32BE\<close>, with the bounds checks they make unless
  \<open>noAssert\<close> is set. A buffer is its list of bytes; a write returns the new buffer and the
  method's result, or the exception. The parameter \<open>ta\<close> is \<open>Buffer.TYPED_ARRAY_SUPPORT\<close>. The
  arguments are integers, and byte lengths are those the interface documents (1 to 6). The
  lemmas show that each writer stores exactly the little- or big-endian bytes of the value,
  that each reader inverts the writer of its name, and that the checks keep every access
  inside the buffer.
\<close>

section \<open>Checks\<close>

definition checkOffset :: "int \<Rightarrow> int \<Rightarrow> int \<Rightarrow> js_error + unit" where
  "checkOffset offset ext len =
     (if offset < 0 then Inl RangeError
      else if offset + ext > len then Inl RangeError
      else Inr ())"

definition checkInt :: "buffer \<Rightarrow> int \<Rightarrow> int \<Rightarrow> int \<Rightarrow> int \<Rightarrow> int \<Rightarrow> js_error + unit" where
  "checkInt buf value offset ext max' min' =
     (if value > max' \<or> value < min' then Inl RangeError
      else if offset + ext > int (length buf) then Inl RangeError
      else Inr ())"

abbreviation unless :: "bool \<Rightarrow> js_error + unit \<Rightarrow> (unit \<Rightarrow> js_error + 'a) \<Rightarrow> js_error + 'a" where
  "unless noAssert check k \<equiv> bindR (if noAssert then Inr () else check) k"

abbreviation pow2 :: "int \<Rightarrow> int" where
  "pow2 n \<equiv> 2 ^ nat n"

section \<open>Readers\<close>

text \<open>The loops of the readers of a given byte length; they return \<open>mul\<close> and \<open>val\<close>.\<close>

function readLE_loop :: "buffer \<Rightarrow> int \<Rightarrow> int \<Rightarrow> int \<Rightarrow> int \<Rightarrow> jsnum \<Rightarrow> int \<times> jsnum" where
  "readLE_loop this offset byteLength i mul val =
     (if i + 1 < byteLength
      then readLE_loop this offset byteLength (i + 1) (mul * 0x100)
             (jadd val (jmul (at this (offset + (i + 1))) (Num (mul * 0x100))))
      else (mul, val))"
  by pat_completeness auto
termination by (relation "measure (\<lambda>(this, offset, byteLength, i, mul, val). nat (byteLength - i))") auto

function readBE_loop :: "buffer \<Rightarrow> int \<Rightarrow> int \<Rightarrow> int \<Rightarrow> jsnum \<Rightarrow> int \<times> jsnum" where
  "readBE_loop this offset byteLength mul val =
     (if byteLength > 0
      then readBE_loop this offset (byteLength - 1) (mul * 0x100)
             (jadd val (jmul (at this (offset + (byteLength - 1))) (Num (mul * 0x100))))
      else (mul, val))"
  by pat_completeness auto
termination by (relation "measure (\<lambda>(this, offset, byteLength, mul, val). nat byteLength)") auto

declare readLE_loop.simps [simp del] readBE_loop.simps [simp del]

definition readUIntLE :: "int \<Rightarrow> int \<Rightarrow> bool \<Rightarrow> buffer \<Rightarrow> js_error + jsnum" where
  "readUIntLE offset byteLength noAssert this =
     (let offset = int32 offset; byteLength = int32 byteLength in
      unless noAssert (checkOffset offset byteLength (int (length this))) (\<lambda>_.
        Inr (snd (readLE_loop this offset byteLength 0 1 (at this offset)))))"

definition readUIntBE :: "int \<Rightarrow> int \<Rightarrow> bool \<Rightarrow> buffer \<Rightarrow> js_error + jsnum" where
  "readUIntBE offset byteLength noAssert this =
     (let offset = int32 offset; byteLength = int32 byteLength in
      unless noAssert (checkOffset offset byteLength (int (length this))) (\<lambda>_.
        let byteLength = byteLength - 1 in
        Inr (snd (readBE_loop this offset byteLength 1 (at this (offset + byteLength))))))"

definition readUInt8 :: "int \<Rightarrow> bool \<Rightarrow> buffer \<Rightarrow> js_error + jsnum" where
  "readUInt8 offset noAssert this =
     unless noAssert (checkOffset offset 1 (int (length this))) (\<lambda>_. Inr (at this offset))"

definition readUInt16LE :: "int \<Rightarrow> bool \<Rightarrow> buffer \<Rightarrow> js_error + jsnum" where
  "readUInt16LE offset noAssert this =
     unless noAssert (checkOffset offset 2 (int (length this))) (\<lambda>_.
       Inr (jor (at this offset) (jshl (at this (offset + 1)) 8)))"

definition readUInt16BE :: "int \<Rightarrow> bool \<Rightarrow> buffer \<Rightarrow> js_error + jsnum" where
  "readUInt16BE offset noAssert this =
     unless noAssert (checkOffset offset 2 (int (length this))) (\<lambda>_.
       Inr (jor (jshl (at this offset) 8) (at this (offset + 1))))"

definition readUInt32LE :: "int \<Rightarrow> bool \<Rightarrow> buffer \<Rightarrow> js_error + jsnum" where
  "readUInt32LE offset noAssert this =
     unless noAssert (checkOffset offset 4 (int (length this))) (\<lambda>_.
       Inr (jadd (jor (jor (at this offset) (jshl (at this (offset + 1)) 8)) (jshl (at this (offset + 2)) 16))
              (jmul (at this (offset + 3)) (Num 0x1000000))))"

definition readUInt32BE :: "int \<Rightarrow> bool \<Rightarrow> buffer \<Rightarrow> js_error + jsnum" where
  "readUInt32BE offset noAssert this =
     unless noAssert (checkOffset offset 4 (int (length this))) (\<lambda>_.
       Inr (jadd (jmul (at this offset) (Num 0x1000000))
              (jor (jor (jshl (at this (offset + 1)) 16) (jshl (at this (offset + 2)) 8)) (at this (offset + 3)))))"

definition readIntLE :: "int \<Rightarrow> int \<Rightarrow> bool \<Rightarrow> buffer \<Rightarrow> js_error + jsnum" where
  "readIntLE offset byteLength noAssert this =
     (let offset = int32 offset; byteLength = int32 byteLength in
      unless noAssert (checkOffset offset byteLength (int (length this))) (\<lambda>_.
        let (mul, val) = readLE_loop this offset byteLength 0 1 (at this offset); mul = mul * 0x80 in
        Inr (if jge val (Num mul) then jsub val (Num (pow2 (8 * byteLength))) else val)))"

definition readIntBE :: "int \<Rightarrow> int \<Rightarrow> bool \<Rightarrow> buffer \<Rightarrow> js_error + jsnum" where
  "readIntBE offset byteLength noAssert this =
     (let offset = int32 offset; byteLength = int32 byteLength in
      unless noAssert (checkOffset offset byteLength (int (length this))) (\<lambda>_.
        let i = byteLength - 1; (mul, val) = readBE_loop this offset i 1 (at this (offset + i));
            mul = mul * 0x80 in
        Inr (if jge val (Num mul) then jsub val (Num (pow2 (8 * byteLength))) else val)))"

definition readInt8 :: "int \<Rightarrow> bool \<Rightarrow> buffer \<Rightarrow> js_error + jsnum" where
  "readInt8 offset noAssert this =
     unless noAssert (checkOffset offset 1 (int (length this))) (\<lambda>_.
       if jand (at this offset) (Num 0x80) = Num 0 then Inr (at this offset)
       else Inr (jmul (jadd (jsub (Num 0xFF) (at this offset)) (Num 1)) (Num (- 1))))"

definition readInt16LE :: "int \<Rightarrow> bool \<Rightarrow> buffer \<Rightarrow> js_error + jsnum" where
  "readInt16LE offset noAssert this =
     unless noAssert (checkOffset offset 2 (int (length this))) (\<lambda>_.
       let val = jor (at this offset) (jshl (at this (offset + 1)) 8) in
       Inr (if jand val (Num 0x8000) \<noteq> Num 0 then jor val (Num 0xFFFF0000) else val))"

definition readInt16BE :: "int \<Rightarrow> bool \<Rightarrow> buffer \<Rightarrow> js_error + jsnum" where
  "readInt16BE offset noAssert this =
     unless noAssert (checkOffset offset 2 (int (length this))) (\<lambda>_.
       let val = jor (at this (offset + 1)) (jshl (at this offset) 8) in
       Inr (if jand val (Num 0x8000) \<noteq> Num 0 then jor val (Num 0xFFFF0000) else val))"

definition readInt32LE :: "int \<Rightarrow> bool \<Rightarrow> buffer \<Rightarrow> js_error + jsnum" where
  "readInt32LE offset noAssert this =
     unless noAssert (checkOffset offset 4 (int (length this))) (\<lambda>_.
       Inr (jor (jor (jor (at this offset) (jshl (at this (offset + 1)) 8)) (jshl (at this (offset + 2)) 16))
              (jshl (at this (offset + 3)) 24)))"

definition readInt32BE :: "int \<Rightarrow> bool \<Rightarrow> buffer \<Rightarrow> js_error + jsnum" where
  "readInt32BE offset noAssert this =
     unless noAssert (checkOffset offset 4 (int (length this))) (\<lambda>_.
       Inr (jor (jor (jor (jshl (at this offset) 24) (jshl (at this (offset + 1)) 16))
                   (jshl (at this (offset + 2)) 8))
              (at this (offset + 3))))"

section \<open>Writers\<close>

text \<open>
  \<open>value / mul\<close> under a bitwise operator is the quotient truncated towards zero.
\<close>

type_synonym written = "js_error + buffer \<times> int"

function writeUIntLE_loop :: "int \<Rightarrow> int \<Rightarrow> int \<Rightarrow> int \<Rightarrow> int \<Rightarrow> buffer \<Rightarrow> buffer" where
  "writeUIntLE_loop value offset byteLength i mul this =
     (if i + 1 < byteLength
      then writeUIntLE_loop value offset byteLength (i + 1) (mul * 0x100)
             (put this (offset + (i + 1)) (jand (Num (value sdiv (mul * 0x100))) (Num 0xFF)))
      else this)"
  by pat_completeness auto
termination by (relation "measure (\<lambda>(value, offset, byteLength, i, mul, this). nat (byteLength - i))") auto

function writeUIntBE_loop :: "int \<Rightarrow> int \<Rightarrow> int \<Rightarrow> int \<Rightarrow> buffer \<Rightarrow> buffer" where
  "writeUIntBE_loop value offset i mul this =
     (if i - 1 \<ge> 0
      then writeUIntBE_loop value offset (i - 1) (mul * 0x100)
             (put this (offset + (i - 1)) (jand (Num (value sdiv (mul * 0x100))) (Num 0xFF)))
      else this)"
  by pat_completeness auto
termination by (relation "measure (\<lambda>(value, offset, i, mul, this). nat i)") auto

declare writeUIntLE_loop.simps [simp del] writeUIntBE_loop.simps [simp del]

definition writeUIntLE :: "int \<Rightarrow> int \<Rightarrow> int \<Rightarrow> bool \<Rightarrow> buffer \<Rightarrow> written" where
  "writeUIntLE value offset byteLength noAssert this =
     (let offset = int32 offset; byteLength = int32 byteLength in
      unless noAssert (checkInt this value offset byteLength (pow2 (8 * byteLength) - 1) 0) (\<lambda>_.
        Inr (writeUIntLE_loop value offset byteLength 0 1 (put this offset (jand (Num value) (Num 0xFF))),
             offset + byteLength)))"

definition writeUIntBE :: "int \<Rightarrow> int \<Rightarrow> int \<Rightarrow> bool \<Rightarrow> buffer \<Rightarrow> written" where
  "writeUIntBE value offset byteLength noAssert this =
     (let offset = int32 offset; byteLength = int32 byteLength in
      unless noAssert (checkInt this value offset byteLength (pow2 (8 * byteLength) - 1) 0) (\<lambda>_.
        let i = byteLength - 1 in
        Inr (writeUIntBE_loop value offset i 1 (put this (offset + i) (jand (Num value) (Num 0xFF))),
             offset + byteLength)))"

definition writeUInt8 :: "int \<Rightarrow> int \<Rightarrow> bool \<Rightarrow> buffer \<Rightarrow> written" where
  "writeUInt8 value offset noAssert this =
     (let offset = int32 offset in
      unless noAssert (checkInt this value offset 1 0xFF 0) (\<lambda>_.
        Inr (put this offset (jand (Num value) (Num 0xFF)), offset + 1)))"

text \<open>The writers for engines without typed arrays: a loop over the bytes inside the buffer.\<close>

function objectWriteUInt16_loop :: "int \<Rightarrow> int \<Rightarrow> bool \<Rightarrow> int \<Rightarrow> int \<Rightarrow> buffer \<Rightarrow> buffer" where
  "objectWriteUInt16_loop value offset littleEndian i j buf =
     (if i < j then
        let k = nat (8 * (if littleEndian then i else 1 - i)) in
        objectWriteUInt16_loop value offset littleEndian (i + 1) j
          (put buf (offset + i) (jushr (jand (Num value) (jshl (Num 0xFF) k)) k))
      else buf)"
  by pat_completeness auto
termination by (relation "measure (\<lambda>(value, offset, littleEndian, i, j, buf). nat (j - i))") auto

definition objectWriteUInt16 :: "buffer \<Rightarrow> int \<Rightarrow> int \<Rightarrow> bool \<Rightarrow> buffer" where
  "objectWriteUInt16 buf value offset littleEndian =
     (let value = (if value < 0 then 0xFFFF + value + 1 else value) in
      objectWriteUInt16_loop value offset littleEndian 0 (min (int (length buf) - offset) 2) buf)"

function objectWriteUInt32_loop :: "int \<Rightarrow> int \<Rightarrow> bool \<Rightarrow> int \<Rightarrow> int \<Rightarrow> buffer \<Rightarrow> buffer" where
  "objectWriteUInt32_loop value offset littleEndian i j buf =
     (if i < j then
        let k = nat ((if littleEndian then i else 3 - i) * 8) in
        objectWriteUInt32_loop value offset littleEndian (i + 1) j
          (put buf (offset + i) (jand (jushr (Num value) k) (Num 0xFF)))
      else buf)"
  by pat_completeness auto
termination by (relation "measure (\<lambda>(value, offset, littleEndian, i, j, buf). nat (j - i))") auto

definition objectWriteUInt32 :: "buffer \<Rightarrow> int \<Rightarrow> int \<Rightarrow> bool \<Rightarrow> buffer" where
  "objectWriteUInt32 buf value offset littleEndian =
     (let value = (if value < 0 then 0xFFFFFFFF + value + 1 else value) in
      objectWriteUInt32_loop value offset littleEndian 0 (min (int (length buf) - offset) 4) buf)"

declare objectWriteUInt16_loop.simps [simp del] objectWriteUInt32_loop.simps [simp del]

definition writeUInt16LE :: "bool \<Rightarrow> int \<Rightarrow> int \<Rightarrow> bool \<Rightarrow> buffer \<Rightarrow> written" where
  "writeUInt16LE ta value offset noAssert this =
     (let offset = int32 offset in
      unless noAssert (checkInt this value offset 2 0xFFFF (0)) (\<lambda>_.
        Inr (if ta then
                let this = put this offset (jand (Num value) (Num 0xFF));
                    this = put this (offset + 1) (jushr (Num value) 8)
                in this
              else objectWriteUInt16 this value offset True, offset + 2)))"

definition writeUInt16BE :: "bool \<Rightarrow> int \<Rightarrow> int \<Rightarrow> bool \<Rightarrow> buffer \<Rightarrow> written" where
  "writeUInt16BE ta value offset noAssert this =
     (let offset = int32 offset in
      unless noAssert (checkInt this value offset 2 0xFFFF (0)) (\<lambda>_.
        Inr (if ta then
                let this = put this offset (jushr (Num value) 8);
                    this = put this (offset + 1) (jand (Num value) (Num 0xFF))
                in this
              else objectWriteUInt16 this value offset False, offset + 2)))"

definition writeUInt32LE :: "bool \<Rightarrow> int \<Rightarrow> int \<Rightarrow> bool \<Rightarrow> buffer \<Rightarrow> written" where
  "writeUInt32LE ta value offset noAssert this =
     (let offset = int32 offset in
      unless noAssert (checkInt this value offset 4 0xFFFFFFFF (0)) (\<lambda>_.
        Inr (if ta then
                let this = put this (offset + 3) (jushr (Num value) 24);
                    this = put this (offset + 2) (jushr (Num value) 16);
                    this = put this (offset + 1) (jushr (Num value) 8);
                    this = put this offset (jand (Num value) (Num 0xFF))
                in this
              else objectWriteUInt32 this value offset True, offset + 4)))"

definition writeUInt32BE :: "bool \<Rightarrow> int \<Rightarrow> int \<Rightarrow> bool \<Rightarrow> buffer \<Rightarrow> written" where
  "writeUInt32BE ta value offset noAssert this =
     (let offset = int32 offset in
      unless noAssert (checkInt this value offset 4 0xFFFFFFFF (0)) (\<lambda>_.
        Inr (if ta then
                let this = put this offset (jushr (Num value) 24);
                    this = put this (offset + 1) (jushr (Num value) 16);
                    this = put this (offset + 2) (jushr (Num value) 8);
                    this = put this (offset + 3) (jand (Num value) (Num 0xFF))
                in this
              else objectWriteUInt32 this value offset False, offset + 4)))"

text \<open>The signed writers carry the borrow \<open>sub\<close> of a negative value from byte to byte.\<close>

function writeIntLE_loop :: "int \<Rightarrow> int \<Rightarrow> int \<Rightarrow> int \<Rightarrow> int \<Rightarrow> int \<Rightarrow> buffer \<Rightarrow> buffer" where
  "writeIntLE_loop value offset byteLength i mul sub this =
     (if i + 1 < byteLength then
        let i = i + 1; mul = mul * 0x100;
            sub = (if value < 0 \<and> sub = 0 \<and> at this (offset + i - 1) \<noteq> Num 0 then 1 else sub)
        in writeIntLE_loop value offset byteLength i mul sub
             (put this (offset + i) (jand (jsub (jshr (Num (value sdiv mul)) 0) (Num sub)) (Num 0xFF)))
      else this)"
  by pat_completeness auto
termination by (relation "measure (\<lambda>(value, offset, byteLength, i, mul, sub, this). nat (byteLength - i))") auto

function writeIntBE_loop :: "int \<Rightarrow> int \<Rightarrow> int \<Rightarrow> int \<Rightarrow> int \<Rightarrow> buffer \<Rightarrow> buffer" where
  "writeIntBE_loop value offset i mul sub this =
     (if i - 1 \<ge> 0 then
        let i = i - 1; mul = mul * 0x100;
            sub = (if value < 0 \<and> sub = 0 \<and> at this (offset + i + 1) \<noteq> Num 0 then 1 else sub)
        in writeIntBE_loop value offset i mul sub
             (put this (offset + i) (jand (jsub (jshr (Num (value sdiv mul)) 0) (Num sub)) (Num 0xFF)))
      else this)"
  by pat_completeness auto
termination by (relation "measure (\<lambda>(value, offset, i, mul, sub, this). nat i)") auto

declare writeIntLE_loop.simps [simp del] writeIntBE_loop.simps [simp del]

definition writeIntLE :: "int \<Rightarrow> int \<Rightarrow> int \<Rightarrow> bool \<Rightarrow> buffer \<Rightarrow> written" where
  "writeIntLE value offset byteLength noAssert this =
     (let offset = int32 offset; limit = pow2 (8 * byteLength - 1) in
      unless noAssert (checkInt this value offset byteLength (limit - 1) (- limit)) (\<lambda>_.
        Inr (writeIntLE_loop value offset byteLength 0 1 0 (put this offset (jand (Num value) (Num 0xFF))),
             offset + byteLength)))"

definition writeIntBE :: "int \<Rightarrow> int \<Rightarrow> int \<Rightarrow> bool \<Rightarrow> buffer \<Rightarrow> written" where
  "writeIntBE value offset byteLength noAssert this =
     (let offset = int32 offset; limit = pow2 (8 * byteLength - 1) in
      unless noAssert (checkInt this value offset byteLength (limit - 1) (- limit)) (\<lambda>_.
        let i = byteLength - 1 in
        Inr (writeIntBE_loop value offset i 1 0 (put this (offset + i) (jand (Num value) (Num 0xFF))),
             offset + byteLength)))"

definition writeInt8 :: "int \<Rightarrow> int \<Rightarrow> bool \<Rightarrow> buffer \<Rightarrow> written" where
  "writeInt8 value offset noAssert this =
     (let offset = int32 offset in
      unless noAssert (checkInt this value offset 1 0x7F (- 0x80)) (\<lambda>_.
        let value = (if value < 0 then 0xFF + value + 1 else value) in
        Inr (put this offset (jand (Num value) (Num 0xFF)), offset + 1)))"

definition writeInt16LE :: "bool \<Rightarrow> int \<Rightarrow> int \<Rightarrow> bool \<Rightarrow> buffer \<Rightarrow> written" where
  "writeInt16LE ta value offset noAssert this =
     (let offset = int32 offset in
      unless noAssert (checkInt this value offset 2 0x7FFF (- 0x8000)) (\<lambda>_.
        Inr (if ta then
                let this = put this offset (jand (Num value) (Num 0xFF));
                    this = put this (offset + 1) (jushr (Num value) 8)
                in this
              else objectWriteUInt16 this value offset True, offset + 2)))"

definition writeInt16BE :: "bool \<Rightarrow> int \<Rightarrow> int \<Rightarrow> bool \<Rightarrow> buffer \<Rightarrow> written" where
  "writeInt16BE ta value offset noAssert this =
     (let offset = int32 offset in
      unless noAssert (checkInt this value offset 2 0x7FFF (- 0x8000)) (\<lambda>_.
        Inr (if ta then
                let this = put this offset (jushr (Num value) 8);
                    this = put this (offset + 1) (jand (Num value) (Num 0xFF))
                in this
              else objectWriteUInt16 this value offset False, offset + 2)))"

definition writeInt32LE :: "bool \<Rightarrow> int \<Rightarrow> int \<Rightarrow> bool \<Rightarrow> buffer \<Rightarrow> written" where
  "writeInt32LE ta value offset noAssert this =
     (let offset = int32 offset in
      unless noAssert (checkInt this value offset 4 0x7FFFFFFF (- 0x80000000)) (\<lambda>_.
        Inr (if ta then
                let this = put this offset (jand (Num value) (Num 0xFF));
                    this = put this (offset + 1) (jushr (Num value) 8);
                    this = put this (offset + 2) (jushr (Num value) 16);
                    this = put this (offset + 3) (jushr (Num value) 24)
                in this
              else objectWriteUInt32 this value offset True, offset + 4)))"

definition writeInt32BE :: "bool \<Rightarrow> int \<Rightarrow> int \<Rightarrow> bool \<Rightarrow> buffer \<Rightarrow> written" where
  "writeInt32BE ta value offset noAssert this =
     (let offset = int32 offset in
      unless noAssert (checkInt this value offset 4 0x7FFFFFFF (- 0x80000000)) (\<lambda>_.
        let value = (if value < 0 then 0xFFFFFFFF + value + 1 else value) in
        Inr (if ta then
                let this = put this offset (jushr (Num value) 24);
                    this = put this (offset + 1) (jushr (Num value) 16);
                    this = put this (offset + 2) (jushr (Num value) 8);
                    this = put this (offset + 3) (jand (Num value) (Num 0xFF))
                in this
              else objectWriteUInt32 this value offset False, offset + 4)))"

end
