(* ===== verification/Buffer_Codec.thy ===== *)
theory Buffer_Codec
  imports Buffer_Num
begin

text \<open>
  The integer accessors of \<open>Buffer\<close> as codecs. Every writer stores the bytes \<open>lebytes\<close> of the
  value, in one order or the other, and every reader takes their value \<open>leval\<close>; the locale
  \<open>int_codec\<close> states this contract, derives what a client relies on (reading back, independence
  of disjoint fields, whole records), and is interpreted for each pair of accessors.
\<close>

section \<open>Little-endian bytes\<close>

primrec leval :: "buffer \<Rightarrow> int" where
  "leval [] = 0"
| "leval (x # xs) = uint x + 256 * leval xs"

primrec lebytes :: "nat \<Rightarrow> int \<Rightarrow> buffer" where
  "lebytes 0 v = []"
| "lebytes (Suc n) v = word_of_int v # lebytes n (v div 256)"

definition twos :: "nat \<Rightarrow> int \<Rightarrow> int" where
  "twos n x = (if x \<ge> 2 ^ (8 * n - 1) then x - 2 ^ (8 * n) else x)"

definition overwrite :: "buffer \<Rightarrow> nat \<Rightarrow> buffer \<Rightarrow> buffer" where
  "overwrite b i xs = take i b @ xs @ drop (i + length xs) b"

definition window :: "buffer \<Rightarrow> nat \<Rightarrow> nat \<Rightarrow> buffer" where
  "window b i n = take n (drop i b)"

lemma length_lebytes [simp]: "length (lebytes n v) = n"
  by (induction n arbitrary: v) simp_all

lemma uint_byte: "uint (word_of_int v :: byte) = v mod 256"
  by (simp add: uint_word_of_int)

lemma leval_lebytes: "leval (lebytes n v) = v mod 256 ^ n"
proof (induction n arbitrary: v)
  case (Suc n)
  have "v mod (256 * 256 ^ n) = 256 * (v div 256 mod 256 ^ n) + v mod 256" by (rule zmod_zmult2_eq) simp
  with Suc show ?case by (simp add: uint_byte)
qed simp

lemma leval_bounds: "0 \<le> leval xs" "leval xs < 256 ^ length xs"
proof -
  have "0 \<le> leval xs \<and> leval xs < 256 ^ length xs"
  proof (induction xs)
    case (Cons x xs)
    then show ?case using uint_bounded [of x] by simp
  qed simp
  then show "0 \<le> leval xs" "leval xs < 256 ^ length xs" by simp_all
qed

lemma twos_mod:
  assumes "0 < n" "- (2 ^ (8 * n - 1)) \<le> v" "v < 2 ^ (8 * n - 1)"
  shows "twos n (v mod 256 ^ n) = v"
proof -
  have e: "(256::int) ^ n = 2 ^ (8 * n)" by (simp add: power_mult)
  have h: "(2::int) ^ (8 * n) = 2 * 2 ^ (8 * n - 1)" using assms(1) by (simp add: power_eq_if)
  show ?thesis
  proof (cases "0 \<le> v")
    case True
    with assms h have "v mod 2 ^ (8 * n) = v" by (intro mod_pos_pos_trivial) auto
    with True assms show ?thesis by (simp add: twos_def e)
  next
    case False
    have "v mod 2 ^ (8 * n) = (v + 2 ^ (8 * n)) mod 2 ^ (8 * n)" by simp
    also have "\<dots> = v + 2 ^ (8 * n)" using False assms h by (intro mod_pos_pos_trivial) auto
    finally have "v mod 2 ^ (8 * n) = v + 2 ^ (8 * n)" .
    with False assms h show ?thesis by (simp add: twos_def e)
  qed
qed

lemma length_overwrite: "i + length xs \<le> length b \<Longrightarrow> length (overwrite b i xs) = length b"
  by (simp add: overwrite_def)

lemma window_overwrite: "i + length xs \<le> length b \<Longrightarrow> length xs = n \<Longrightarrow> window (overwrite b i xs) i n = xs"
  by (simp add: window_def overwrite_def)

lemma window_overwrite_other:
  assumes "i + length xs \<le> length b" and "j + n \<le> i \<or> i + length xs \<le> j"
  shows "window (overwrite b i xs) j n = window b j n"
proof (cases "j + n \<le> i")
  case True
  with assms show ?thesis by (auto simp: window_def overwrite_def drop_take min_def)
next
  case False
  with assms(2) have "i + length xs \<le> j" by simp
  with assms(1) show ?thesis by (simp add: window_def overwrite_def)
qed

section \<open>Storing bytes\<close>

lemma toUint8_sint: "toUint8 (Num (sint (w :: 32 word))) = ucast w"
  by (rule bit_word_eqI) (auto simp: bit_simps)

lemma low_byte: "toUint8 (jand (Num v) (Num 0xFF)) = word_of_int v"
proof -
  have "toInt32 (Num v) AND toInt32 (Num 255) = take_bit 8 (word_of_int v)"
    by (simp add: take_bit_eq_mask mask_eq_exp_minus_1)
  then show ?thesis
    unfolding jand_def toUint8_sint by (intro bit_word_eqI) (auto simp: bit_simps)
qed

lemma shifted_byte: "k \<le> 24 \<Longrightarrow> toUint8 (jushr (Num v) k) = word_of_int (v div 2 ^ k)"
proof -
  assume "k \<le> 24"
  have "toUint8 (Num (uint w)) = ucast w" for w :: "32 word" by simp
  moreover have "ucast (drop_bit k (word_of_int v :: 32 word)) = (word_of_int (drop_bit k v) :: byte)"
    using \<open>k \<le> 24\<close> by (intro bit_word_eqI) (auto simp: bit_simps)
  ultimately show ?thesis by (simp add: jushr_def drop_bit_eq_div)
qed

lemma put_nat: "i < length b \<Longrightarrow> put b (int i) v = b[i := toUint8 v]"
  by (simp add: put_def)

lemma overwrite_1: "i < length b \<Longrightarrow> overwrite b i [x] = b[i := x]"
  by (simp add: overwrite_def upd_conv_take_nth_drop)

lemma overwrite_Cons:
  "i + Suc (length xs) \<le> length b \<Longrightarrow> overwrite b i (x # xs) = overwrite (b[i := x]) (Suc i) xs"
  by (simp add: overwrite_def upd_conv_take_nth_drop add.commute)

lemma overwrite_Nil [simp]: "overwrite b i [] = b"
  by (simp add: overwrite_def)

lemma put_2:
  assumes "i + 2 \<le> length b"
  shows "put (put b (int i) x) (int i + 1) y = overwrite b i [toUint8 x, toUint8 y]"
  using assms put_nat [of i b x] put_nat [of "Suc i" "b[i := toUint8 x]" y]
  by (simp add: overwrite_Cons overwrite_1 add.commute)

lemma put_4:
  assumes "i + 4 \<le> length b"
  shows "put (put (put (put b (int i) x) (int i + 1) y) (int i + 2) z) (int i + 3) w
           = overwrite b i [toUint8 x, toUint8 y, toUint8 z, toUint8 w]"
proof -
  let ?b = "put (put b (int i) x) (int i + 1) y"
  have "put (put ?b (int (i + 2)) z) (int (i + 2) + 1) w = overwrite ?b (i + 2) [toUint8 z, toUint8 w]"
    using assms by (intro put_2) simp
  moreover have "?b = b[i := toUint8 x, Suc i := toUint8 y]"
    using assms put_nat [of i b x] put_nat [of "Suc i" "b[i := toUint8 x]" y] by (simp add: add.commute)
  ultimately show ?thesis using assms by (simp add: overwrite_Cons overwrite_1 add.commute numeral_2_eq_2)
qed

section \<open>Reading bytes\<close>

lemma window_nth: "i + n \<le> length b \<Longrightarrow> k < n \<Longrightarrow> window b i n ! k = b ! (i + k)"
  by (simp add: window_def)

lemma window_1: "i < length b \<Longrightarrow> window b i (Suc 0) = [b ! i]"
  by (simp add: window_def take_Suc_conv_app_nth)

lemma window_Suc: "i + Suc n \<le> length b \<Longrightarrow> window b i (Suc n) = b ! i # window b (Suc i) n"
  by (simp add: window_def Cons_nth_drop_Suc [symmetric])

lemma window_0 [simp]: "window b i 0 = []"
  by (simp add: window_def)

lemma window_2: "i + 2 \<le> length b \<Longrightarrow> window b i 2 = [b ! i, b ! (i + 1)]"
  by (simp add: numeral_2_eq_2 window_Suc)

lemma window_4: "i + 4 \<le> length b \<Longrightarrow> window b i 4 = [b ! i, b ! (i + 1), b ! (i + 2), b ! (i + 3)]"
  by (simp add: numeral_eq_Suc window_Suc)

lemma at_off: "i + k < length b \<Longrightarrow> at b (int i + int k) = Num (uint (b ! (i + k)))"
  using at_nat [of "i + k" b] by simp

lemma byte_range: "0 \<le> uint (x :: byte)" "uint x < 256"
  using uint_bounded [of x] by simp_all

text \<open>Joining bytes with shifts and \<open>|\<close>: up to three bytes stay below \<open>2 ^ 31\<close>.\<close>

lemma or_2: "jor (Num (uint (x :: byte))) (jshl (Num (uint (y :: byte))) 8) = Num (leval [x, y])"
proof -
  have "jshl (Num (uint y)) 8 = Num (uint y * 2 ^ 8)" using byte_range [of y] by (intro jshl_small) simp_all
  moreover have "jor (Num (uint y * 2 ^ 8)) (Num (uint x)) = Num (uint y * 2 ^ 8 + uint x)"
    using byte_range [of x] byte_range [of y] by (intro jor_disjoint) simp_all
  moreover have "jor a b = jor b a" for a b by (simp add: jor_def or.commute)
  ultimately show ?thesis by (simp add: mult.commute add.commute)
qed

lemma or_3:
  "jor (jor (Num (uint (x :: byte))) (jshl (Num (uint (y :: byte))) 8)) (jshl (Num (uint (z :: byte))) 16)
     = Num (leval [x, y, z])"
proof -
  have "jshl (Num (uint z)) 16 = Num (uint z * 2 ^ 16)" using byte_range [of z] by (intro jshl_small) simp_all
  moreover have "jor (Num (uint z * 2 ^ 16)) (Num (leval [x, y])) = Num (uint z * 2 ^ 16 + leval [x, y])"
    using leval_bounds [of "[x, y]"] byte_range [of z] by (intro jor_disjoint) simp_all
  moreover have "jor a b = jor b a" for a b by (simp add: jor_def or.commute)
  ultimately show ?thesis unfolding or_2 by (simp add: algebra_simps)
qed

lemma or_4:
  "jor (jor (jor (Num (uint (x :: byte))) (jshl (Num (uint (y :: byte))) 8)) (jshl (Num (uint (z :: byte))) 16))
     (jshl (Num (uint (w :: byte))) 24) = Num (twos 4 (leval [x, y, z, w]))"
proof -
  let ?v = "leval [x, y, z]"
  have "toInt32 (jshl (Num (uint w)) 24) = word_of_int (uint w * 2 ^ 24)"
    by (simp add: jshl_def push_bit_eq_mult)
  then have "jor (Num ?v) (jshl (Num (uint w)) 24) = Num (sint (word_of_int (uint w * 2 ^ 24 OR ?v) :: 32 word))"
    by (simp add: jor_def or.commute of_int_or_eq [symmetric] del: of_int_or_eq leval.simps of_int_mult of_int_power)
  moreover have "uint w * 2 ^ 24 OR ?v = leval [x, y, z, w]"
    using or_disjoint [of ?v 24 "uint w"] leval_bounds [of "[x, y, z]"] by (simp add: algebra_simps)
  moreover have "sint (word_of_int v :: 32 word) = twos 4 v" if "0 \<le> v" "v < 2 ^ 32" for v
  proof (cases "v < 2 ^ 31")
    case False
    have "v + 2 ^ 31 = (v - 2 ^ 31) + 2 ^ 32" by simp
    then have "(v + 2 ^ 31) mod 2 ^ 32 = (v - 2 ^ 31) mod 2 ^ 32" by (simp only: mod_add_self2)
    also have "\<dots> = v - 2 ^ 31" using False that by (intro mod_pos_pos_trivial) auto
    finally show ?thesis using False by (simp add: int_word_sint twos_def)
  qed (use that in \<open>simp add: int_word_sint twos_def\<close>)
  moreover have "0 \<le> leval [x, y, z, w]" "leval [x, y, z, w] < 2 ^ 32"
    using leval_bounds [of "[x, y, z, w]"] by simp_all
  ultimately show ?thesis unfolding or_3 by (simp only:)
qed

lemma jor_rev2: "jor a b = jor b a"
  by (simp add: jor_def or.commute)

lemma jor_rev3: "jor (jor a b) c = jor (jor c b) a"
  by (simp add: jor_def ac_simps)

lemma jor_rev4: "jor (jor (jor a b) c) d = jor (jor (jor d c) b) a"
  by (simp add: jor_def ac_simps)

text \<open>Sign extension of two bytes.\<close>

lemma sign_2:
  assumes "0 \<le> v" "v < 2 ^ 16"
  shows "(if jand (Num v) (Num 0x8000) \<noteq> Num 0 then jor (Num v) (Num 0xFFFF0000) else Num v) = Num (twos 2 v)"
proof -
  have "jand (Num v) (Num 0x8000) = Num (v AND 2 ^ 15)" using jand_small [of v "2 ^ 15"] assms by simp
  then have "jand (Num v) (Num 0x8000) \<noteq> Num 0 \<longleftrightarrow> bit v 15"
    using and_exp_eq_0_iff_not_bit [of v 15] by simp
  moreover have "bit v 15 \<longleftrightarrow> v \<ge> 2 ^ 15"
  proof -
    have "v div 2 ^ 15 = (if v \<ge> 2 ^ 15 then 1 else 0)"
      using assms by (auto simp: div_pos_pos_trivial div_pos_geq)
    then show ?thesis by (simp add: bit_iff_odd)
  qed
  moreover have "jor (Num v) (Num 0xFFFF0000) = Num (v - 2 ^ 16)"
  proof -
    have "jor (Num v) (Num 0xFFFF0000) = Num (sint (word_of_int (0xFFFF * 2 ^ 16 OR v) :: 32 word))"
      by (simp add: jor_def of_int_or_eq or.commute)
    also have "0xFFFF * 2 ^ 16 OR v = 0xFFFF * 2 ^ 16 + v" by (rule or_disjoint) (use assms in simp_all)
    also have "word_of_int (0xFFFF * 2 ^ 16 + v) = (word_of_int (v - 2 ^ 16) :: 32 word)"
      by (rule word_of_int_eq_iff [THEN iffD2]) (simp add: take_bit_eq_mod mod_eq_dvd_iff)
    also have "sint (word_of_int (v - 2 ^ 16) :: 32 word) = v - 2 ^ 16"
      using assms int32_id [of "v - 2 ^ 16"] by (simp add: int32_def)
    finally show ?thesis .
  qed
  ultimately show ?thesis by (simp add: twos_def)
qed

text \<open>The fixed-width readers inside the buffer.\<close>

lemma checkOffset_in: "i + n \<le> length b \<Longrightarrow> checkOffset (int i) (int n) (int (length b)) = Inr ()"
  by (simp add: checkOffset_def)

lemma checkOffset_out: "length b < i + n \<Longrightarrow> checkOffset (int i) (int n) (int (length b)) = Inl RangeError"
  by (auto simp: checkOffset_def)

lemmas check_in = checkOffset_in [where n = 1, simplified] checkOffset_in [where n = 2, simplified]
  checkOffset_in [where n = 4, simplified]

lemmas check_out = checkOffset_out [where n = 1, simplified] checkOffset_out [where n = 2, simplified]
  checkOffset_out [where n = 4, simplified]

lemma at_2:
  assumes "i + 2 \<le> length b"
  shows "at b (int i) = Num (uint (b ! i))" "at b (int i + 1) = Num (uint (b ! (i + 1)))"
  using assms at_off [of i 0 b] at_off [of i 1 b] by simp_all

lemma at_4:
  assumes "i + 4 \<le> length b"
  shows "at b (int i) = Num (uint (b ! i))" "at b (int i + 1) = Num (uint (b ! (i + 1)))"
    "at b (int i + 2) = Num (uint (b ! (i + 2)))" "at b (int i + 3) = Num (uint (b ! (i + 3)))"
  using assms at_off [of i 0 b] at_off [of i 1 b] at_off [of i 2 b] at_off [of i 3 b] by simp_all

lemma read_8:
  assumes "i + 1 \<le> length b"
  shows "readUInt8 (int i) na b = Inr (Num (leval (window b i 1)))"
    and "readInt8 (int i) na b = Inr (Num (twos 1 (leval (window b i 1))))"
proof -
  have at: "at b (int i) = Num (uint (b ! i))" using assms at_off [of i 0 b] by simp
  let ?v = "uint (b ! i)"
  show "readUInt8 (int i) na b = Inr (Num (leval (window b i 1)))"
    using assms by (simp add: readUInt8_def check_in at window_1)
  have "jand (Num ?v) (Num 0x80) = Num (?v AND 2 ^ 7)"
    using jand_small [of ?v "2 ^ 7"] by simp
  moreover have "?v AND 2 ^ 7 = 0 \<longleftrightarrow> \<not> bit ?v 7" by (rule and_exp_eq_0_iff_not_bit)
  moreover have "bit ?v 7 \<longleftrightarrow> ?v \<ge> 2 ^ 7"
  proof -
    have "?v div 2 ^ 7 = (if ?v \<ge> 2 ^ 7 then 1 else 0)"
      using byte_range [of "b ! i"] by (auto simp: div_pos_pos_trivial div_pos_geq)
    then show ?thesis by (simp add: bit_iff_odd)
  qed
  ultimately have "(jand (Num ?v) (Num 0x80) = Num 0) = (?v < 2 ^ 7)" by auto
  then show "readInt8 (int i) na b = Inr (Num (twos 1 (leval (window b i 1))))"
    using assms by (auto simp: readInt8_def check_in at window_1 twos_def)
qed

lemma read_16:
  assumes "i + 2 \<le> length b"
  shows "readUInt16LE (int i) na b = Inr (Num (leval (window b i 2)))"
    and "readUInt16BE (int i) na b = Inr (Num (leval (rev (window b i 2))))"
    and "readInt16LE (int i) na b = Inr (Num (twos 2 (leval (window b i 2))))"
    and "readInt16BE (int i) na b = Inr (Num (twos 2 (leval (rev (window b i 2)))))"
proof -
  note at = at_2 [OF assms]
  let ?x = "b ! i" and ?y = "b ! (i + 1)"
  have le: "jor (at b (int i)) (jshl (at b (int i + 1)) 8) = Num (leval [?x, ?y])" unfolding at by (rule or_2)
  have be: "jor (at b (int i + 1)) (jshl (at b (int i)) 8) = Num (leval [?y, ?x])" unfolding at by (rule or_2)
  have w: "window b i 2 = [?x, ?y]" "rev (window b i 2) = [?y, ?x]" using assms by (simp_all add: window_2)
  have c: "unless na (checkOffset (int i) 2 (int (length b))) k = k ()" for k :: "unit \<Rightarrow> js_error + 'a"
    using assms by (cases na) (simp_all add: check_in)
  show "readUInt16LE (int i) na b = Inr (Num (leval (window b i 2)))"
    "readUInt16BE (int i) na b = Inr (Num (leval (rev (window b i 2))))"
    unfolding readUInt16LE_def readUInt16BE_def c w
    using le be jor_rev2 [of "jshl (at b (int i)) 8" "at b (int i + 1)"] by simp_all
  have s: "(if jand (Num (leval [p, q])) (Num 0x8000) \<noteq> Num 0 then jor (Num (leval [p, q])) (Num 0xFFFF0000)
      else Num (leval [p, q])) = Num (twos 2 (leval [p, q]))" for p q
    using leval_bounds [of "[p, q]"] by (intro sign_2) simp_all
  show "readInt16LE (int i) na b = Inr (Num (twos 2 (leval (window b i 2))))"
    "readInt16BE (int i) na b = Inr (Num (twos 2 (leval (rev (window b i 2)))))"
    unfolding readInt16LE_def readInt16BE_def c w le be Let_def s by simp_all
qed

lemma read_32:
  assumes "i + 4 \<le> length b"
  shows "readUInt32LE (int i) na b = Inr (Num (leval (window b i 4)))"
    and "readUInt32BE (int i) na b = Inr (Num (leval (rev (window b i 4))))"
    and "readInt32LE (int i) na b = Inr (Num (twos 4 (leval (window b i 4))))"
    and "readInt32BE (int i) na b = Inr (Num (twos 4 (leval (rev (window b i 4)))))"
proof -
  note at = at_4 [OF assms]
  let ?x = "b ! i" and ?y = "b ! (i + 1)" and ?z = "b ! (i + 2)" and ?w = "b ! (i + 3)"
  have w: "window b i 4 = [?x, ?y, ?z, ?w]" "rev (window b i 4) = [?w, ?z, ?y, ?x]"
    using assms by (simp_all add: window_4)
  have c: "unless na (checkOffset (int i) 4 (int (length b))) k = k ()" for k :: "unit \<Rightarrow> js_error + 'a"
    using assms by (cases na) (simp_all add: check_in)
  show "readUInt32LE (int i) na b = Inr (Num (leval (window b i 4)))"
    unfolding readUInt32LE_def c w at or_3 by (simp add: algebra_simps)
  show "readUInt32BE (int i) na b = Inr (Num (leval (rev (window b i 4))))"
    unfolding readUInt32BE_def c w at jor_rev3 [of "jshl (Num (uint ?y)) 16"] or_3 by (simp add: algebra_simps)
  show "readInt32LE (int i) na b = Inr (Num (twos 4 (leval (window b i 4))))"
    unfolding readInt32LE_def c w at or_4 ..
  show "readInt32BE (int i) na b = Inr (Num (twos 4 (leval (rev (window b i 4)))))"
    unfolding readInt32BE_def c w at jor_rev4 [of "jshl (Num (uint ?x)) 24"] or_4 by simp
qed

section \<open>The fixed-width writers\<close>

lemma int32_index: "i < 2 ^ 31 \<Longrightarrow> int32 (int i) = int i"
  by (simp add: int32_id)

lemma checkInt_in:
  "lo \<le> v \<Longrightarrow> v \<le> hi \<Longrightarrow> i + n \<le> length b \<Longrightarrow> checkInt b v (int i) (int n) hi lo = Inr ()"
  by (simp add: checkInt_def)

lemma checkInt_out:
  "v < lo \<or> hi < v \<or> length b < i + n \<Longrightarrow> checkInt b v (int i) (int n) hi lo = Inl RangeError"
  by (auto simp: checkInt_def)

text \<open>The bytes a value is stored as.\<close>

lemma lebytes_2: "lebytes 2 v = [word_of_int v, word_of_int (v div 2 ^ 8)]"
  by (simp add: numeral_2_eq_2)

lemma lebytes_4:
  "lebytes 4 v = [word_of_int v, word_of_int (v div 2 ^ 8), word_of_int (v div 2 ^ 16), word_of_int (v div 2 ^ 24)]"
proof -
  have "v div 256 div 256 = v div 2 ^ 16" "v div 2 ^ 16 div 256 = v div 2 ^ 24"
    by (simp_all add: zdiv_zmult2_eq [symmetric])
  then show ?thesis by (simp add: numeral_eq_Suc)
qed

lemma lebytes_mod: "lebytes n (v mod 256 ^ n) = lebytes n v"
proof (induction n arbitrary: v)
  case (Suc n)
  have "v mod 256 ^ Suc n = 256 * (v div 256 mod 256 ^ n) + v mod 256"
    using zmod_zmult2_eq [of "256 ^ n" v 256] by simp
  then have "v mod 256 ^ Suc n div 256 = v div 256 mod 256 ^ n" by simp
  moreover have "word_of_int (v mod 256 ^ Suc n) = (word_of_int v :: byte)"
  proof -
    have "v mod (256 * 256 ^ n) mod 256 = v mod 256" by (rule mod_mod_cancel) simp
    then have "v mod 256 ^ Suc n mod 256 = v mod 256" by simp
    then show ?thesis by (simp only: word_of_int_eq_iff take_bit_eq_mod) simp
  qed
  ultimately show ?case using Suc by simp
qed simp

lemma lebytes_cong: "u mod 256 ^ n = v mod 256 ^ n \<Longrightarrow> lebytes n u = lebytes n v"
  using lebytes_mod [of n u] lebytes_mod [of n v] by simp

lemma object_byte_16:
  assumes "k = 0 \<or> k = 8"
  shows "toUint8 (jushr (jand (Num v) (jshl (Num 0xFF) k)) k) = word_of_int (v div 2 ^ k)"
proof -
  have m: "push_bit k (0xFF :: 32 word) = push_bit k (mask 8)" by (simp add: mask_eq_exp_minus_1)
  have "toInt32 (jand (Num v) (jshl (Num 0xFF) k)) = word_of_int v AND push_bit k (mask 8)"
    by (simp add: jand_def jshl_def mask_eq_exp_minus_1)
  then have "toUint8 (jushr (jand (Num v) (jshl (Num 0xFF) k)) k)
      = ucast (drop_bit k (word_of_int v AND push_bit k (mask 8) :: 32 word))"
    by (simp add: jushr_def)
  also have "\<dots> = word_of_int (drop_bit k v)"
    using assms by (intro bit_word_eqI) (auto simp: bit_simps)
  finally show ?thesis by (simp add: drop_bit_eq_div)
qed

lemma object_byte_32:
  assumes "k \<le> 24"
  shows "toUint8 (jand (jushr (Num v) k) (Num 0xFF)) = word_of_int (v div 2 ^ k)"
proof -
  have "toUint8 (jand (Num u) (Num 0xFF)) = toUint8 (Num u)" for u using low_byte [of u] by simp
  then show ?thesis using shifted_byte [OF assms, of v] by (simp add: jushr_def)
qed

abbreviation order :: "bool \<Rightarrow> buffer \<Rightarrow> buffer" where
  "order littleEndian bs \<equiv> (if littleEndian then bs else rev bs)"

lemma objectWriteUInt16_bytes:
  assumes "i + 2 \<le> length b"
  shows "objectWriteUInt16 b v (int i) le = overwrite b i (order le (lebytes 2 v))"
proof -
  define u where "u = (if v < 0 then 0xFFFF + v + 1 else v)"
  have "u mod 256 ^ 2 = v mod 256 ^ 2" by (simp add: u_def mod_eq_dvd_iff)
  then have lb: "lebytes 2 v = lebytes 2 u" by (rule lebytes_cong [symmetric])
  have m: "min (int (length b) - int i) 2 = 2" using assms by simp
  have "objectWriteUInt16_loop u (int i) le 0 2 b =
      put (put b (int i) (jushr (jand (Num u) (jshl (Num 0xFF) (if le then 0 else 8))) (if le then 0 else 8)))
        (int i + 1) (jushr (jand (Num u) (jshl (Num 0xFF) (if le then 8 else 0))) (if le then 8 else 0))"
    by (simp add: objectWriteUInt16_loop.simps Let_def)
  also have "\<dots> = overwrite b i (order le (lebytes 2 u))"
    using assms by (cases le) (simp_all add: put_2 object_byte_16 lebytes_2)
  finally show ?thesis using m lb by (simp add: objectWriteUInt16_def u_def [symmetric] Let_def)
qed

lemma objectWriteUInt32_bytes:
  assumes "i + 4 \<le> length b"
  shows "objectWriteUInt32 b v (int i) le = overwrite b i (order le (lebytes 4 v))"
proof -
  define u where "u = (if v < 0 then 0xFFFFFFFF + v + 1 else v)"
  have "u mod 256 ^ 4 = v mod 256 ^ 4" by (simp add: u_def mod_eq_dvd_iff)
  then have lb: "lebytes 4 v = lebytes 4 u" by (rule lebytes_cong [symmetric])
  have m: "min (int (length b) - int i) 4 = 4" using assms by simp
  have "objectWriteUInt32_loop u (int i) le 0 4 b =
      put (put (put (put b (int i) (jand (jushr (Num u) (if le then 0 else 24)) (Num 0xFF)))
        (int i + 1) (jand (jushr (Num u) (if le then 8 else 16)) (Num 0xFF)))
        (int i + 2) (jand (jushr (Num u) (if le then 16 else 8)) (Num 0xFF)))
        (int i + 3) (jand (jushr (Num u) (if le then 24 else 0)) (Num 0xFF))"
    by (cases le) (simp_all add: objectWriteUInt32_loop.simps Let_def)
  also have "\<dots> = overwrite b i (order le (lebytes 4 u))"
    using assms by (cases le) (simp_all add: put_4 object_byte_32 lebytes_4)
  finally show ?thesis using m lb by (simp add: objectWriteUInt32_def u_def [symmetric] Let_def)
qed

lemma typed_16:
  assumes "i + 2 \<le> length b"
  shows "put (put b (int i) (jand (Num v) (Num 0xFF))) (int i + 1) (jushr (Num v) 8) = overwrite b i (lebytes 2 v)"
    and "put (put b (int i) (jushr (Num v) 8)) (int i + 1) (jand (Num v) (Num 0xFF)) = overwrite b i (rev (lebytes 2 v))"
  using assms by (simp_all add: put_2 low_byte shifted_byte lebytes_2)

lemma typed_32:
  assumes "i + 4 \<le> length b"
  shows "put (put (put (put b (int i) (jand (Num v) (Num 0xFF))) (int i + 1) (jushr (Num v) 8))
           (int i + 2) (jushr (Num v) 16)) (int i + 3) (jushr (Num v) 24) = overwrite b i (lebytes 4 v)"
    and "put (put (put (put b (int i) (jushr (Num v) 24)) (int i + 1) (jushr (Num v) 16))
           (int i + 2) (jushr (Num v) 8)) (int i + 3) (jand (Num v) (Num 0xFF)) = overwrite b i (rev (lebytes 4 v))"
    and "put (put (put (put b (int i + 3) (jushr (Num v) 24)) (int i + 2) (jushr (Num v) 16))
           (int i + 1) (jushr (Num v) 8)) (int i) (jand (Num v) (Num 0xFF)) = overwrite b i (lebytes 4 v)"
proof -
  show le: "put (put (put (put b (int i) (jand (Num v) (Num 0xFF))) (int i + 1) (jushr (Num v) 8))
      (int i + 2) (jushr (Num v) 16)) (int i + 3) (jushr (Num v) 24) = overwrite b i (lebytes 4 v)"
    "put (put (put (put b (int i) (jushr (Num v) 24)) (int i + 1) (jushr (Num v) 16))
      (int i + 2) (jushr (Num v) 8)) (int i + 3) (jand (Num v) (Num 0xFF)) = overwrite b i (rev (lebytes 4 v))"
    using assms by (simp_all add: put_4 low_byte shifted_byte lebytes_4)
  have "put (put (put (put b (p + 3) x) (p + 2) y) (p + 1) z) p w
      = put (put (put (put b p w) (p + 1) z) (p + 2) y) (p + 3) x" for p x y z w
    by (simp add: put_put_swap [of "p + 3" p] put_put_swap [of "p + 3" "p + 1"] put_put_swap [of "p + 3" "p + 2"]
        put_put_swap [of "p + 2" p] put_put_swap [of "p + 2" "p + 1"] put_put_swap [of "p + 1" p])
  then show "put (put (put (put b (int i + 3) (jushr (Num v) 24)) (int i + 2) (jushr (Num v) 16))
      (int i + 1) (jushr (Num v) 8)) (int i) (jand (Num v) (Num 0xFF)) = overwrite b i (lebytes 4 v)"
    using le(1) by simp
qed

text \<open>All fixed-width writers, with a value and an index in range.\<close>

lemma write_8:
  assumes "i + 1 \<le> length b" "length b < 2 ^ 31"
  shows "0 \<le> v \<Longrightarrow> v \<le> 0xFF \<Longrightarrow> writeUInt8 v (int i) na b = Inr (overwrite b i (lebytes 1 v), int i + 1)"
    and "- 0x80 \<le> v \<Longrightarrow> v \<le> 0x7F \<Longrightarrow> writeInt8 v (int i) na b = Inr (overwrite b i (lebytes 1 v), int i + 1)"
proof -
  have i: "int32 (int i) = int i" using assms by (intro int32_index) simp
  have p: "put b (int i) (jand (Num u) (Num 0xFF)) = overwrite b i (lebytes 1 u)" for u
    using assms by (simp add: put_nat overwrite_1 low_byte)
  have c: "unless na (checkInt b v (int i) 1 hi lo) k = k ()" if "lo \<le> v" "v \<le> hi"
    for v hi lo and k :: "unit \<Rightarrow> written"
    using checkInt_in [OF that, of i 1 b] assms by simp
  have neg: "lebytes 1 (if v < 0 then 0xFF + v + 1 else v) = lebytes 1 v"
    by (rule lebytes_cong) (simp add: mod_eq_dvd_iff)
  show "0 \<le> v \<Longrightarrow> v \<le> 0xFF \<Longrightarrow> writeUInt8 v (int i) na b = Inr (overwrite b i (lebytes 1 v), int i + 1)"
    "- 0x80 \<le> v \<Longrightarrow> v \<le> 0x7F \<Longrightarrow> writeInt8 v (int i) na b = Inr (overwrite b i (lebytes 1 v), int i + 1)"
    unfolding writeUInt8_def writeInt8_def i Let_def p neg by (simp_all add: c)
qed

lemma write_16:
  assumes "i + 2 \<le> length b" "length b < 2 ^ 31"
  shows "0 \<le> v \<Longrightarrow> v \<le> 0xFFFF \<Longrightarrow>
      writeUInt16LE ta v (int i) na b = Inr (overwrite b i (lebytes 2 v), int i + 2)"
    and "0 \<le> v \<Longrightarrow> v \<le> 0xFFFF \<Longrightarrow>
      writeUInt16BE ta v (int i) na b = Inr (overwrite b i (rev (lebytes 2 v)), int i + 2)"
    and "- 0x8000 \<le> v \<Longrightarrow> v \<le> 0x7FFF \<Longrightarrow>
      writeInt16LE ta v (int i) na b = Inr (overwrite b i (lebytes 2 v), int i + 2)"
    and "- 0x8000 \<le> v \<Longrightarrow> v \<le> 0x7FFF \<Longrightarrow>
      writeInt16BE ta v (int i) na b = Inr (overwrite b i (rev (lebytes 2 v)), int i + 2)"
proof -
  have i: "int32 (int i) = int i" using assms by (intro int32_index) simp
  have c: "unless na (checkInt b v (int i) 2 hi lo) k = k ()" if "lo \<le> v" "v \<le> hi"
    for v hi lo and k :: "unit \<Rightarrow> written"
    using checkInt_in [OF that, of i 2 b] assms by simp
  note defs = writeUInt16LE_def writeUInt16BE_def writeInt16LE_def writeInt16BE_def
  show "0 \<le> v \<Longrightarrow> v \<le> 0xFFFF \<Longrightarrow>
      writeUInt16LE ta v (int i) na b = Inr (overwrite b i (lebytes 2 v), int i + 2)"
    "0 \<le> v \<Longrightarrow> v \<le> 0xFFFF \<Longrightarrow>
      writeUInt16BE ta v (int i) na b = Inr (overwrite b i (rev (lebytes 2 v)), int i + 2)"
    "- 0x8000 \<le> v \<Longrightarrow> v \<le> 0x7FFF \<Longrightarrow>
      writeInt16LE ta v (int i) na b = Inr (overwrite b i (lebytes 2 v), int i + 2)"
    "- 0x8000 \<le> v \<Longrightarrow> v \<le> 0x7FFF \<Longrightarrow>
      writeInt16BE ta v (int i) na b = Inr (overwrite b i (rev (lebytes 2 v)), int i + 2)"
    unfolding defs i Let_def typed_16 [OF assms(1)] objectWriteUInt16_bytes [OF assms(1)]
    by (simp_all add: c)
qed

lemma write_32:
  assumes "i + 4 \<le> length b" "length b < 2 ^ 31"
  shows "0 \<le> v \<Longrightarrow> v \<le> 0xFFFFFFFF \<Longrightarrow>
      writeUInt32LE ta v (int i) na b = Inr (overwrite b i (lebytes 4 v), int i + 4)"
    and "0 \<le> v \<Longrightarrow> v \<le> 0xFFFFFFFF \<Longrightarrow>
      writeUInt32BE ta v (int i) na b = Inr (overwrite b i (rev (lebytes 4 v)), int i + 4)"
    and "- 0x80000000 \<le> v \<Longrightarrow> v \<le> 0x7FFFFFFF \<Longrightarrow>
      writeInt32LE ta v (int i) na b = Inr (overwrite b i (lebytes 4 v), int i + 4)"
    and "- 0x80000000 \<le> v \<Longrightarrow> v \<le> 0x7FFFFFFF \<Longrightarrow>
      writeInt32BE ta v (int i) na b = Inr (overwrite b i (rev (lebytes 4 v)), int i + 4)"
proof -
  have i: "int32 (int i) = int i" using assms by (intro int32_index) simp
  have c: "unless na (checkInt b v (int i) 4 hi lo) k = k ()" if "lo \<le> v" "v \<le> hi"
    for v hi lo and k :: "unit \<Rightarrow> written"
    using checkInt_in [OF that, of i 4 b] assms by simp
  have neg: "lebytes 4 (if v < 0 then 0xFFFFFFFF + v + 1 else v) = lebytes 4 v"
    by (rule lebytes_cong) (simp add: mod_eq_dvd_iff)
  note defs = writeUInt32LE_def writeUInt32BE_def writeInt32LE_def writeInt32BE_def
  show "0 \<le> v \<Longrightarrow> v \<le> 0xFFFFFFFF \<Longrightarrow>
      writeUInt32LE ta v (int i) na b = Inr (overwrite b i (lebytes 4 v), int i + 4)"
    "0 \<le> v \<Longrightarrow> v \<le> 0xFFFFFFFF \<Longrightarrow>
      writeUInt32BE ta v (int i) na b = Inr (overwrite b i (rev (lebytes 4 v)), int i + 4)"
    "- 0x80000000 \<le> v \<Longrightarrow> v \<le> 0x7FFFFFFF \<Longrightarrow>
      writeInt32LE ta v (int i) na b = Inr (overwrite b i (lebytes 4 v), int i + 4)"
    "- 0x80000000 \<le> v \<Longrightarrow> v \<le> 0x7FFFFFFF \<Longrightarrow>
      writeInt32BE ta v (int i) na b = Inr (overwrite b i (rev (lebytes 4 v)), int i + 4)"
    unfolding defs i Let_def typed_32 [OF assms(1)] objectWriteUInt32_bytes [OF assms(1)] neg
    by (simp_all add: c)
qed

section \<open>The accessors of a given byte length\<close>

lemma readLE_loop_value:
  "i + Suc k + m \<le> length b \<Longrightarrow> readLE_loop b (int i) (int (Suc k + m)) (int k) mul (Num val)
     = (mul * 256 ^ m, Num (val + mul * 256 * leval (window b (i + Suc k) m)))"
proof (induction m arbitrary: k mul val)
  case 0
  then show ?case by (subst readLE_loop.simps) simp
next
  case (Suc m)
  have "at b (int i + (int k + 1)) = Num (uint (b ! (i + Suc k)))"
    using at_off [of i "Suc k" b] Suc.prems by (simp add: add.commute)
  moreover have "readLE_loop b (int i) (int (Suc (Suc k) + m)) (int (Suc k)) (mul * 256)
      (Num (val + mul * 256 * uint (b ! (i + Suc k))))
      = (mul * 256 * 256 ^ m, Num (val + mul * 256 * uint (b ! (i + Suc k))
           + mul * 256 * 256 * leval (window b (i + Suc (Suc k)) m)))"
    using Suc.prems by (intro Suc.IH) simp
  moreover have "window b (i + Suc k) (Suc m) = b ! (i + Suc k) # window b (i + Suc (Suc k)) m"
    using Suc.prems window_Suc [of "i + Suc k" m b] by simp
  ultimately show ?case
    by (subst readLE_loop.simps) (simp add: algebra_simps)
qed

lemma leval_append: "leval (xs @ ys) = leval xs + 256 ^ length xs * leval ys"
  by (induction xs) (simp_all add: algebra_simps)

lemma readBE_loop_value:
  "i + m \<le> length b \<Longrightarrow> readBE_loop b (int i) (int m) mul (Num val)
     = (mul * 256 ^ m, Num (val + mul * 256 * leval (rev (window b i m))))"
proof (induction m arbitrary: mul val)
  case 0
  then show ?case by (subst readBE_loop.simps) simp
next
  case (Suc m)
  have "at b (int i + int m) = Num (uint (b ! (i + m)))" using at_off [of i m b] Suc.prems by simp
  moreover have "readBE_loop b (int i) (int m) (mul * 256) (Num (val + mul * 256 * uint (b ! (i + m))))
      = (mul * 256 * 256 ^ m, Num (val + mul * 256 * uint (b ! (i + m)) + mul * 256 * 256 * leval (rev (window b i m))))"
    using Suc.prems by (intro Suc.IH) simp
  moreover have "window b i (Suc m) = window b i m @ [b ! (i + m)]"
    using Suc.prems by (simp add: window_def take_Suc_conv_app_nth)
  ultimately show ?case
    by (subst readBE_loop.simps) (simp add: algebra_simps)
qed

lemma check_read:
  "i + n \<le> length b \<Longrightarrow> unless na (checkOffset (int i) (int n) (int (length b))) k = k ()"
  by (simp add: checkOffset_in)

lemma read_var:
  assumes "0 < n" "n \<le> 6" "i + n \<le> length b" "length b < 2 ^ 31"
  shows "readUIntLE (int i) (int n) na b = Inr (Num (leval (window b i n)))"
    and "readUIntBE (int i) (int n) na b = Inr (Num (leval (rev (window b i n))))"
    and "readIntLE (int i) (int n) na b = Inr (Num (twos n (leval (window b i n))))"
    and "readIntBE (int i) (int n) na b = Inr (Num (twos n (leval (rev (window b i n)))))"
proof -
  obtain m where n: "n = Suc m" using assms(1) by (cases n) auto
  have i32: "int32 (int i) = int i" "int32 (int n) = int n"
    using assms by (auto intro!: int32_index)
  have at0: "at b (int i) = Num (uint (b ! i))" "at b (int i + int m) = Num (uint (b ! (i + m)))"
    using at_off [of i 0 b] at_off [of i m b] assms n by simp_all
  have le: "readLE_loop b (int i) (int n) 0 1 (at b (int i)) = (256 ^ m, Num (leval (window b i n)))"
    using readLE_loop_value [of i 0 m b 1 "uint (b ! i)"] assms n at0 by (simp add: window_Suc)
  have be: "readBE_loop b (int i) (int m) 1 (at b (int i + int m)) = (256 ^ m, Num (leval (rev (window b i n))))"
  proof -
    have "window b i n = window b i m @ [b ! (i + m)]"
      using assms n by (simp add: window_def take_Suc_conv_app_nth)
    then show ?thesis using readBE_loop_value [of i m b 1 "uint (b ! (i + m))"] assms n at0 by simp
  qed
  have c: "unless na (checkOffset (int i) (int n) (int (length b))) k = k ()" for k :: "unit \<Rightarrow> js_error + jsnum"
    by (rule check_read [OF assms(3)])
  have n1: "int n - 1 = int m" using n by simp
  have h: "256 ^ m * 0x80 = (2 :: int) ^ (8 * n - 1)"
    using n by (simp add: power_mult power_add)
  have p: "nat (8 * int n) = 8 * n" by simp
  show "readUIntLE (int i) (int n) na b = Inr (Num (leval (window b i n)))"
    "readUIntBE (int i) (int n) na b = Inr (Num (leval (rev (window b i n))))"
    unfolding readUIntLE_def readUIntBE_def i32 Let_def c n1 le be by simp_all
  show "readIntLE (int i) (int n) na b = Inr (Num (twos n (leval (window b i n))))"
    "readIntBE (int i) (int n) na b = Inr (Num (twos n (leval (rev (window b i n)))))"
    unfolding readIntLE_def readIntBE_def i32 Let_def c n1 le be by (simp_all add: h p twos_def)
qed

lemma div_pow_Suc: "(v :: int) div 256 ^ k div 256 = v div 256 ^ Suc k"
  by (simp add: zdiv_zmult2_eq [symmetric] mult.commute)

lemma overwrite_snoc:
  assumes "i + length ys < length b"
  shows "overwrite (b[i + length ys := x]) i ys = overwrite b i (ys @ [x])"
  using assms by (simp add: overwrite_def upd_conv_take_nth_drop)

lemma sdiv_nonneg: "0 \<le> v \<Longrightarrow> 0 < M \<Longrightarrow> (v :: int) sdiv M = v div M"
  by (simp add: signed_divide_int_def sgn_if)

lemma writeUIntLE_loop_bytes:
  "0 \<le> v \<Longrightarrow> i + Suc k + m \<le> length b \<Longrightarrow>
     writeUIntLE_loop v (int i) (int (Suc k + m)) (int k) (256 ^ k) b
       = overwrite b (i + Suc k) (lebytes m (v div 256 ^ Suc k))"
proof (induction m arbitrary: k b)
  case 0
  then show ?case by (subst writeUIntLE_loop.simps) simp
next
  case (Suc m)
  let ?x = "word_of_int (v div 256 ^ Suc k) :: byte"
  have "v sdiv 256 ^ Suc k = v div 256 ^ Suc k"
    using Suc.prems(1) by (intro sdiv_nonneg) simp_all
  then have "put b (int i + (int k + 1)) (jand (Num (v sdiv (256 ^ k * 256))) (Num 0xFF)) = b[i + Suc k := ?x]"
    using put_nat [of "i + Suc k" b] Suc.prems(2) low_byte by (simp add: algebra_simps)
  moreover have "writeUIntLE_loop v (int i) (int (Suc (Suc k) + m)) (int (Suc k)) (256 ^ Suc k) (b[i + Suc k := ?x])
      = overwrite (b[i + Suc k := ?x]) (i + Suc (Suc k)) (lebytes m (v div 256 ^ Suc (Suc k)))"
    using Suc.prems by (intro Suc.IH) simp_all
  ultimately show ?case
    using overwrite_Cons [of "i + Suc k" "lebytes m (v div 256 ^ Suc (Suc k))" b ?x] Suc.prems div_pow_Suc [of v "Suc k"]
    by (subst writeUIntLE_loop.simps) (simp add: mult.commute add.commute)
qed

lemma writeUIntBE_loop_bytes:
  "0 \<le> v \<Longrightarrow> i + k < length b \<Longrightarrow>
     writeUIntBE_loop v (int i) (int k) (256 ^ j) b = overwrite b i (rev (lebytes k (v div 256 ^ Suc j)))"
proof (induction k arbitrary: j b)
  case 0
  then show ?case by (subst writeUIntBE_loop.simps) simp
next
  case (Suc k)
  let ?x = "word_of_int (v div 256 ^ Suc j) :: byte"
  have "v sdiv 256 ^ Suc j = v div 256 ^ Suc j"
    using Suc.prems(1) by (intro sdiv_nonneg) simp_all
  then have "put b (int i + int k) (jand (Num (v sdiv (256 ^ j * 256))) (Num 0xFF)) = b[i + k := ?x]"
    using put_nat [of "i + k" b] Suc.prems(2) low_byte by (simp add: algebra_simps)
  moreover have "writeUIntBE_loop v (int i) (int k) (256 ^ Suc j) (b[i + k := ?x])
      = overwrite (b[i + k := ?x]) i (rev (lebytes k (v div 256 ^ Suc (Suc j))))"
    using Suc.prems by (intro Suc.IH) simp_all
  ultimately show ?case
    using overwrite_snoc [of i "rev (lebytes k (v div 256 ^ Suc (Suc j)))" b ?x] Suc.prems div_pow_Suc [of v "Suc j"]
    by (subst writeUIntBE_loop.simps) (simp add: mult.commute)
qed

text \<open>The borrow turns the truncated quotient into the floor.\<close>

lemma borrow:
  fixes v :: int
  assumes "0 < M"
  shows "v sdiv M - (if v < 0 \<and> v mod M \<noteq> 0 then 1 else 0) = v div M"
proof (cases "v < 0")
  case True
  have "(- v) mod M = 0 \<longleftrightarrow> v mod M = 0" by (simp add: mod_eq_0_iff_dvd)
  then have "v div M = (if v mod M = 0 then - ((- v) div M) else - ((- v) div M) - 1)"
    using zdiv_zminus1_eq_if [of M "- v"] assms by simp
  then show ?thesis using True assms by (simp add: signed_divide_int_def sgn_if)
next
  case False
  then show ?thesis using assms by (simp add: signed_divide_int_def sgn_if)
qed

lemma borrow_step:
  fixes v :: int
  shows "(if v < 0 \<and> (if v < 0 \<and> v mod 256 ^ k \<noteq> 0 then 1 else 0) = (0 :: int) \<and> v div 256 ^ k mod 256 \<noteq> 0
          then 1 else (if v < 0 \<and> v mod 256 ^ k \<noteq> 0 then 1 else 0))
         = (if v < 0 \<and> v mod 256 ^ Suc k \<noteq> 0 then 1 else (0 :: int))"
proof -
  define q where "q = v div 256 ^ k mod 256"
  define r where "r = v mod 256 ^ k"
  have nn: "0 \<le> q" "0 \<le> r" by (simp_all add: q_def r_def)
  have "v mod 256 ^ Suc k = 256 ^ k * q + r"
    unfolding power_Suc2 q_def r_def by (rule zmod_zmult2_eq) simp
  with nn have "v mod 256 ^ Suc k = 0 \<longleftrightarrow> q = 0 \<and> r = 0" by (simp add: add_nonneg_eq_0_iff)
  moreover have "(if N \<and> (if N \<and> \<not> R then 1 else 0) = (0 :: int) \<and> \<not> Q then 1 else (if N \<and> \<not> R then 1 else 0))
      = (if N \<and> \<not> (Q \<and> R) then 1 else (0 :: int))" for N Q R
    by (cases N; cases Q; cases R) simp_all
  ultimately show ?thesis unfolding q_def r_def by (simp only:)
qed

lemma signed_byte: "toUint8 (jand (jsub (jshr (Num q) 0) (Num s)) (Num 0xFF)) = word_of_int (q - s)"
proof -
  have "word_of_int (sint (word_of_int q :: 32 word)) = (word_of_int q :: byte)"
    by (rule bit_word_eqI) (auto simp: bit_simps)
  then show ?thesis by (simp add: jshr_def low_byte)
qed

definition borrowed :: "int \<Rightarrow> nat \<Rightarrow> int" where
  "borrowed v k = (if v < 0 \<and> v mod 256 ^ k \<noteq> 0 then 1 else 0)"

lemma borrowed_Suc:
  assumes "x = Num (uint (word_of_int (v div 256 ^ k) :: byte))"
  shows "(if v < 0 \<and> borrowed v k = 0 \<and> x \<noteq> Num 0 then 1 else borrowed v k) = borrowed v (Suc k)"
  using borrow_step [of v k] unfolding assms uint_byte borrowed_def by (simp only: jsnum.inject)

lemma borrowed_byte:
  "toUint8 (jand (jsub (jshr (Num (v sdiv 256 ^ k)) 0) (Num (borrowed v k))) (Num 0xFF)) = word_of_int (v div 256 ^ k)"
  using borrow [of "256 ^ k" v] by (simp only: signed_byte borrowed_def) simp

lemma writeIntLE_loop_bytes:
  "i + Suc k + m \<le> length b \<Longrightarrow> b ! (i + k) = word_of_int (v div 256 ^ k) \<Longrightarrow>
     writeIntLE_loop v (int i) (int (Suc k + m)) (int k) (256 ^ k) (borrowed v k) b
       = overwrite b (i + Suc k) (lebytes m (v div 256 ^ Suc k))"
proof (induction m arbitrary: k b)
  case 0
  then show ?case by (subst writeIntLE_loop.simps) simp
next
  case (Suc m)
  let ?x = "word_of_int (v div 256 ^ Suc k) :: byte"
  have "at b (int i + (int k + 1) - 1) = Num (uint (word_of_int (v div 256 ^ k) :: byte))"
    using at_off [of i k b] Suc.prems by simp
  note sub = borrowed_Suc [OF this]
  have p: "put b (int i + (int k + 1)) (jand (jsub (jshr (Num (v sdiv (256 ^ k * 256))) 0) (Num (borrowed v (Suc k)))) (Num 0xFF))
      = b[i + Suc k := ?x]"
    using put_nat [of "i + Suc k" b] Suc.prems(1) borrowed_byte [of v "Suc k"] by (simp add: algebra_simps)
  have "writeIntLE_loop v (int i) (int (Suc (Suc k) + m)) (int (Suc k)) (256 ^ Suc k) (borrowed v (Suc k)) (b[i + Suc k := ?x])
      = overwrite (b[i + Suc k := ?x]) (i + Suc (Suc k)) (lebytes m (v div 256 ^ Suc (Suc k)))"
    using Suc.prems by (intro Suc.IH) simp_all
  also have "\<dots> = overwrite b (i + Suc k) (lebytes (Suc m) (v div 256 ^ Suc k))"
    using overwrite_Cons [of "i + Suc k" "lebytes m (v div 256 ^ Suc (Suc k))" b ?x] Suc.prems(1) div_pow_Suc [of v "Suc k"]
    by simp
  finally show ?case
    by (subst writeIntLE_loop.simps) (simp only: Let_def sub p, simp add: mult.commute add.commute)
qed

lemma writeIntBE_loop_bytes:
  "i + k < length b \<Longrightarrow> b ! (i + k) = word_of_int (v div 256 ^ j) \<Longrightarrow>
     writeIntBE_loop v (int i) (int k) (256 ^ j) (borrowed v j) b = overwrite b i (rev (lebytes k (v div 256 ^ Suc j)))"
proof (induction k arbitrary: j b)
  case 0
  then show ?case by (subst writeIntBE_loop.simps) simp
next
  case (Suc k)
  let ?x = "word_of_int (v div 256 ^ Suc j) :: byte"
  have "at b (int i + (int (Suc k) - 1) + 1) = Num (uint (word_of_int (v div 256 ^ j) :: byte))"
    using at_off [of i "Suc k" b] Suc.prems by (simp add: ac_simps)
  note sub = borrowed_Suc [OF this]
  have p: "put b (int i + (int (Suc k) - 1)) (jand (jsub (jshr (Num (v sdiv (256 ^ j * 256))) 0) (Num (borrowed v (Suc j)))) (Num 0xFF))
      = b[i + k := ?x]"
    using put_nat [of "i + k" b] Suc.prems(1) borrowed_byte [of v "Suc j"] by (simp add: algebra_simps)
  have "writeIntBE_loop v (int i) (int k) (256 ^ Suc j) (borrowed v (Suc j)) (b[i + k := ?x])
      = overwrite (b[i + k := ?x]) i (rev (lebytes k (v div 256 ^ Suc (Suc j))))"
    using Suc.prems by (intro Suc.IH) simp_all
  also have "\<dots> = overwrite b i (rev (lebytes (Suc k) (v div 256 ^ Suc j)))"
    using overwrite_snoc [of i "rev (lebytes k (v div 256 ^ Suc (Suc j)))" b ?x] Suc.prems(1) div_pow_Suc [of v "Suc j"]
    by simp
  finally show ?case
    by (subst writeIntBE_loop.simps) (simp only: Let_def sub p, simp add: mult.commute)
qed

lemma pow2_width: "(2 :: int) ^ nat (8 * int n) = 256 ^ n"
  by (simp add: power_mult nat_mult_distrib)

lemma write_var:
  assumes "0 < n" "n \<le> 6" "i + n \<le> length b" "length b < 2 ^ 31"
  shows "0 \<le> v \<Longrightarrow> v < 256 ^ n \<Longrightarrow>
      writeUIntLE v (int i) (int n) na b = Inr (overwrite b i (lebytes n v), int i + int n)"
    and "0 \<le> v \<Longrightarrow> v < 256 ^ n \<Longrightarrow>
      writeUIntBE v (int i) (int n) na b = Inr (overwrite b i (rev (lebytes n v)), int i + int n)"
    and "- (2 ^ (8 * n - 1)) \<le> v \<Longrightarrow> v < 2 ^ (8 * n - 1) \<Longrightarrow>
      writeIntLE v (int i) (int n) na b = Inr (overwrite b i (lebytes n v), int i + int n)"
    and "- (2 ^ (8 * n - 1)) \<le> v \<Longrightarrow> v < 2 ^ (8 * n - 1) \<Longrightarrow>
      writeIntBE v (int i) (int n) na b = Inr (overwrite b i (rev (lebytes n v)), int i + int n)"
proof -
  obtain m where n: "n = Suc m" using assms(1) by (cases n) auto
  have i32: "int32 (int i) = int i" "int32 (int n) = int n"
    using assms by (auto intro!: int32_index)
  have c: "unless na (checkInt b v (int i) (int n) hi lo) k = k ()" if "lo \<le> v" "v \<le> hi"
    for hi lo and k :: "unit \<Rightarrow> written"
    using checkInt_in [OF that assms(3)] by simp
  have n1: "int n - 1 = int m" and im: "int i + int m = int (i + m)" using n by simp_all
  have p8: "nat (8 * int n - 1) = 8 * n - 1" using n by simp
  let ?w = "word_of_int v :: byte"
  have put0: "put b (int i) (jand (Num v) (Num 0xFF)) = b[i := ?w]"
    "put b (int (i + m)) (jand (Num v) (Num 0xFF)) = b[i + m := ?w]"
    using put_nat [of i b] put_nat [of "i + m" b] assms n low_byte by simp_all
  have le: "overwrite (b[i := ?w]) (i + 1) (lebytes m (v div 256)) = overwrite b i (lebytes n v)"
    using overwrite_Cons [of i "lebytes m (v div 256)" b ?w] assms n by simp
  have be: "overwrite (b[i + m := ?w]) i (rev (lebytes m (v div 256))) = overwrite b i (rev (lebytes n v))"
    using overwrite_snoc [of i "rev (lebytes m (v div 256))" b ?w] assms n by simp
  have b0: "borrowed v 0 = 0" by (simp add: borrowed_def)
  show "0 \<le> v \<Longrightarrow> v < 256 ^ n \<Longrightarrow>
      writeUIntLE v (int i) (int n) na b = Inr (overwrite b i (lebytes n v), int i + int n)"
    using writeUIntLE_loop_bytes [of v i 0 m "b[i := ?w]"] assms n le
    unfolding writeUIntLE_def i32 Let_def pow2_width put0 by (simp add: c)
  show "0 \<le> v \<Longrightarrow> v < 256 ^ n \<Longrightarrow>
      writeUIntBE v (int i) (int n) na b = Inr (overwrite b i (rev (lebytes n v)), int i + int n)"
    using writeUIntBE_loop_bytes [of v i m "b[i + m := ?w]" 0] assms n be
    unfolding writeUIntBE_def i32 Let_def pow2_width n1 im put0 by (simp add: c)
  show "- (2 ^ (8 * n - 1)) \<le> v \<Longrightarrow> v < 2 ^ (8 * n - 1) \<Longrightarrow>
      writeIntLE v (int i) (int n) na b = Inr (overwrite b i (lebytes n v), int i + int n)"
    using writeIntLE_loop_bytes [of i 0 m "b[i := ?w]" v] assms n le b0
    unfolding writeIntLE_def i32 Let_def p8 put0 by (simp add: c)
  show "- (2 ^ (8 * n - 1)) \<le> v \<Longrightarrow> v < 2 ^ (8 * n - 1) \<Longrightarrow>
      writeIntBE v (int i) (int n) na b = Inr (overwrite b i (rev (lebytes n v)), int i + int n)"
    using writeIntBE_loop_bytes [of i m "b[i + m := ?w]" v 0] assms n be b0
    unfolding writeIntBE_def i32 Let_def p8 n1 im put0 by (simp add: c)
qed

section \<open>The contract of an accessor\<close>

locale int_codec =
  fixes fetch :: "int \<Rightarrow> buffer \<Rightarrow> js_error + jsnum"
    and store :: "int \<Rightarrow> int \<Rightarrow> buffer \<Rightarrow> written"
    and width :: nat and lo :: int and hi :: int
    and enc :: "int \<Rightarrow> buffer" and dec :: "buffer \<Rightarrow> int"
  assumes enc_length: "length (enc v) = width"
    and dec_enc: "lo \<le> v \<Longrightarrow> v \<le> hi \<Longrightarrow> dec (enc v) = v"
    and read_at: "i + width \<le> length b \<Longrightarrow> length b < 2 ^ 31 \<Longrightarrow>
      fetch (int i) b = Inr (Num (dec (window b i width)))"
    and write_at: "lo \<le> v \<Longrightarrow> v \<le> hi \<Longrightarrow> i + width \<le> length b \<Longrightarrow> length b < 2 ^ 31 \<Longrightarrow>
      store v (int i) b = Inr (overwrite b i (enc v), int i + int width)"
    and read_out: "length b < i + width \<Longrightarrow> i < 2 ^ 31 \<Longrightarrow> fetch (int i) b = Inl RangeError"
    and write_out: "v < lo \<or> hi < v \<or> length b < i + width \<Longrightarrow> i < 2 ^ 31 \<Longrightarrow>
      store v (int i) b = Inl RangeError"
begin

lemma write_read:
  assumes "lo \<le> v" "v \<le> hi" "i + width \<le> length b" "length b < 2 ^ 31"
    and "store v (int i) b = Inr (b', j)"
  shows "j = int (i + width)" and "length b' = length b" and "fetch (int i) b' = Inr (Num v)"
proof -
  from write_at [OF assms(1-4)] assms(5)
  have b': "b' = overwrite b i (enc v)" and "j = int i + int width" by simp_all
  then show "j = int (i + width)" by simp
  show l: "length b' = length b" using assms(3) b' length_overwrite enc_length by simp
  have "window b' i width = enc v" using assms(3) b' window_overwrite enc_length by simp
  with read_at [of i b'] l assms dec_enc show "fetch (int i) b' = Inr (Num v)" by simp
qed

lemma write_keeps:
  assumes "lo \<le> v" "v \<le> hi" "i + width \<le> length b" "length b < 2 ^ 31"
    and "store v (int i) b = Inr (b', j)" and "p < length b" and "p < i \<or> i + width \<le> p"
  shows "b' ! p = b ! p"
proof -
  have "b' = overwrite b i (enc v)" using write_at [OF assms(1-4)] assms(5) by simp
  moreover have "window (overwrite b i (enc v)) p 1 = window b p 1"
    using assms(3,7) enc_length by (intro window_overwrite_other) auto
  moreover have "length (overwrite b i (enc v)) = length b"
    using assms(3) enc_length by (intro length_overwrite) simp
  ultimately show ?thesis using assms(6) by (simp add: window_1)
qed

end

section \<open>The accessors as one family\<close>

datatype len = L1 | L2 | L3 | L4 | L5 | L6

fun bytes_of :: "len \<Rightarrow> nat" where
  "bytes_of L1 = 1" | "bytes_of L2 = 2" | "bytes_of L3 = 3"
| "bytes_of L4 = 4" | "bytes_of L5 = 5" | "bytes_of L6 = 6"

text \<open>The Boolean is \<open>True\<close> for the little-endian variant.\<close>

datatype kind =
    UInt8 | Int8 | UInt16 bool | Int16 bool | UInt32 bool | Int32 bool | UInt bool len | SInt bool len

fun width_of :: "kind \<Rightarrow> nat" where
  "width_of UInt8 = 1" | "width_of Int8 = 1" | "width_of (UInt16 le) = 2" | "width_of (Int16 le) = 2"
| "width_of (UInt32 le) = 4" | "width_of (Int32 le) = 4"
| "width_of (UInt le n) = bytes_of n" | "width_of (SInt le n) = bytes_of n"

fun unsigned_kind :: "kind \<Rightarrow> bool" where
  "unsigned_kind UInt8 = True" | "unsigned_kind Int8 = False"
| "unsigned_kind (UInt16 le) = True" | "unsigned_kind (Int16 le) = False"
| "unsigned_kind (UInt32 le) = True" | "unsigned_kind (Int32 le) = False"
| "unsigned_kind (UInt le n) = True" | "unsigned_kind (SInt le n) = False"

fun little :: "kind \<Rightarrow> bool" where
  "little UInt8 = True" | "little Int8 = True" | "little (UInt16 le) = le" | "little (Int16 le) = le"
| "little (UInt32 le) = le" | "little (Int32 le) = le" | "little (UInt le n) = le" | "little (SInt le n) = le"

definition least :: "kind \<Rightarrow> int" where
  "least k = (if unsigned_kind k then 0 else - (2 ^ (8 * width_of k - 1)))"

definition greatest :: "kind \<Rightarrow> int" where
  "greatest k = (if unsigned_kind k then 2 ^ (8 * width_of k) - 1 else 2 ^ (8 * width_of k - 1) - 1)"

definition enc_of :: "kind \<Rightarrow> int \<Rightarrow> buffer" where
  "enc_of k v = order (little k) (lebytes (width_of k) v)"

definition dec_of :: "kind \<Rightarrow> buffer \<Rightarrow> int" where
  "dec_of k bs = (let x = leval (order (little k) bs) in if unsigned_kind k then x else twos (width_of k) x)"

fun read_of :: "kind \<Rightarrow> int \<Rightarrow> bool \<Rightarrow> buffer \<Rightarrow> js_error + jsnum" where
  "read_of UInt8 = readUInt8"
| "read_of Int8 = readInt8"
| "read_of (UInt16 le) = (if le then readUInt16LE else readUInt16BE)"
| "read_of (Int16 le) = (if le then readInt16LE else readInt16BE)"
| "read_of (UInt32 le) = (if le then readUInt32LE else readUInt32BE)"
| "read_of (Int32 le) = (if le then readInt32LE else readInt32BE)"
| "read_of (UInt le n) = (\<lambda>i. (if le then readUIntLE else readUIntBE) i (int (bytes_of n)))"
| "read_of (SInt le n) = (\<lambda>i. (if le then readIntLE else readIntBE) i (int (bytes_of n)))"

fun write_of :: "bool \<Rightarrow> kind \<Rightarrow> int \<Rightarrow> int \<Rightarrow> bool \<Rightarrow> buffer \<Rightarrow> written" where
  "write_of ta UInt8 = writeUInt8"
| "write_of ta Int8 = writeInt8"
| "write_of ta (UInt16 le) = (if le then writeUInt16LE else writeUInt16BE) ta"
| "write_of ta (Int16 le) = (if le then writeInt16LE else writeInt16BE) ta"
| "write_of ta (UInt32 le) = (if le then writeUInt32LE else writeUInt32BE) ta"
| "write_of ta (Int32 le) = (if le then writeInt32LE else writeInt32BE) ta"
| "write_of ta (UInt le n) = (\<lambda>v i. (if le then writeUIntLE else writeUIntBE) v i (int (bytes_of n)))"
| "write_of ta (SInt le n) = (\<lambda>v i. (if le then writeIntLE else writeIntBE) v i (int (bytes_of n)))"

lemma bytes_of_bounds: "0 < bytes_of n" "bytes_of n \<le> 6"
  by (cases n; simp)+

lemma width_of_bounds: "0 < width_of k" "width_of k \<le> 6"
  using bytes_of_bounds by (cases k; simp)+

lemma read_of_in:
  assumes "i + width_of k \<le> length b" "length b < 2 ^ 31"
  shows "read_of k (int i) na b = Inr (Num (dec_of k (window b i (width_of k))))"
proof (cases k)
  case (UInt le n)
  with assms read_var [OF bytes_of_bounds, of i n b na] show ?thesis by (simp add: dec_of_def)
next
  case (SInt le n)
  with assms read_var [OF bytes_of_bounds, of i n b na] show ?thesis by (simp add: dec_of_def)
qed (use assms read_8 [of i b na] read_16 [of i b na] read_32 [of i b na] in \<open>simp_all add: dec_of_def\<close>)

lemma write_of_in:
  assumes "least k \<le> v" "v \<le> greatest k" "i + width_of k \<le> length b" "length b < 2 ^ 31"
  shows "write_of ta k v (int i) na b = Inr (overwrite b i (enc_of k v), int i + int (width_of k))"
proof (cases k)
  case (UInt le n)
  with assms write_var(1,2) [OF bytes_of_bounds, of i n b v na] show ?thesis
    by (auto simp: enc_of_def least_def greatest_def power_mult)
next
  case (SInt le n)
  with assms write_var(3,4) [OF bytes_of_bounds, of i n b v na] show ?thesis
    by (auto simp: enc_of_def least_def greatest_def)
qed (use assms write_8 [of i b v na] write_16 [of i b v ta na] write_32 [of i b v ta na] in
    \<open>auto simp: enc_of_def least_def greatest_def\<close>)

lemma read_of_out:
  assumes "length b < i + width_of k" "i < 2 ^ 31"
  shows "read_of k (int i) False b = Inl RangeError"
proof -
  have i: "int32 (int i) = int i" by (rule int32_index [OF assms(2)])
  have n: "int32 (int (bytes_of n)) = int (bytes_of n)" for n by (cases n) (simp_all add: int32_id)
  note defs = readUInt8_def readInt8_def readUInt16LE_def readUInt16BE_def readInt16LE_def readInt16BE_def
    readUInt32LE_def readUInt32BE_def readInt32LE_def readInt32BE_def readUIntLE_def readUIntBE_def
    readIntLE_def readIntBE_def
  show ?thesis
    using assms(1) checkOffset_out [of b i "width_of k"]
    by (cases k) (simp_all add: defs i n)
qed

lemma write_of_out:
  assumes "v < least k \<or> greatest k < v \<or> length b < i + width_of k" "i < 2 ^ 31"
  shows "write_of ta k v (int i) False b = Inl RangeError"
proof -
  have i: "int32 (int i) = int i" by (rule int32_index [OF assms(2)])
  have n: "int32 (int (bytes_of n)) = int (bytes_of n)" for n by (cases n) (simp_all add: int32_id)
  have p: "pow2 (8 * int (bytes_of n)) = 2 ^ (8 * bytes_of n)"
    "pow2 (8 * int (bytes_of n) - 1) = 2 ^ (8 * bytes_of n - 1)" for n by (cases n; simp)+
  note defs = writeUInt8_def writeInt8_def writeUInt16LE_def writeUInt16BE_def writeInt16LE_def writeInt16BE_def
    writeUInt32LE_def writeUInt32BE_def writeInt32LE_def writeInt32BE_def writeUIntLE_def writeUIntBE_def
    writeIntLE_def writeIntBE_def
  show ?thesis
    using assms(1) checkInt_out [of v "least k" "greatest k" b i "width_of k"]
    by (cases k) (simp_all add: defs i n p least_def greatest_def)
qed

lemma dec_of_enc_of:
  assumes "least k \<le> v" "v \<le> greatest k"
  shows "dec_of k (enc_of k v) = v"
proof -
  have "dec_of k (enc_of k v) =
      (if unsigned_kind k then v mod 256 ^ width_of k else twos (width_of k) (v mod 256 ^ width_of k))"
    by (simp add: dec_of_def enc_of_def Let_def leval_lebytes)
  also have "\<dots> = v"
  proof (cases "unsigned_kind k")
    case True
    with assms show ?thesis by (simp add: least_def greatest_def power_mult)
  next
    case False
    with assms show ?thesis
      using twos_mod [OF width_of_bounds(1), of k v] by (simp add: least_def greatest_def)
  qed
  finally show ?thesis .
qed

interpretation accessor: int_codec "\<lambda>i b. read_of k i False b" "\<lambda>v i b. write_of ta k v i False b"
    "width_of k" "least k" "greatest k" "enc_of k" "dec_of k"
  for k ta
proof unfold_locales
  show "length (enc_of k v) = width_of k" for v by (simp add: enc_of_def)
qed (use dec_of_enc_of read_of_in write_of_in read_of_out write_of_out in blast)+

section \<open>Records\<close>

text \<open>A record is a sequence of fields, written one after the other and read the same way.\<close>

fun writeAll :: "bool \<Rightarrow> (kind \<times> int) list \<Rightarrow> int \<Rightarrow> buffer \<Rightarrow> written" where
  "writeAll ta [] i b = Inr (b, i)"
| "writeAll ta ((k, v) # fs) i b = bindR (write_of ta k v i False b) (\<lambda>(b, j). writeAll ta fs j b)"

fun readAll :: "kind list \<Rightarrow> int \<Rightarrow> buffer \<Rightarrow> js_error + jsnum list" where
  "readAll [] i b = Inr []"
| "readAll (k # ks) i b = bindR (read_of k i False b) (\<lambda>v.
     bindR (readAll ks (i + int (width_of k)) b) (\<lambda>vs. Inr (v # vs)))"

definition fields_width :: "(kind \<times> int) list \<Rightarrow> nat" where
  "fields_width fs = sum_list (map (width_of \<circ> fst) fs)"

definition in_range :: "(kind \<times> int) list \<Rightarrow> bool" where
  "in_range fs \<longleftrightarrow> list_all (\<lambda>(k, v). least k \<le> v \<and> v \<le> greatest k) fs"

lemma writeAll_readAll:
  assumes "in_range fs" "i + fields_width fs \<le> length b" "length b < 2 ^ 31"
  shows "\<exists>b'. writeAll ta fs (int i) b = Inr (b', int (i + fields_width fs)) \<and> length b' = length b \<and>
    (\<forall>p < length b. p < i \<or> i + fields_width fs \<le> p \<longrightarrow> b' ! p = b ! p) \<and>
    readAll (map fst fs) (int i) b' = Inr (map (Num \<circ> snd) fs)"
  using assms
proof (induction fs arbitrary: i b)
  case Nil
  then show ?case by (simp add: fields_width_def)
next
  case (Cons f fs)
  obtain k v where f: "f = (k, v)" by (cases f)
  let ?w = "width_of k"
  have r: "least k \<le> v" "v \<le> greatest k" "i + ?w \<le> length b" "in_range fs"
    using Cons.prems f by (auto simp: in_range_def fields_width_def)
  obtain b1 where w: "write_of ta k v (int i) False b = Inr (b1, int i + int ?w)"
    using accessor.write_at [OF r(1-3) Cons.prems(3)] by blast
  note wr = accessor.write_read [OF r(1-3) Cons.prems(3) w]
  note keep = accessor.write_keeps [OF r(1-3) Cons.prems(3) w]
  have "i + ?w + fields_width fs \<le> length b1"
    using Cons.prems(2) f wr(2) by (simp add: fields_width_def)
  with Cons.IH [OF r(4), of "i + ?w" b1] Cons.prems(3) wr(2)
  obtain b' where b': "writeAll ta fs (int (i + ?w)) b1 = Inr (b', int (i + ?w + fields_width fs))"
    "length b' = length b" "\<forall>p < length b. p < i + ?w \<or> i + ?w + fields_width fs \<le> p \<longrightarrow> b' ! p = b1 ! p"
    "readAll (map fst fs) (int (i + ?w)) b' = Inr (map (Num \<circ> snd) fs)"
    by auto
  have fw: "fields_width (f # fs) = ?w + fields_width fs" by (simp add: fields_width_def f)
  have "window b' i ?w = window b1 i ?w"
    using b'(2,3) r(3) wr(2) by (intro nth_equalityI) (auto simp: window_def)
  then have "read_of k (int i) False b' = Inr (Num v)"
    using wr(3) b'(2) wr(2) r(3) Cons.prems(3) by (simp add: read_of_in)
  then have "readAll (map fst (f # fs)) (int i) b' = Inr (map (Num \<circ> snd) (f # fs))"
    using b'(4) by (simp add: f)
  moreover have "writeAll ta (f # fs) (int i) b = Inr (b', int (i + fields_width (f # fs)))"
    using w b'(1) fw [unfolded f] by (simp add: f add.assoc)
  moreover have "\<forall>p < length b. p < i \<or> i + fields_width (f # fs) \<le> p \<longrightarrow> b' ! p = b ! p"
  proof (intro allI impI)
    fix p
    assume p: "p < length b" "p < i \<or> i + fields_width (f # fs) \<le> p"
    then have "p < i + ?w \<or> i + ?w + fields_width fs \<le> p" using fw by auto
    with b'(3) p(1) have "b' ! p = b1 ! p" by blast
    also have "\<dots> = b ! p" using p fw by (intro keep) auto
    finally show "b' ! p = b ! p" .
  qed
  ultimately show ?case using b'(2) by blast
qed

text \<open>
  C16: records survive. Fields of any integer kinds, with values in the range of their kind,
  written one after the other into a buffer that has room for them, all succeed, leave the
  bytes before and behind them alone, and read back as the values that were written.
\<close>

theorem record_roundtrip:
  assumes "in_range fs" and "i + fields_width fs \<le> length b" and "length b < 2 ^ 31"
  shows "\<exists>b'. writeAll ta fs (int i) b = Inr (b', int (i + fields_width fs)) \<and> length b' = length b \<and>
    (\<forall>p < length b. p < i \<or> i + fields_width fs \<le> p \<longrightarrow> b' ! p = b ! p) \<and>
    readAll (map fst fs) (int i) b' = Inr (map (Num \<circ> snd) fs)"
  using assms by (rule writeAll_readAll)

definition example_fields :: "(kind \<times> int) list" where
  "example_fields = [(UInt32 False, 0xDEADBEEF), (SInt True L3, - 5), (Int16 True, - 2), (UInt8, 255)]"

theorem record_roundtrip_witness:
  "\<exists>b'. writeAll True example_fields 2 (replicate 16 7) = Inr (b', 12) \<and> length b' = 16 \<and>
     b' ! 0 = 7 \<and> b' ! 13 = 7 \<and>
     readAll (map fst example_fields) 2 b' = Inr [Num 0xDEADBEEF, Num (- 5), Num (- 2), Num 255]"
proof -
  have r: "in_range example_fields" by (simp add: in_range_def example_fields_def least_def greatest_def)
  have w: "fields_width example_fields = 10" by (simp add: fields_width_def example_fields_def)
  have m: "map (Num \<circ> snd) example_fields = [Num 0xDEADBEEF, Num (- 5), Num (- 2), Num 255]"
    by (simp add: example_fields_def)
  from record_roundtrip [OF r, of 2 "replicate 16 7" True] w m show ?thesis by auto
qed



text \<open>
  C18: for an offset from 0 to \<open>2 ^ 31 - 1\<close>, the checks keep every access inside the buffer. Unless
  they are switched off, reading a field that would end behind the buffer raises a \<open>RangeError\<close>,
  and so does writing one there or writing a value outside the range of its kind. (An offset of
  \<open>2 ^ 31\<close> or more wraps in \<open>offset | 0\<close> before the writers check it, see \<open>write_wrapped_offset\<close>.)
\<close>

theorem accessors_out_of_range:
  assumes "i < 2 ^ 31"
  shows "(length b < i + width_of k \<longrightarrow> read_of k (int i) False b = Inl RangeError) \<and>
    (v < least k \<or> greatest k < v \<or> length b < i + width_of k \<longrightarrow>
       write_of ta k v (int i) False b = Inl RangeError)"
  using accessor.read_out [OF _ assms] accessor.write_out [OF _ assms] by blast

theorem accessors_out_of_range_witness:
  "read_of (UInt32 True) 3 False [1, 2, 3, 4, 5, 6] = Inl RangeError \<and>
   write_of True UInt8 256 0 False [1, 2, 3, 4, 5, 6] = Inl RangeError"
  using accessors_out_of_range [of 3 "[1, 2, 3, 4, 5, 6]" "UInt32 True" 0 True]
    accessors_out_of_range [of 0 "[1, 2, 3, 4, 5, 6]" UInt8 256 True]
  by (simp add: greatest_def)

text \<open>
  The checks of the writers do not reject a negative index: nothing is written and no
  exception is raised.
\<close>

lemma write_negative_offset:
  assumes "0 \<le> v" "v \<le> 0xFF"
  shows "writeUInt8 v (- 1) False b = Inr (b, 0)"
  using assms by (simp add: writeUInt8_def checkInt_def put_def int32_id)

text \<open>
  Nor does it help against a large index, which \<open>offset | 0\<close> wraps before the check: \<open>2 ^ 32\<close> writes
  byte 0 of the buffer, and \<open>2 ^ 31\<close> writes nothing and returns a negative offset.
\<close>

lemma write_wrapped_offset:
  assumes "0 \<le> v" "v \<le> 0xFF"
  shows "b \<noteq> [] \<Longrightarrow> writeUInt8 v (2 ^ 32) False b = Inr (b[0 := word_of_int v], 1)"
    and "writeUInt8 v (2 ^ 31) False b = Inr (b, 1 - 2 ^ 31)"
proof -
  have w: "int32 (2 ^ 32) = 0" "int32 (2 ^ 31) = - (2 ^ 31)" by (simp_all add: int32_def int_word_sint)
  have v: "jand (Num v) (Num 0xFF) = Num v" using assms jand_mask [of v 8] by simp
  show "writeUInt8 v (2 ^ 32) False b = Inr (b[0 := word_of_int v], 1)" if "b \<noteq> []"
    using that assms unfolding writeUInt8_def w Let_def v
    by (cases b) (simp_all add: checkInt_def put_def)
  show "writeUInt8 v (2 ^ 31) False b = Inr (b, 1 - 2 ^ 31)"
    using assms unfolding writeUInt8_def w Let_def by (simp add: checkInt_def put_def)
qed

end
