(* ===== verification/Base64.thy ===== *)
theory Base64
  imports Js
begin

text \<open>
  The base64 codec of the bundle, \<open>script.js\<close> module 365 (base64-js): \<open>byteLength\<close>,
  \<open>toByteArray\<close> and \<open>fromByteArray\<close>. Decoding writes into an array allocated beforehand, and
  a character outside the alphabet reads as \<open>undefined\<close>, which the shifts turn into 0. The
  lemmas show that decoding inverts encoding for every byte array, how long an encoding is,
  and which strings are rejected.
\<close>

section \<open>The alphabet\<close>

definition alphabet :: string where
  "alphabet = ''ABCDEFGHIJKLMNOPQRSTUVWXYZabcdefghijklmnopqrstuvwxyz0123456789+/''"

definition lookup :: js_string where
  "lookup = lit alphabet"

fun index_of :: "'a \<Rightarrow> 'a list \<Rightarrow> nat option" where
  "index_of x [] = None"
| "index_of x (y # ys) = (if x = y then Some 0 else map_option Suc (index_of x ys))"

text \<open>The table \<open>revLookup\<close>, with the two URL-safe characters assigned last.\<close>

definition revLookup :: "code_unit \<Rightarrow> jsnum" where
  "revLookup c =
     (if c = 0x5F then Num 63
      else if c = 0x2D then Num 62
      else case index_of c lookup of Some i \<Rightarrow> Num (int i) | None \<Rightarrow> Undef)"

text \<open>\<open>revLookup[b64.charCodeAt(i)]\<close> and \<open>lookup[n]\<close> inside a string concatenation.\<close>

definition revAt :: "js_string \<Rightarrow> nat \<Rightarrow> jsnum" where
  "revAt b64 i = (if i < length b64 then revLookup (b64 ! i) else Undef)"

fun lookupAt :: "jsnum \<Rightarrow> js_string" where
  "lookupAt (Num n) = (if 0 \<le> n \<and> n < 64 then [lookup ! nat n] else lit ''undefined'')"
| "lookupAt _ = lit ''undefined''"

section \<open>Decoding\<close>

definition getLens :: "js_string \<Rightarrow> js_error + nat \<times> nat" where
  "getLens b64 =
     (let len = length b64 in
      if len mod 4 > 0 then Inl PlainError
      else let validLen = (case index_of 0x3D b64 of None \<Rightarrow> len | Some i \<Rightarrow> i);
               placeHoldersLen = (if validLen = len then 0 else 4 - validLen mod 4)
        in Inr (validLen, placeHoldersLen))"

text \<open>The exported \<open>byteLength\<close> and the internal \<open>_byteLength\<close>, each with its own formula. The
  quotients are exact: \<open>validLen + placeHoldersLen\<close> is a multiple of 4.\<close>

definition byteLength :: "js_string \<Rightarrow> js_error + int" where
  "byteLength b64 =
     bindR (getLens b64) (\<lambda>(validLen, placeHoldersLen).
       Inr ((int validLen + int placeHoldersLen) * 3 div 4 - int placeHoldersLen))"

definition byteLength_of :: "nat \<Rightarrow> nat \<Rightarrow> int" where
  "byteLength_of validLen placeHoldersLen =
     (int validLen + int placeHoldersLen) * 3 div 4 - int placeHoldersLen"

definition quad :: "js_string \<Rightarrow> nat \<Rightarrow> jsnum" where
  "quad b64 i =
     jor (jor (jor (jshl (revAt b64 i) 18) (jshl (revAt b64 (i + 1)) 12)) (jshl (revAt b64 (i + 2)) 6))
       (revAt b64 (i + 3))"

text \<open>The loop over complete groups of four characters; the index \<open>i\<close> is left for the tail.\<close>

function toByteArray_loop :: "js_string \<Rightarrow> int \<Rightarrow> nat \<Rightarrow> int \<Rightarrow> buffer \<Rightarrow> nat \<times> int \<times> buffer" where
  "toByteArray_loop b64 len i curByte arr =
     (if int i < len then
        let tmp = quad b64 i;
            arr = put arr curByte (jand (jshr tmp 16) (Num 0xFF));
            arr = put arr (curByte + 1) (jand (jshr tmp 8) (Num 0xFF));
            arr = put arr (curByte + 2) (jand tmp (Num 0xFF))
        in toByteArray_loop b64 len (i + 4) (curByte + 3) arr
      else (i, curByte, arr))"
  by pat_completeness auto
termination
  by (relation "measure (\<lambda>(b64, len, i, curByte, arr). nat (len - int i))") auto

declare toByteArray_loop.simps [simp del]

definition toByteArray :: "js_string \<Rightarrow> js_error + buffer" where
  "toByteArray b64 =
     bindR (getLens b64) (\<lambda>(validLen, placeHoldersLen).
       let n = byteLength_of validLen placeHoldersLen in
       if n < 0 then Inl RangeError
       else let arr = replicate (nat n) 0;
                len = (if placeHoldersLen > 0 then int validLen - 4 else int validLen);
                (i, curByte, arr) = toByteArray_loop b64 len 0 0 arr
         in if placeHoldersLen = 2 then
              (let tmp = jor (jshl (revAt b64 i) 2) (jshr (revAt b64 (i + 1)) 4)
               in Inr (put arr curByte (jand tmp (Num 0xFF))))
            else if placeHoldersLen = 1 then
              (let tmp = jor (jor (jshl (revAt b64 i) 10) (jshl (revAt b64 (i + 1)) 4))
                           (jshr (revAt b64 (i + 2)) 2);
                   arr = put arr curByte (jand (jshr tmp 8) (Num 0xFF))
               in Inr (put arr (curByte + 1) (jand tmp (Num 0xFF))))
            else Inr arr)"

section \<open>Encoding\<close>

definition tripletToBase64 :: "jsnum \<Rightarrow> js_string" where
  "tripletToBase64 num =
     lookupAt (jand (jshr num 18) (Num 0x3F)) @ lookupAt (jand (jshr num 12) (Num 0x3F)) @
     lookupAt (jand (jshr num 6) (Num 0x3F)) @ lookupAt (jand num (Num 0x3F))"

function encodeChunk :: "buffer \<Rightarrow> int \<Rightarrow> int \<Rightarrow> js_string" where
  "encodeChunk uint8 i end' =
     (if i < end' then
        let tmp = jadd (jadd (jand (jshl (at uint8 i) 16) (Num 0xFF0000))
                             (jand (jshl (at uint8 (i + 1)) 8) (Num 0xFF00)))
                       (jand (at uint8 (i + 2)) (Num 0xFF))
        in tripletToBase64 tmp @ encodeChunk uint8 (i + 3) end'
      else [])"
  by pat_completeness auto
termination
  by (relation "measure (\<lambda>(uint8, i, end'). nat (end' - i))") auto

declare encodeChunk.simps [simp del]

abbreviation maxChunkLength :: int where "maxChunkLength \<equiv> 16383"

function encodeParts :: "buffer \<Rightarrow> int \<Rightarrow> int \<Rightarrow> js_string" where
  "encodeParts uint8 len2 i =
     (if i < len2 then
        encodeChunk uint8 i (if i + maxChunkLength > len2 then len2 else i + maxChunkLength) @
        encodeParts uint8 len2 (i + maxChunkLength)
      else [])"
  by pat_completeness auto
termination
  by (relation "measure (\<lambda>(uint8, len2, i). nat (len2 - i))") auto

declare encodeParts.simps [simp del]

definition fromByteArray :: "buffer \<Rightarrow> js_string" where
  "fromByteArray uint8 =
     (let len = int (length uint8); extraBytes = len mod 3;
          parts = encodeParts uint8 (len - extraBytes) 0
      in if extraBytes = 1 then
           (let tmp = at uint8 (len - 1)
            in parts @ lookupAt (jshr tmp 2) @ lookupAt (jand (jshl tmp 4) (Num 0x3F)) @ lit ''=='')
         else if extraBytes = 2 then
           (let tmp = jadd (jshl (at uint8 (len - 2)) 8) (at uint8 (len - 1))
            in parts @ lookupAt (jshr tmp 10) @ lookupAt (jand (jshr tmp 4) (Num 0x3F)) @
               lookupAt (jand (jshl tmp 2) (Num 0x3F)) @ lit ''='')
         else parts)"

section \<open>Encoding by groups\<close>

text \<open>The reference encoding: three bytes are one number of 24 bits, written as four sextets.\<close>

definition sextet :: "int \<Rightarrow> code_unit" where
  "sextet n = lookup ! nat (n mod 64)"

declare lookupAt.simps [simp del]

definition triple :: "byte \<Rightarrow> byte \<Rightarrow> byte \<Rightarrow> int" where
  "triple x y z = uint x * 0x10000 + uint y * 0x100 + uint z"

definition four :: "int \<Rightarrow> js_string" where
  "four t = [sextet (t div 2 ^ 18), sextet (t div 2 ^ 12), sextet (t div 2 ^ 6), sextet t]"

fun encode :: "buffer \<Rightarrow> js_string" where
  "encode (x # y # z # r) = four (triple x y z) @ encode r"
| "encode [x, y] = [sextet (uint x div 4), sextet (uint x * 16 + uint y div 16), sextet (uint y * 4), 0x3D]"
| "encode [x] = [sextet (uint x div 4), sextet (uint x * 16), 0x3D, 0x3D]"
| "encode [] = []"

lemma byte_bounds: "0 \<le> uint (x :: byte)" "uint x < 256"
  using uint_bounded [of x] by simp_all

lemma triple_bounds: "0 \<le> triple x y z" "triple x y z < 2 ^ 24"
  using byte_bounds [of x] byte_bounds [of y] byte_bounds [of z] by (simp_all add: triple_def)

lemma lookupAt_sextet: "0 \<le> n \<Longrightarrow> lookupAt (Num (n mod 64)) = [sextet n]"
  by (simp add: sextet_def lookupAt.simps)

lemma sextet_mod [simp]: "sextet (n mod 64) = sextet n"
  by (simp add: sextet_def)

lemma lookupAt_small: "0 \<le> n \<Longrightarrow> n < 64 \<Longrightarrow> lookupAt (Num n) = [sextet n]"
  using lookupAt_sextet [of n] by simp

lemma jand_63: "0 \<le> a \<Longrightarrow> jand (Num a) (Num 63) = Num (a mod 64)"
  using jand_mask [of a 6] by simp

lemma jand_255: "0 \<le> a \<Longrightarrow> jand (Num a) (Num 255) = Num (a mod 256)"
  using jand_mask [of a 8] by simp

lemma tripletToBase64_four: "0 \<le> t \<Longrightarrow> t < 2 ^ 24 \<Longrightarrow> tripletToBase64 (Num t) = four t"
  by (simp add: tripletToBase64_def four_def jshr_small jand_63 lookupAt_sextet lookupAt_small)

lemma jand_shifted:
  assumes "0 \<le> a" "a < 256" "n \<le> 16"
  shows "jand (jshl (Num a) n) (Num (0xFF * 2 ^ n)) = Num (a * 2 ^ n)"
proof -
  have "(2::int) ^ n \<le> 2 ^ 16" using assms(3) by (intro power_increasing) simp_all
  then have p: "(2::int) ^ n \<le> 65536" by simp
  have "a * 2 ^ n \<le> 255 * 2 ^ n" using assms(2) by (intro mult_right_mono) simp_all
  with p have "a * 2 ^ n < 2147483648" "(255::int) * 2 ^ n < 2147483648" by linarith+
  moreover have "push_bit n a AND push_bit n 255 = push_bit n (a AND (255::int))"
    by (simp add: push_bit_and)
  moreover have "a AND 255 = a"
    using take_bit_int_eq_self [of a 8] assms by (simp add: take_bit_eq_mask mask_eq_exp_minus_1)
  ultimately show ?thesis using assms
    by (simp add: jshl_small jand_small push_bit_eq_mult)
qed

lemma encodeChunk_step:
  assumes "i + 2 < length b"
  shows "jadd (jadd (jand (jshl (at b (int i)) 16) (Num 0xFF0000)) (jand (jshl (at b (int i + 1)) 8) (Num 0xFF00)))
           (jand (at b (int i + 2)) (Num 0xFF)) = Num (triple (b ! i) (b ! (i + 1)) (b ! (i + 2)))"
proof -
  have e: "nat (int i + 1) = i + 1" "nat (int i + 2) = i + 2" by simp_all
  have "at b (int i) = Num (uint (b ! i))" "at b (int i + 1) = Num (uint (b ! (i + 1)))"
    "at b (int i + 2) = Num (uint (b ! (i + 2)))"
    using assms by (simp_all add: at_def e)
  moreover have "jand (jshl (Num (uint x)) 16) (Num 0xFF0000) = Num (uint x * 0x10000)"
    "jand (jshl (Num (uint x)) 8) (Num 0xFF00) = Num (uint x * 0x100)" for x :: byte
    using jand_shifted [of "uint x" 16] jand_shifted [of "uint x" 8] byte_bounds [of x] by simp_all
  moreover have "uint x mod 256 = uint x" for x :: byte using byte_bounds [of x] by simp
  ultimately show ?thesis by (simp add: triple_def jand_255)
qed

text \<open>Whole groups at the front are encoded on their own.\<close>

lemma encode_append: "length xs mod 3 = 0 \<Longrightarrow> encode (xs @ ys) = encode xs @ encode ys"
  by (induction xs rule: encode.induct) (simp_all add: mod_Suc split: if_splits)

lemma encodeChunk_encode:
  "i + 3 * n \<le> length b \<Longrightarrow> encodeChunk b (int i) (int (i + 3 * n)) = encode (take (3 * n) (drop i b))"
proof (induction n arbitrary: i)
  case 0
  then show ?case by (simp add: encodeChunk.simps)
next
  case (Suc n)
  from Suc.prems have "i < length b" "i + 1 < length b" "i + 2 < length b" by simp_all
  then have d: "drop i b = b ! i # b ! (i + 1) # b ! (i + 2) # drop (i + 3) b"
    by (simp add: Cons_nth_drop_Suc numeral_3_eq_3)
  have IH: "encodeChunk b (int i + 3) (int (i + 3 * Suc n)) = encode (take (3 * n) (drop (i + 3) b))"
    using Suc.IH [of "i + 3"] Suc.prems by (simp add: algebra_simps)
  have "encodeChunk b (int i) (int (i + 3 * Suc n)) =
      four (triple (b ! i) (b ! (i + 1)) (b ! (i + 2))) @ encode (take (3 * n) (drop (i + 3) b))"
    using encodeChunk_step [OF \<open>i + 2 < length b\<close>]
    by (subst encodeChunk.simps) (simp only: tripletToBase64_four triple_bounds IH Let_def, simp)
  also have "\<dots> = encode (take (3 * Suc n) (drop i b))"
    unfolding d by (simp add: numeral_3_eq_3)
  finally show ?case .
qed

lemma encodeParts_encode:
  "i + 3 * n \<le> length b \<Longrightarrow> encodeParts b (int (i + 3 * n)) (int i) = encode (take (3 * n) (drop i b))"
proof (induction n arbitrary: i rule: less_induct)
  case (less n)
  show ?case
  proof (cases "3 * n > 16383")
    case True
    define m where "m = n - 5461"
    have n: "n = 5461 + m" using True by (simp add: m_def)
    have c: "encodeChunk b (int i) (int i + 16383) = encode (take 16383 (drop i b))"
      using encodeChunk_encode [of i 5461 b] less.prems n by simp
    have IH: "encodeParts b (int (i + 3 * n)) (int i + 16383) = encode (take (3 * m) (drop (i + 16383) b))"
      using less.IH [of m "i + 16383"] less.prems n by (simp add: algebra_simps)
    have "take (3 * n) (drop i b) = take 16383 (drop i b) @ take (3 * m) (drop (i + 16383) b)"
      using take_add [of 16383 "3 * m" "drop i b"] by (simp add: n add.commute)
    moreover have "length (take 16383 (drop i b)) mod 3 = 0" using less.prems n by simp
    ultimately show ?thesis using True c IH
      by (subst encodeParts.simps) (simp add: encode_append)
  next
    case False
    have stop: "encodeParts b (int (i + 3 * n)) (int i + 16383) = []"
      using False by (subst encodeParts.simps) simp
    show ?thesis
    proof (cases "n = 0")
      case True
      then show ?thesis by (simp add: encodeParts.simps)
    next
      case nz: False
      show ?thesis
      proof (cases "3 * n = 16383")
        case True
        with nz stop encodeChunk_encode [OF less.prems] show ?thesis
          by (subst encodeParts.simps) simp
      next
        case lt: False
        with False have "int i + 16383 > int (i + 3 * n)" by simp
        with nz stop encodeChunk_encode [OF less.prems] show ?thesis
          by (subst encodeParts.simps) simp
      qed
    qed
  qed
qed

lemma lit_append: "lit (a @ b) = lit a @ lit b"
  by (simp add: lit_def)

lemma lit_padding: "lit ''=='' = [0x3D, 0x3D]" "lit ''='' = [0x3D]"
  by (simp_all add: lit_def)

lemma split_thirds:
  assumes "length b mod 3 = k"
  shows "length (take (length b - k) b) mod 3 = 0" and "length (drop (length b - k) b) = k"
proof -
  have "k \<le> length b" using assms by (metis mod_less_eq_dividend)
  then show "length (drop (length b - k) b) = k" by simp
  have "(length b - k) mod 3 = 0" using assms by (metis minus_mod_eq_mult_div mod_mult_self1_is_0)
  then show "length (take (length b - k) b) mod 3 = 0" by simp
qed

lemma lookupAt_div4: "lookupAt (Num (uint x div 4)) = [sextet (uint (x :: byte) div 4)]"
proof (rule lookupAt_small)
  show "0 \<le> uint x div 4" by (simp add: pos_imp_zdiv_nonneg_iff)
  show "uint x div 4 < 64" using byte_bounds(2) [of x] by linarith
qed

lemma pair_sextets:
  assumes "0 \<le> y" "y < 256"
  shows "sextet ((x * 256 + y) div 16) = sextet (x * 16 + y div 16)"
    and "sextet ((x * 256 + y) div 1024) = sextet (x div 4)"
    and "sextet ((x * 256 + y) * 4) = sextet (y * 4)"
proof -
  have "(x * 256 + y) div 16 = (y + x * 16 * 16) div 16" by (simp add: algebra_simps)
  also have "\<dots> = x * 16 + y div 16" by (subst div_mult_self1) simp_all
  finally have "(x * 256 + y) div 16 = x * 16 + y div 16" .
  then show "sextet ((x * 256 + y) div 16) = sextet (x * 16 + y div 16)" by simp
  have "(x * 256 + y) div (256 * 4) = x div 4" using assms by (subst zdiv_zmult2_eq) simp_all
  then show "sextet ((x * 256 + y) div 1024) = sextet (x div 4)" by simp
  have "(x * 256 + y) * 4 = y * 4 + x * 16 * 64" by simp
  then have "((x * 256 + y) * 4) mod 64 = (y * 4) mod 64" by (simp only: mod_mult_self1)
  then show "sextet ((x * 256 + y) * 4) = sextet (y * 4)" by (simp add: sextet_def)
qed

lemma fromByteArray_encode: "fromByteArray b = encode b"
proof -
  define k where "k = length b mod 3"
  define m where "m = length b div 3"
  have len: "length b = 3 * m + k" "k < 3" by (simp_all add: k_def m_def)
  have parts: "encodeParts b (int (length b) - int (length b) mod 3) 0 = encode (take (3 * m) b)"
  proof -
    have "int (length b) - int (length b) mod 3 = int (0 + 3 * m)"
      by (simp add: m_def minus_mod_eq_mult_div zdiv_int)
    then show ?thesis using encodeParts_encode [of 0 m b] len by simp
  qed
  have split: "encode b = encode (take (3 * m) b) @ encode (drop (3 * m) b)"
    using encode_append [of "take (3 * m) b" "drop (3 * m) b"] len by simp
  have e: "nat (3 * int m) = 3 * m" "nat (1 + 3 * int m) = 3 * m + 1" by linarith+
  have ki: "int (length b) mod 3 = int k" by (simp add: k_def zmod_int)
  from len(2) consider "k = 0" | "k = 1" | "k = 2" by linarith
  then show ?thesis
  proof cases
    case 1
    with len have "drop (3 * m) b = []" by simp
    with 1 split parts ki show ?thesis by (simp add: fromByteArray_def)
  next
    case 2
    with len have d: "drop (3 * m) b = [b ! (3 * m)]" by (simp add: Cons_nth_drop_Suc [symmetric])
    have a: "at b (int (length b) - 1) = Num (uint (b ! (3 * m)))" using len 2 e by (simp add: at_def)
    have "lookupAt (jshr (Num (uint x)) 2) = [sextet (uint x div 4)]"
      "lookupAt (jand (jshl (Num (uint x)) 4) (Num 0x3F)) = [sextet (uint x * 16)]" for x :: byte
      using byte_bounds [of x] lookupAt_div4 [of x]
      by (simp_all add: jshr_small jshl_small jand_63 lookupAt_sextet)
    with 2 split parts ki a d show ?thesis by (simp add: fromByteArray_def lit_padding)
  next
    case 3
    with len have d: "drop (3 * m) b = [b ! (3 * m), b ! (3 * m + 1)]"
      by (simp add: Cons_nth_drop_Suc [symmetric])
    let ?x = "b ! (3 * m)" and ?y = "b ! (3 * m + 1)"
    have a: "at b (int (length b) - 2) = Num (uint ?x)" "at b (int (length b) - 1) = Num (uint ?y)"
      using len 3 e by (simp_all add: at_def)
    let ?t = "uint ?x * 256 + uint ?y"
    have t: "0 \<le> ?t" "?t < 65536" using byte_bounds [of ?x] byte_bounds [of ?y] by simp_all
    have d4: "?t div 1024 < 64" "0 \<le> ?t div 1024" using t by (linarith, intro pos_imp_zdiv_nonneg_iff [THEN iffD2], auto)
    have "lookupAt (jshr (Num ?t) 10) = [sextet (uint ?x div 4)]"
      "lookupAt (jand (jshr (Num ?t) 4) (Num 0x3F)) = [sextet (uint ?x * 16 + uint ?y div 16)]"
      "lookupAt (jand (jshl (Num ?t) 2) (Num 0x3F)) = [sextet (uint ?y * 4)]"
      using t d4 pair_sextets [OF byte_bounds [of ?y], of "uint ?x"]
      by (simp_all add: jshr_small jshl_small jand_63 lookupAt_sextet lookupAt_small)
    moreover have "jadd (jshl (Num (uint ?x)) 8) (Num (uint ?y)) = Num ?t"
      using byte_bounds [of ?x] by (simp add: jshl_small)
    ultimately show ?thesis using 3 split parts ki a d by (simp add: fromByteArray_def lit_padding Let_def)
  qed
qed

section \<open>Decoding an encoding\<close>

lemma length_lookup [simp]: "length lookup = 64"
  by (simp add: lookup_def lit_def alphabet_def)

lemma inj_unit: "inj (\<lambda>c. word_of_nat (code_of c) :: code_unit)"
proof (rule injI)
  fix c d
  assume eq: "word_of_nat (code_of c) = (word_of_nat (code_of d) :: code_unit)"
  have small: "code_of x < 2 ^ LENGTH(16)" for x
  proof -
    have "code_of x mod 256 < 256" by (rule mod_less_divisor) simp
    then have "code_of x < 256" by (simp only: of_char_mod_256)
    also have "256 < (2::nat) ^ LENGTH(16)" by simp
    finally show ?thesis .
  qed
  from eq have "unat (word_of_nat (code_of c) :: code_unit) = unat (word_of_nat (code_of d) :: code_unit)"
    by simp
  then have "code_of c = code_of d" by (simp only: unat_word_of_nat small)
  then show "c = d" by simp
qed

lemma distinct_lookup: "distinct lookup"
proof -
  have "distinct alphabet" by (simp add: alphabet_def)
  then show ?thesis
    unfolding lookup_def lit_def distinct_map using inj_unit by (auto intro: inj_on_subset)
qed

lemma lit_mem_iff: "word_of_nat (code_of c) \<in> set (lit s) \<longleftrightarrow> c \<in> set s"
  using inj_unit by (auto simp: lit_def dest: injD)

lemma not_in_lookup: "0x5F \<notin> set lookup" "0x2D \<notin> set lookup" "0x3D \<notin> set lookup"
  using lit_mem_iff [of "CHR ''_''" alphabet] lit_mem_iff [of "CHR ''-''" alphabet]
    lit_mem_iff [of "CHR ''=''" alphabet]
  by (simp_all add: lookup_def alphabet_def)

lemma index_of_nth: "distinct xs \<Longrightarrow> i < length xs \<Longrightarrow> index_of (xs ! i) xs = Some i"
  by (induction xs arbitrary: i) (auto simp: nth_Cons split: nat.splits)

lemma sextet_in_lookup: "sextet n \<in> set lookup"
  by (simp add: sextet_def nat_less_iff)

lemma revLookup_sextet: "revLookup (sextet n) = Num (n mod 64)"
proof -
  have "index_of (sextet n) lookup = Some (nat (n mod 64))"
    unfolding sextet_def by (rule index_of_nth [OF distinct_lookup]) (simp add: nat_less_iff)
  moreover have "sextet n \<noteq> 0x5F" "sextet n \<noteq> 0x2D"
    using sextet_in_lookup [of n] not_in_lookup by metis+
  ultimately show ?thesis by (simp add: revLookup_def)
qed

lemma sextet_not_padding: "sextet n \<noteq> 0x3D"
  using sextet_in_lookup [of n] not_in_lookup by metis

text \<open>Four sextets give back the number they were cut from.\<close>

lemma sextets_join:
  assumes "0 \<le> a" "a < 64" "0 \<le> b" "b < 64" "0 \<le> c" "c < 64" "0 \<le> d" "d < 64"
  shows "jor (jor (jor (jshl (Num a) 18) (jshl (Num b) 12)) (jshl (Num c) 6)) (Num d)
           = Num (a * 2 ^ 18 + b * 2 ^ 12 + c * 2 ^ 6 + d)"
proof -
  have "jshl (Num a) 18 = Num (a * 2 ^ 18)" "jshl (Num b) 12 = Num (b * 2 ^ 12)" "jshl (Num c) 6 = Num (c * 2 ^ 6)"
    using assms by (simp_all add: jshl_small)
  moreover have "jor (Num (a * 2 ^ 18)) (Num (b * 2 ^ 12)) = Num ((a * 2 ^ 6 + b) * 2 ^ 12)"
    using jor_disjoint [of a "b * 2 ^ 12" 18] assms by (simp add: algebra_simps)
  moreover have "jor (Num ((a * 2 ^ 6 + b) * 2 ^ 12)) (Num (c * 2 ^ 6)) = Num (((a * 2 ^ 6 + b) * 2 ^ 6 + c) * 2 ^ 6)"
    using jor_disjoint [of "a * 2 ^ 6 + b" "c * 2 ^ 6" 12] assms by (simp add: algebra_simps)
  moreover have "jor (Num (((a * 2 ^ 6 + b) * 2 ^ 6 + c) * 2 ^ 6)) (Num d)
      = Num (a * 2 ^ 18 + b * 2 ^ 12 + c * 2 ^ 6 + d)"
    using jor_disjoint [of "(a * 2 ^ 6 + b) * 2 ^ 6 + c" d 6] assms by (simp add: algebra_simps)
  ultimately show ?thesis by (simp only:)
qed

lemma sextets_sum:
  fixes t :: int
  assumes "0 \<le> t" "t < 2 ^ 24"
  shows "t div 262144 mod 64 * 2 ^ 18 + t div 4096 mod 64 * 2 ^ 12 + t div 64 mod 64 * 2 ^ 6 + t mod 64 = t"
proof -
  have 1: "t = t div 64 * 64 + t mod 64" by simp
  have 2: "t div 64 = t div 4096 * 64 + t div 64 mod 64"
    using zdiv_zmult2_eq [of 64 t 64] div_mult_mod_eq [of "t div 64" 64] by simp
  have 3: "t div 4096 = t div 262144 * 64 + t div 4096 mod 64"
    using zdiv_zmult2_eq [of 64 t 4096] div_mult_mod_eq [of "t div 4096" 64] by simp
  have "t div 262144 < 64" "0 \<le> t div 262144" using assms by (auto simp: pos_imp_zdiv_nonneg_iff)
  then have 4: "t div 262144 mod 64 = t div 262144" by (intro mod_pos_pos_trivial)
  have sum: "a * 2 ^ 18 + b * 2 ^ 12 + c * 2 ^ 6 + d = n"
    if "n = p * 64 + d" "p = q * 64 + c" "q = a * 64 + b" for a b c d n p q :: int
    using that by simp
  show ?thesis unfolding 4 by (rule sum [OF 1 2 3])
qed

lemma quad_four:
  assumes "0 \<le> t" "t < 2 ^ 24" and "drop i s = four t @ rest"
  shows "quad s i = Num t"
proof -
  have at: "revAt s (i + k) = revLookup (four t ! k)" if "k < 4" for k
  proof -
    have l: "length (drop i s) \<ge> 4" unfolding assms(3) by (simp add: four_def)
    with that have "s ! (i + k) = drop i s ! k" by simp
    also have "\<dots> = four t ! k" unfolding assms(3) using that by (subst nth_append) (simp add: four_def)
    finally show ?thesis using l that by (auto simp: revAt_def)
  qed
  have "t div 262144 mod 64 * 2 ^ 18 + t div 4096 mod 64 * 2 ^ 12 + t div 64 mod 64 * 2 ^ 6 + t mod 64 = t"
    by (rule sextets_sum [OF assms(1,2)])
  moreover have f: "four t ! 0 = sextet (t div 262144)" "four t ! 1 = sextet (t div 4096)"
    "four t ! 2 = sextet (t div 64)" "four t ! 3 = sextet t"
    by (simp_all add: four_def)
  have r: "revAt s i = Num (t div 262144 mod 64)" "revAt s (i + 1) = Num (t div 4096 mod 64)"
    "revAt s (i + 2) = Num (t div 64 mod 64)" "revAt s (i + 3) = Num (t mod 64)"
    using at [of 0] at [of 1] at [of 2] at [of 3] unfolding f revLookup_sextet by simp_all
  have "quad s i = Num (t div 262144 mod 64 * 2 ^ 18 + t div 4096 mod 64 * 2 ^ 12
      + t div 64 mod 64 * 2 ^ 6 + t mod 64)"
    unfolding quad_def r by (rule sextets_join) simp_all
  ultimately show ?thesis by (simp only:)
qed

lemma put_three:
  assumes "length pre = n"
  shows "put (put (put (pre @ a # b # c # post) (int n) x) (int n + 1) y) (int n + 2) z
           = pre @ toUint8 x # toUint8 y # toUint8 z # post"
proof -
  have "nat (int n + 1) = n + 1" "nat (int n + 2) = n + 2" by simp_all
  with assms show ?thesis by (simp add: put_def list_update_append)
qed

lemma triple_bytes:
  "toUint8 (jand (jshr (Num (triple x y z)) 16) (Num 0xFF)) = x"
  "toUint8 (jand (jshr (Num (triple x y z)) 8) (Num 0xFF)) = y"
  "toUint8 (jand (Num (triple x y z)) (Num 0xFF)) = z"
proof -
  note b = byte_bounds [of x] byte_bounds [of y] byte_bounds [of z]
  have "triple x y z mod 256 = uint z"
    unfolding triple_def using b by (simp add: mod_add_left_eq [symmetric])
  moreover have 1: "triple x y z div 256 = uint x * 256 + uint y"
  proof -
    have "triple x y z = uint z + (uint x * 256 + uint y) * 256" by (simp add: triple_def)
    then show ?thesis using b by (simp only:) (subst div_mult_self1, simp_all)
  qed
  moreover have "triple x y z div 65536 = uint x"
  proof -
    have "triple x y z div (256 * 256) = (uint x * 256 + uint y) div 256" by (subst zdiv_zmult2_eq) (simp_all add: 1)
    then show ?thesis using b by simp
  qed
  ultimately show "toUint8 (jand (jshr (Num (triple x y z)) 16) (Num 0xFF)) = x"
    "toUint8 (jand (jshr (Num (triple x y z)) 8) (Num 0xFF)) = y"
    "toUint8 (jand (Num (triple x y z)) (Num 0xFF)) = z"
    using b triple_bounds [of x y z] by (simp_all add: jshr_small jand_255)
qed

text \<open>The loop decodes the whole groups \<open>bs\<close> into the free part of the array.\<close>

lemma toByteArray_loop_encode:
  assumes "length bs = 3 * n" and "drop i s = encode bs @ rest"
    and "length pre = c" and "length room = 3 * n"
    and "int i + 4 * int n - 4 < len" and "len \<le> int i + 4 * int n"
  shows "toByteArray_loop s len i (int c) (pre @ room @ post)
           = (i + 4 * n, int c + 3 * int n, pre @ bs @ post)"
  using assms
proof (induction n arbitrary: bs i pre room c)
  case 0
  then show ?case by (simp add: toByteArray_loop.simps)
next
  case (Suc n)
  from Suc.prems(1) obtain x y z bs' where bs: "bs = x # y # z # bs'" and lb: "length bs' = 3 * n"
    by (auto simp: length_Suc_conv numeral_3_eq_3)
  from Suc.prems(4) obtain u v w room' where room: "room = u # v # w # room'" and lr: "length room' = 3 * n"
    by (auto simp: length_Suc_conv numeral_3_eq_3)
  have d: "drop i s = four (triple x y z) @ encode bs' @ rest" using Suc.prems(2) bs by simp
  have q: "quad s i = Num (triple x y z)" by (rule quad_four [OF triple_bounds d])
  have "drop (i + 4) s = drop 4 (drop i s)" by (simp add: add.commute)
  then have d': "drop (i + 4) s = encode bs' @ rest" unfolding d by (simp add: four_def)
  have IH: "toByteArray_loop s len (i + 4) (int (c + 3)) ((pre @ [x, y, z]) @ room' @ post)
      = (i + 4 + 4 * n, int (c + 3) + 3 * int n, (pre @ [x, y, z]) @ bs' @ post)"
    using Suc.prems(3,5,6) by (intro Suc.IH [OF lb d' _ lr]) simp_all
  have "toByteArray_loop s len i (int c) (pre @ room @ post)
      = toByteArray_loop s len (i + 4) (int c + 3) (pre @ x # y # z # room' @ post)"
    using put_three [OF Suc.prems(3)] Suc.prems(5)
    by (subst toByteArray_loop.simps) (simp only: q Let_def room triple_bytes append_Cons, simp)
  also have "\<dots> = (i + 4 * Suc n, int c + 3 * int (Suc n), pre @ bs @ post)"
    using IH by (simp add: bs algebra_simps)
  finally show ?case .
qed

lemma index_of_append:
  "x \<notin> set xs \<Longrightarrow> index_of x (xs @ ys) = map_option (\<lambda>i. length xs + i) (index_of x ys)"
  by (induction xs; cases "index_of x ys") auto

lemma whole_groups:
  assumes "length bs = 3 * n"
  shows "0x3D \<notin> set (encode bs)" and "length (encode bs) = 4 * n"
  using assms
proof (induction bs arbitrary: n rule: encode.induct)
  case (1 x y z r)
  {
    case 1
    then obtain k where "n = Suc k" by (cases n) auto
    with 1 "1.IH"(1) [of k] show ?case by (auto simp: four_def sextet_not_padding [symmetric] dest: sym)
  next
    case 2
    then obtain k where "n = Suc k" by (cases n) auto
    with 2 "1.IH"(2) [of k] show ?case by (simp add: four_def)
  }
qed (presburger | simp)+

text \<open>What \<open>toByteArray\<close> does on the encoding of whole groups followed by a tail.\<close>

lemma toByteArray_groups:
  assumes "length bs = 3 * n" and "s = encode bs @ tail"
    and "int (4 * n) - 4 < len" "len \<le> int (4 * n)"
  shows "toByteArray_loop s len 0 0 (replicate (3 * n + k) 0) = (4 * n, 3 * int n, bs @ replicate k 0)"
proof -
  have "replicate (3 * n + k) 0 = [] @ replicate (3 * n) 0 @ replicate k (0 :: byte)"
    by (simp add: replicate_add)
  then show ?thesis
    using toByteArray_loop_encode [of bs n 0 s tail "[]" 0 "replicate (3 * n) 0" len "replicate k 0"] assms
    by simp
qed

lemma revAt_tail: "length xs = n \<Longrightarrow> j < length ys \<Longrightarrow> revAt (xs @ ys) (n + j) = revLookup (ys ! j)"
  by (simp add: revAt_def nth_append)

lemma put_end: "length xs = n \<Longrightarrow> put (xs @ [a]) (int n) v = xs @ [toUint8 v]"
  by (simp add: put_def list_update_append)

lemma decode_one:
  "toUint8 (jand (jor (jshl (Num (uint x div 4 mod 64)) 2) (jshr (Num (uint x * 16 mod 64)) 4)) (Num 0xFF)) = x"
proof -
  have x: "uint x div 4 mod 64 = uint x div 4"
    using byte_bounds [of x] by (intro mod_pos_pos_trivial) (auto simp: pos_imp_zdiv_nonneg_iff)
  have "uint x * 16 mod 64 = (uint x mod 4) * 16" using mult_mod_left [of "uint x" 4 16] by simp
  then have "uint x * 16 mod 64 div 16 = uint x mod 4" by simp
  moreover have "jor (Num (uint x div 4 * 4)) (Num (uint x mod 4)) = Num (uint x)"
    using jor_disjoint [of "uint x div 4" "uint x mod 4" 2] byte_bounds [of x]
    by (simp add: pos_imp_zdiv_nonneg_iff)
  ultimately show ?thesis
    using byte_bounds [of x] unfolding x
    by (simp add: jshl_small jshr_small jand_255 pos_imp_zdiv_nonneg_iff)
qed

lemma decode_two:
  fixes x y :: byte
  defines "t \<equiv> jor (jor (jshl (Num (uint x div 4 mod 64)) 10)
                      (jshl (Num ((uint x * 16 + uint y div 16) mod 64)) 4)) (jshr (Num (uint y * 4 mod 64)) 2)"
  shows "toUint8 (jand (jshr t 8) (Num 0xFF)) = x" and "toUint8 (jand t (Num 0xFF)) = y"
proof -
  note b = byte_bounds [of x] byte_bounds [of y]
  have x: "uint x div 4 mod 64 = uint x div 4"
    using b by (intro mod_pos_pos_trivial) (auto simp: pos_imp_zdiv_nonneg_iff)
  have y: "uint y * 4 mod 64 div 4 = uint y mod 16" using mult_mod_left [of "uint y" 16 4] by simp
  define q where "q = uint x div 4"
  define r where "r = uint x mod 4"
  define u where "u = uint y div 16"
  define v where "v = uint y mod 16"
  have xq: "uint x = q * 4 + r" and yu: "uint y = u * 16 + v" by (simp_all add: q_def r_def u_def v_def)
  have bd: "0 \<le> q" "q < 64" "0 \<le> r" "r < 4" "0 \<le> u" "u < 16" "0 \<le> v" "v < 16"
    using b by (auto simp: q_def r_def u_def v_def pos_imp_zdiv_nonneg_iff)
  have m: "(uint x * 16 + u) mod 64 = r * 16 + u"
  proof -
    have "uint x * 16 + u = (r * 16 + u) + q * 64" by (simp add: xq)
    then have "(uint x * 16 + u) mod 64 = (r * 16 + u) mod 64" by (simp only: mod_mult_self1)
    also have "\<dots> = r * 16 + u" using bd by (intro mod_pos_pos_trivial) auto
    finally show ?thesis .
  qed
  have "jor (Num (q * 2 ^ 10)) (Num ((r * 16 + u) * 2 ^ 4)) = Num (q * 1024 + (r * 16 + u) * 16)"
    using jor_disjoint [of q "(r * 16 + u) * 2 ^ 4" 10] bd by simp
  also have "\<dots> = Num (((q * 4 + r) * 16 + u) * 2 ^ 4)" by (simp add: algebra_simps)
  finally have 1: "jor (Num (q * 2 ^ 10)) (Num ((r * 16 + u) * 2 ^ 4)) = Num (((q * 4 + r) * 16 + u) * 2 ^ 4)" .
  have 2: "jor (Num (((q * 4 + r) * 16 + u) * 2 ^ 4)) (Num v) = Num (uint x * 256 + uint y)"
    using jor_disjoint [of "(q * 4 + r) * 16 + u" v 4] bd by (simp add: xq yu algebra_simps)
  have sh: "jshl (Num q) 10 = Num (q * 2 ^ 10)" "jshl (Num (r * 16 + u)) 4 = Num ((r * 16 + u) * 2 ^ 4)"
    using bd by (intro jshl_small; simp)+
  have "jshr (Num (uint y * 4 mod 64)) 2 = Num (uint y * 4 mod 64 div 2 ^ 2)"
    using pos_mod_bound [of 64 "uint y * 4"] by (intro jshr_small) simp_all
  then have vv: "jshr (Num (uint y * 4 mod 64)) 2 = Num v" by (simp add: y v_def)
  have t: "t = Num (uint x * 256 + uint y)"
    unfolding t_def x m [unfolded u_def] vv
    unfolding q_def [symmetric] u_def [symmetric] sh 1 2 ..
  show "toUint8 (jand (jshr t 8) (Num 0xFF)) = x" "toUint8 (jand t (Num 0xFF)) = y"
    using b unfolding t by (simp_all add: jshr_small jand_255)
qed

lemma getLens_groups:
  assumes "length bs = 3 * n"
  shows "getLens (encode bs) = Inr (4 * n, 0)"
    and "getLens (encode bs @ [sextet a, sextet b, 0x3D, 0x3D]) = Inr (4 * n + 2, 2)"
    and "getLens (encode bs @ [sextet a, sextet b, sextet c, 0x3D]) = Inr (4 * n + 3, 1)"
proof -
  have "index_of 0x3D (encode bs) = None"
    using index_of_append [OF whole_groups(1) [OF assms], of "[]"] by simp
  then show "getLens (encode bs) = Inr (4 * n, 0)"
    using whole_groups(2) [OF assms] by (simp add: getLens_def)
  show "getLens (encode bs @ [sextet a, sextet b, 0x3D, 0x3D]) = Inr (4 * n + 2, 2)"
    "getLens (encode bs @ [sextet a, sextet b, sextet c, 0x3D]) = Inr (4 * n + 3, 1)"
    using whole_groups [OF assms]
    by (simp_all add: getLens_def index_of_append sextet_not_padding [symmetric] mod_Suc)
qed

lemma split_groups:
  obtains n bs tail where "b = bs @ tail" "length bs = 3 * n" "length tail < 3"
proof
  show "b = take (3 * (length b div 3)) b @ drop (3 * (length b div 3)) b" by simp
qed (auto simp: minus_mult_div_eq_mod)

lemma toByteArray_eq:
  assumes "getLens s = Inr (v, p)" and "byteLength_of v p = int m"
    and "toByteArray_loop s (if p > 0 then int v - 4 else int v) 0 0 (replicate m 0) = (i, c, arr)"
  shows "toByteArray s =
    (if p = 2 then Inr (put arr c (jand (jor (jshl (revAt s i) 2) (jshr (revAt s (i + 1)) 4)) (Num 0xFF)))
     else if p = 1 then
       (let tmp = jor (jor (jshl (revAt s i) 10) (jshl (revAt s (i + 1)) 4)) (jshr (revAt s (i + 2)) 2)
        in Inr (put (put arr c (jand (jshr tmp 8) (Num 0xFF))) (c + 1) (jand tmp (Num 0xFF))))
     else Inr arr)"
  using assms by (simp add: toByteArray_def Let_def)

lemma toByteArray_encode: "toByteArray (encode b) = Inr b"
proof -
  obtain n bs tail where b: "b = bs @ tail" "length bs = 3 * n" "length tail < 3" by (rule split_groups)
  have enc: "encode b = encode bs @ encode tail" using encode_append [of bs tail] b by simp
  note whole = whole_groups(2) [OF b(2)]
  consider "tail = []" | x where "tail = [x]" | x y where "tail = [x, y]"
    using b(3) by (cases tail rule: encode.cases) auto
  then show ?thesis
  proof cases
    case 1
    then have s: "encode b = encode bs" using enc by simp
    have "byteLength_of (4 * n) 0 = int (3 * n)" by (simp add: byteLength_of_def)
    from toByteArray_eq [OF getLens_groups(1) [OF b(2)] this]
      toByteArray_groups [OF b(2), of "encode bs" "[]" "int (4 * n)" 0]
    show ?thesis using s 1 b(1) by simp
  next
    case (2 x)
    then have s: "encode b = encode bs @ [sextet (uint x div 4), sextet (uint x * 16), 0x3D, 0x3D]"
      using enc by simp
    have bl: "byteLength_of (4 * n + 2) 2 = int (3 * n + 1)" by (simp add: byteLength_of_def)
    have loop: "toByteArray_loop (encode b) (if (2::nat) > 0 then int (4 * n + 2) - 4 else int (4 * n + 2)) 0 0
        (replicate (3 * n + 1) 0) = (4 * n, 3 * int n, bs @ [0])"
      using toByteArray_groups [OF b(2) enc, of "int (4 * n + 2) - 4" 1] by simp
    have "toByteArray (encode b) =
        Inr (put (bs @ [0]) (3 * int n)
          (jand (jor (jshl (revAt (encode b) (4 * n)) 2) (jshr (revAt (encode b) (4 * n + 1)) 4)) (Num 0xFF)))"
      using toByteArray_eq [OF getLens_groups(2) [OF b(2), of "uint x div 4" "uint x * 16", folded s] bl loop] by simp
    moreover have "revAt (encode b) (4 * n) = Num (uint x div 4 mod 64)"
      "revAt (encode b) (4 * n + 1) = Num (uint x * 16 mod 64)"
      using revAt_tail [OF whole, of 0 "encode tail"] revAt_tail [OF whole, of 1 "encode tail"] 2 enc
      by (simp_all add: revLookup_sextet)
    ultimately show ?thesis
      using put_end [OF b(2)] 2 b(1) by (simp only: decode_one of_nat_mult of_nat_numeral)
  next
    case (3 x y)
    then have s: "encode b =
        encode bs @ [sextet (uint x div 4), sextet (uint x * 16 + uint y div 16), sextet (uint y * 4), 0x3D]"
      using enc by simp
    have bl: "byteLength_of (4 * n + 3) 1 = int (3 * n + 2)" by (simp add: byteLength_of_def)
    have loop: "toByteArray_loop (encode b) (if (1::nat) > 0 then int (4 * n + 3) - 4 else int (4 * n + 3)) 0 0
        (replicate (3 * n + 2) 0) = (4 * n, 3 * int n, bs @ [0, 0])"
      using toByteArray_groups [OF b(2) enc, of "int (4 * n + 3) - 4" 2] by (simp add: numeral_2_eq_2)
    have r: "revAt (encode b) (4 * n) = Num (uint x div 4 mod 64)"
      "revAt (encode b) (4 * n + 1) = Num ((uint x * 16 + uint y div 16) mod 64)"
      "revAt (encode b) (4 * n + 2) = Num (uint y * 4 mod 64)"
      using revAt_tail [OF whole, of 0 "encode tail"] revAt_tail [OF whole, of 1 "encode tail"]
        revAt_tail [OF whole, of 2 "encode tail"] 3 enc
      by (simp_all add: revLookup_sextet)
    have w: "put (put (bs @ [0, 0]) (3 * int n) v) (3 * int n + 1) w = bs @ [toUint8 v, toUint8 w]" for v w
    proof -
      have "put (bs @ [0, 0]) (3 * int n) v = (bs @ [toUint8 v]) @ [0]"
        using b(2) by (simp add: put_def list_update_append nat_mult_distrib)
      then show ?thesis using put_end [of "bs @ [toUint8 v]" "3 * n + 1"] b(2) by (simp add: add.commute)
    qed
    have "toByteArray (encode b) = Inr (bs @ [x, y])"
      using toByteArray_eq [OF getLens_groups(3) [OF b(2), of "uint x div 4" "uint x * 16 + uint y div 16"
          "uint y * 4", folded s] bl loop, unfolded r Let_def w decode_two]
      by simp
    then show ?thesis using 3 b(1) by simp
  qed
qed

text \<open>
  C14: decoding inverts encoding. For every byte array, of any length and across the chunks of
  16383 bytes in which it is encoded, \<open>toByteArray\<close> accepts the string that \<open>fromByteArray\<close>
  makes of it and gives the array back.
\<close>

theorem toByteArray_fromByteArray: "toByteArray (fromByteArray b) = Inr b"
  by (simp add: fromByteArray_encode toByteArray_encode)

text \<open>The length of an encoding: four characters for every three bytes begun.\<close>

lemma length_encode: "length (encode b) = 4 * ((length b + 2) div 3)"
proof (induction b rule: encode.induct)
  case (1 x y z r)
  have "(length (x # y # z # r) + 2) div 3 = ((length r + 2) + 3) div 3" by simp
  also have "\<dots> = (length r + 2) div 3 + 1" by (rule div_add_self2) simp
  finally show ?case using 1 by (simp add: four_def)
qed simp_all

lemma toByteArray_loop_length: "toByteArray_loop s len i c arr = (i', c', arr') \<Longrightarrow> length arr' = length arr"
proof (induction s len i c arr rule: toByteArray_loop.induct)
  case (1 s len i c arr)
  show ?case
  proof (cases "int i < len")
    case True
    from 1(2) True 1(1) [OF True refl refl refl refl] show ?thesis
      by (subst (asm) toByteArray_loop.simps) (simp add: Let_def)
  next
    case False
    with 1(2) show ?thesis by (subst (asm) toByteArray_loop.simps) simp
  qed
qed

text \<open>The number of bytes that a string announces, from its characters before the first padding
  character: as many whole bytes as their sextets fill, and one less when the padding starts a group.\<close>

definition announced :: "js_string \<Rightarrow> int" where
  "announced s =
     (let v = length (takeWhile (\<lambda>c. c \<noteq> 0x3D) s)
      in int (6 * v div 8) - (if v < length s \<and> v mod 4 = 0 then 1 else 0))"

lemma index_of_takeWhile:
  "(case index_of x xs of None \<Rightarrow> length xs | Some i \<Rightarrow> i) = length (takeWhile (\<lambda>y. y \<noteq> x) xs)"
  by (induction xs) (auto split: option.splits)

lemma padded_formula:
  assumes "n mod 4 = 0" "v \<le> n"
  defines "p \<equiv> if v = n then 0 else 4 - v mod 4"
  shows "(int v + int p) * 3 div 4 - int p = int (6 * v div 8) - (if v < n \<and> v mod 4 = 0 then 1 else 0)"
proof -
  define q r where "q = v div 4" and "r = v mod 4"
  have v: "v = 4 * q + r" "r < 4" by (simp_all add: q_def r_def)
  have six: "6 * v div 8 = 3 * q + 3 * r div 4"
    using div_mult_mult1 [of 2 "3 * v" 4] by (simp add: v(1))
  have i: "int v = 4 * int q + int r" using v(1) by simp
  consider "r = 0" | "r = 1" | "r = 2" | "r = 3" using v(2) by linarith
  moreover have "v = n \<Longrightarrow> r = 0" using assms(1) by (simp add: r_def)
  ultimately show ?thesis
    using assms(2) unfolding p_def r_def [symmetric] six i by cases auto
qed

lemma getLens_cases:
  obtains "length s mod 4 \<noteq> 0" "getLens s = Inl PlainError"
  | v p where "length s mod 4 = 0" "getLens s = Inr (v, p)"
      "(int v + int p) * 3 div 4 - int p = announced s"
proof (cases "length s mod 4 = 0")
  case True
  let ?v = "length (takeWhile (\<lambda>c. c \<noteq> 0x3D) s)"
  have "getLens s = Inr (?v, if ?v = length s then 0 else 4 - ?v mod 4)"
    using True by (simp add: getLens_def index_of_takeWhile Let_def)
  with True padded_formula [OF True length_takeWhile_le] that(2) show ?thesis
    by (auto simp: announced_def Let_def)
qed (use that(1) in \<open>simp add: getLens_def\<close>)

text \<open>
  C15: a string whose length is not a multiple of 4 is an error for \<open>byteLength\<close> and for
  \<open>toByteArray\<close>. For any other string, whatever its characters, \<open>byteLength\<close> announces as many
  whole bytes as the sextets before the first padding character fill, less one when the padding
  starts a group of four; \<open>toByteArray\<close>, whose own copy of the formula allocates the array, returns
  an array of exactly that many bytes, and raises \<open>RangeError\<close> when the number is negative.
\<close>

theorem toByteArray_byteLength:
  "byteLength s = (if length s mod 4 = 0 then Inr (announced s) else Inl PlainError) \<and>
   map_sum id length (toByteArray s) =
     (if length s mod 4 \<noteq> 0 then Inl PlainError
      else if announced s < 0 then Inl RangeError
      else Inr (nat (announced s)))"
proof (cases s rule: getLens_cases)
  case 1
  then show ?thesis by (simp add: byteLength_def toByteArray_def)
next
  case (2 v p)
  have bl: "byteLength s = Inr (announced s)" using 2 by (simp add: byteLength_def)
  have n: "byteLength_of v p = announced s" using 2(3) by (simp add: byteLength_of_def)
  show ?thesis
  proof (cases "announced s < 0")
    case True
    with 2(1,2) bl n show ?thesis by (simp add: toByteArray_def)
  next
    case False
    let ?m = "nat (announced s)"
    obtain i c arr where l: "toByteArray_loop s (if p > 0 then int v - 4 else int v) 0 0 (replicate ?m 0)
        = (i, c, arr)" by (rule prod_cases3)
    from toByteArray_loop_length [OF l] have "length arr = ?m" by simp
    with toByteArray_eq [OF 2(2) _ l] n False bl 2(1) show ?thesis by (auto simp: Let_def)
  qed
qed

end
