(* ===== verification/Buffer_Text.thy ===== *)
theory Buffer_Text
  imports Base64
begin

text \<open>
  The text side of the browser \<open>Buffer\<close>, \<open>script.js\<close> module 364: the encoders and decoders
  for UTF-8, UTF-16, Latin-1, ASCII, hexadecimal and base64, \<open>slice\<close>, \<open>write\<close>, \<open>toString\<close>
  and \<open>Buffer.from\<close> on strings. Strings are sequences of 16-bit code units, so unpaired
  surrogates are inputs like any other. The buffers are those of engines with typed arrays.
\<close>

section \<open>Encoding names\<close>

datatype enc = Hex | Utf8 | Ascii | Latin1 | Base64 | Ucs2

text \<open>
  The case labels shared by the \<open>switch\<close> statements of the module; \<open>toLowerCase\<close> can only
  reach them through ASCII letters.
\<close>

definition tolower :: "char \<Rightarrow> char" where
  "tolower c = (if 65 \<le> code_of c \<and> code_of c \<le> 90 then char_of (code_of c + 32) else c)"

definition toLowerCase :: "string \<Rightarrow> string" where
  "toLowerCase s = map tolower s"

definition caseLabel :: "string \<Rightarrow> enc option" where
  "caseLabel s =
     (if s = ''hex'' then Some Hex
      else if s = ''utf8'' \<or> s = ''utf-8'' then Some Utf8
      else if s = ''ascii'' then Some Ascii
      else if s = ''latin1'' \<or> s = ''binary'' then Some Latin1
      else if s = ''base64'' then Some Base64
      else if s = ''ucs2'' \<or> s = ''ucs-2'' \<or> s = ''utf16le'' \<or> s = ''utf-16le'' then Some Ucs2
      else None)"

definition isEncoding :: "string \<Rightarrow> bool" where
  "isEncoding encoding \<longleftrightarrow> caseLabel (toLowerCase encoding) \<noteq> None"

text \<open>The loop around each \<open>switch\<close>: one more try with the name in lower case.\<close>

definition switchEncoding :: "string \<Rightarrow> enc option" where
  "switchEncoding encoding =
     (case caseLabel encoding of Some e \<Rightarrow> Some e | None \<Rightarrow> caseLabel (toLowerCase encoding))"

section \<open>UTF-8\<close>

text \<open>The number of bytes still allowed; \<open>None\<close> is \<open>Infinity\<close>.\<close>

type_synonym units = "int option"

abbreviation minus_units :: "units \<Rightarrow> int \<Rightarrow> units" where
  "minus_units u n \<equiv> map_option (\<lambda>k. k - n) u"

definition room :: "units \<Rightarrow> bool" where
  "room u \<longleftrightarrow> (case u of None \<Rightarrow> True | Some k \<Rightarrow> k > - 1)"

text \<open>\<open>if ((units -= 3) > -1) bytes.push(0xEF, 0xBF, 0xBD)\<close>\<close>

definition pushReplacement :: "units \<Rightarrow> buffer \<times> units" where
  "pushReplacement u = (let u = minus_units u 3 in (if room u then [0xEF, 0xBF, 0xBD] else [], u))"

text \<open>The part of the loop under \<open>encode utf8\<close>; \<open>None\<close> is its \<open>break\<close>.\<close>

definition encodePoint :: "int \<Rightarrow> units \<Rightarrow> js_error + (buffer \<times> units) option" where
  "encodePoint codePoint u =
     (if codePoint < 0x80 then
        let u = minus_units u 1 in
        Inr (if room u then Some ([word_of_int codePoint], u) else None)
      else if codePoint < 0x800 then
        let u = minus_units u 2 in
        Inr (if room u then Some ([word_of_int (drop_bit 6 codePoint OR 0xC0),
                                   word_of_int (codePoint AND 0x3F OR 0x80)], u) else None)
      else if codePoint < 0x10000 then
        let u = minus_units u 3 in
        Inr (if room u then Some ([word_of_int (drop_bit 0xC codePoint OR 0xE0),
                                   word_of_int (drop_bit 6 codePoint AND 0x3F OR 0x80),
                                   word_of_int (codePoint AND 0x3F OR 0x80)], u) else None)
      else if codePoint < 0x110000 then
        let u = minus_units u 4 in
        Inr (if room u then Some ([word_of_int (drop_bit 0x12 codePoint OR 0xF0),
                                   word_of_int (drop_bit 0xC codePoint AND 0x3F OR 0x80),
                                   word_of_int (drop_bit 6 codePoint AND 0x3F OR 0x80),
                                   word_of_int (codePoint AND 0x3F OR 0x80)], u) else None)
      else Inl PlainError)"

definition surrogatePair :: "int \<Rightarrow> int \<Rightarrow> int" where
  "surrogatePair lead trail = (push_bit 10 (lead - 0xD800) OR (trail - 0xDC00)) + 0x10000"

fun utf8_loop :: "js_string \<Rightarrow> int option \<Rightarrow> units \<Rightarrow> js_error + buffer" where
  "utf8_loop [] leadSurrogate u = Inr []"
| "utf8_loop (c # string) leadSurrogate u =
     (let codePoint = uint c in
      if codePoint > 0xD7FF \<and> codePoint < 0xE000 then
        (case leadSurrogate of
           None \<Rightarrow>
             if codePoint > 0xDBFF \<or> string = [] then
               let (pre, u) = pushReplacement u in
               bindR (utf8_loop string None u) (\<lambda>bytes. Inr (pre @ bytes))
             else utf8_loop string (Some codePoint) u
         | Some lead \<Rightarrow>
             if codePoint < 0xDC00 then
               let (pre, u) = pushReplacement u in
               bindR (utf8_loop string (Some codePoint) u) (\<lambda>bytes. Inr (pre @ bytes))
             else bindR (encodePoint (surrogatePair lead codePoint) u) (\<lambda>r.
               case r of
                 None \<Rightarrow> Inr []
               | Some (pre, u) \<Rightarrow> bindR (utf8_loop string None u) (\<lambda>bytes. Inr (pre @ bytes))))
      else
        let (pre1, u) = (case leadSurrogate of None \<Rightarrow> ([], u) | Some lead \<Rightarrow> pushReplacement u) in
        bindR (encodePoint codePoint u) (\<lambda>r.
          case r of
            None \<Rightarrow> Inr pre1
          | Some (pre, u) \<Rightarrow> bindR (utf8_loop string None u) (\<lambda>bytes. Inr (pre1 @ pre @ bytes))))"

text \<open>\<open>units || Infinity\<close>: a limit of 0 is no limit.\<close>

definition utf8ToBytes :: "js_string \<Rightarrow> units \<Rightarrow> js_error + buffer" where
  "utf8ToBytes string u = utf8_loop string None (if u = Some 0 then None else u)"

definition bytesPerSequence :: "int \<Rightarrow> nat" where
  "bytesPerSequence firstByte =
     (if firstByte > 0xEF then 4 else if firstByte > 0xDF then 3 else if firstByte > 0xBF then 2 else 1)"

abbreviation continuation :: "int \<Rightarrow> bool" where
  "continuation x \<equiv> x AND 0xC0 = 0x80"

definition sequencePoint :: "buffer \<Rightarrow> nat \<Rightarrow> nat \<Rightarrow> int option" where
  "sequencePoint buf i n =
     (let firstByte = uint (buf ! i); secondByte = uint (buf ! (i + 1));
          thirdByte = uint (buf ! (i + 2)); fourthByte = uint (buf ! (i + 3)) in
      if n = 1 then (if firstByte < 0x80 then Some firstByte else None)
      else if n = 2 then
        (if continuation secondByte then
           let tempCodePoint = push_bit 0x6 (firstByte AND 0x1F) OR (secondByte AND 0x3F)
           in if tempCodePoint > 0x7F then Some tempCodePoint else None
         else None)
      else if n = 3 then
        (if continuation secondByte \<and> continuation thirdByte then
           let tempCodePoint = push_bit 0xC (firstByte AND 0xF) OR push_bit 0x6 (secondByte AND 0x3F)
                                 OR (thirdByte AND 0x3F)
           in if tempCodePoint > 0x7FF \<and> (tempCodePoint < 0xD800 \<or> tempCodePoint > 0xDFFF)
              then Some tempCodePoint else None
         else None)
      else
        (if continuation secondByte \<and> continuation thirdByte \<and> continuation fourthByte then
           let tempCodePoint = push_bit 0x12 (firstByte AND 0xF) OR push_bit 0xC (secondByte AND 0x3F)
                                 OR push_bit 0x6 (thirdByte AND 0x3F) OR (fourthByte AND 0x3F)
           in if tempCodePoint > 0xFFFF \<and> tempCodePoint < 0x110000 then Some tempCodePoint else None
         else None))"

text \<open>The code units pushed for a decoded sequence and the number of bytes to advance.\<close>

definition decodeStep :: "buffer \<Rightarrow> nat \<Rightarrow> nat \<Rightarrow> int list \<times> nat" where
  "decodeStep buf i end' =
     (let n = bytesPerSequence (uint (buf ! i));
          codePoint = (if i + n \<le> end' then sequencePoint buf i n else None)
      in case codePoint of
           None \<Rightarrow> ([0xFFFD], 1)
         | Some codePoint \<Rightarrow>
             if codePoint > 0xFFFF then
               let codePoint = codePoint - 0x10000
               in ([drop_bit 10 codePoint AND 0x3FF OR 0xD800, 0xDC00 OR (codePoint AND 0x3FF)], n)
             else ([codePoint], n))"

lemma decodeStep_advances: "snd (decodeStep buf i end') > 0"
  by (auto simp: decodeStep_def bytesPerSequence_def Let_def split: option.split)

function utf8Slice_loop :: "buffer \<Rightarrow> nat \<Rightarrow> nat \<Rightarrow> int list" where
  "utf8Slice_loop buf i end' =
     (if i < end' then
        let (units, n) = decodeStep buf i end' in units @ utf8Slice_loop buf (i + n) end'
      else [])"
  by pat_completeness auto
termination
proof (relation "measure (\<lambda>(buf, i, end'). end' - i)", goal_cases)
  case (2 buf i end' p units n)
  then have "n > 0" using decodeStep_advances [of buf i end'] by (metis snd_conv)
  with 2 show ?case by simp
qed simp

declare utf8Slice_loop.simps [simp del]

text \<open>\<open>String.fromCharCode\<close> takes each number modulo \<open>2 ^ 16\<close>.\<close>

definition fromCharCode :: "int list \<Rightarrow> js_string" where
  "fromCharCode codes = map word_of_int codes"

abbreviation MAX_ARGUMENTS_LENGTH :: nat where "MAX_ARGUMENTS_LENGTH \<equiv> 0x1000"

function decodeChunks :: "int list \<Rightarrow> js_string" where
  "decodeChunks codePoints =
     (if codePoints = [] then []
      else fromCharCode (take MAX_ARGUMENTS_LENGTH codePoints) @ decodeChunks (drop MAX_ARGUMENTS_LENGTH codePoints))"
  by pat_completeness auto
termination by (relation "measure length") auto

declare decodeChunks.simps [simp del]

definition decodeCodePointsArray :: "int list \<Rightarrow> js_string" where
  "decodeCodePointsArray codePoints =
     (if length codePoints \<le> MAX_ARGUMENTS_LENGTH then fromCharCode codePoints else decodeChunks codePoints)"

definition utf8Slice :: "buffer \<Rightarrow> nat \<Rightarrow> nat \<Rightarrow> js_string" where
  "utf8Slice buf start end' = decodeCodePointsArray (utf8Slice_loop buf start (min (length buf) end'))"

section \<open>The single-byte and two-byte encodings\<close>

definition asciiToBytes :: "js_string \<Rightarrow> buffer" where
  "asciiToBytes str = map (\<lambda>c. word_of_int (uint c AND 0xFF)) str"

definition asciiSlice :: "buffer \<Rightarrow> nat \<Rightarrow> nat \<Rightarrow> js_string" where
  "asciiSlice buf start end' =
     map (\<lambda>i. word_of_int (uint (buf ! i) AND 0x7F)) [start ..< min (length buf) end']"

definition latin1Slice :: "buffer \<Rightarrow> nat \<Rightarrow> nat \<Rightarrow> js_string" where
  "latin1Slice buf start end' = map (\<lambda>i. word_of_int (uint (buf ! i))) [start ..< min (length buf) end']"

fun utf16leToBytes :: "js_string \<Rightarrow> int \<Rightarrow> buffer" where
  "utf16leToBytes [] u = []"
| "utf16leToBytes (c # str) u =
     (let u = u - 2 in
      if u < 0 then []
      else let c = uint c; hi = drop_bit 8 c; lo = c mod 256
        in word_of_int lo # word_of_int hi # utf16leToBytes str u)"

section \<open>Hexadecimal\<close>

text \<open>\<open>n.toString(16)\<close> for a byte.\<close>

definition hexChar :: "int \<Rightarrow> code_unit" where
  "hexChar n = lit ''0123456789abcdef'' ! nat n"

definition toHex :: "byte \<Rightarrow> js_string" where
  "toHex b =
     (let n = uint b in
      if n < 16 then [0x30, hexChar n] else [hexChar (n div 16), hexChar (n mod 16)])"

definition hexSlice :: "buffer \<Rightarrow> int \<Rightarrow> int \<Rightarrow> js_string" where
  "hexSlice buf start end' =
     (let len = int (length buf);
          start = (if start = 0 \<or> start < 0 then 0 else start);
          end' = (if end' = 0 \<or> end' < 0 \<or> end' > len then len else end')
      in concat (map (\<lambda>i. toHex (buf ! i)) [nat start ..< nat end']))"

text \<open>
  \<open>parseInt(s, 16)\<close>: white space, a sign and a prefix \<open>0x\<close> are skipped and the longest run of
  digits is taken; \<open>None\<close> is \<open>NaN\<close>.
\<close>

definition isStrWhiteSpace :: "code_unit \<Rightarrow> bool" where
  "isStrWhiteSpace c \<longleftrightarrow>
     uint c \<in> {9, 10, 11, 12, 13, 32, 0xA0, 0x1680, 0x2028, 0x2029, 0x202F, 0x205F, 0x3000, 0xFEFF} \<or>
     (0x2000 \<le> uint c \<and> uint c \<le> 0x200A)"

definition hexValue :: "code_unit \<Rightarrow> int option" where
  "hexValue c =
     (let n = uint c in
      if 0x30 \<le> n \<and> n \<le> 0x39 then Some (n - 0x30)
      else if 0x61 \<le> n \<and> n \<le> 0x66 then Some (n - 0x61 + 10)
      else if 0x41 \<le> n \<and> n \<le> 0x46 then Some (n - 0x41 + 10)
      else None)"

fun skipPrefix :: "js_string \<Rightarrow> js_string" where
  "skipPrefix (c # x # s) = (if c = 0x30 \<and> (x = 0x78 \<or> x = 0x58) then s else c # x # s)"
| "skipPrefix s = s"

fun skipSign :: "js_string \<Rightarrow> int \<times> js_string" where
  "skipSign (c # s) = (if c = 0x2D then (- 1, s) else if c = 0x2B then (1, s) else (1, c # s))"
| "skipSign [] = (1, [])"

definition parseInt16 :: "js_string \<Rightarrow> int option" where
  "parseInt16 s =
     (let (sign, s) = skipSign (dropWhile isStrWhiteSpace s);
          digits = takeWhile (\<lambda>c. hexValue c \<noteq> None) (skipPrefix s)
      in if digits = [] then None
         else Some (sign * foldl (\<lambda>n c. n * 16 + the (hexValue c)) 0 digits))"

text \<open>The loop returns the buffer and the index at which it stopped.\<close>

function hexWrite_loop :: "buffer \<Rightarrow> js_string \<Rightarrow> int \<Rightarrow> int \<Rightarrow> nat \<Rightarrow> buffer \<times> int" where
  "hexWrite_loop buf string offset len i =
     (if int i < len then
        (case parseInt16 (take 2 (drop (i * 2) string)) of
           None \<Rightarrow> (buf, int i)
         | Some parsed \<Rightarrow> hexWrite_loop (put buf (offset + int i) (Num parsed)) string offset len (i + 1))
      else (buf, int i))"
  by pat_completeness auto
termination by (relation "measure (\<lambda>(buf, string, offset, len, i). nat (len - int i))") auto

declare hexWrite_loop.simps [simp del]

definition hexWrite :: "buffer \<Rightarrow> js_string \<Rightarrow> int \<Rightarrow> int \<Rightarrow> js_error + buffer \<times> int" where
  "hexWrite buf string offset len =
     (let remaining = int (length buf) - offset;
          len = (if len = 0 then remaining else if len > remaining then remaining else len);
          strLen = int (length string)
      in if strLen mod 2 \<noteq> 0 then Inl TypeError
         else let len = (if len > strLen div 2 then strLen div 2 else len)
           in Inr (hexWrite_loop buf string offset len 0))"

section \<open>Base64\<close>

definition stringtrim :: "js_string \<Rightarrow> js_string" where
  "stringtrim str = rev (dropWhile isStrWhiteSpace (rev (dropWhile isStrWhiteSpace str)))"

definition validBase64 :: "code_unit \<Rightarrow> bool" where
  "validBase64 c \<longleftrightarrow>
     (let n = uint c in
      n = 0x2B \<or> n = 0x2F \<or> n = 0x2D \<or> n = 0x5F \<or> (0x30 \<le> n \<and> n \<le> 0x39) \<or>
      (0x41 \<le> n \<and> n \<le> 0x5A) \<or> (0x61 \<le> n \<and> n \<le> 0x7A))"

function padBase64 :: "js_string \<Rightarrow> js_string" where
  "padBase64 str = (if length str mod 4 \<noteq> 0 then padBase64 (str @ [0x3D]) else str)"
  by pat_completeness auto
termination by (relation "measure (\<lambda>s. (4 - length s mod 4) mod 4)") (auto simp: mod_Suc)

declare padBase64.simps [simp del]

definition base64clean :: "js_string \<Rightarrow> js_string" where
  "base64clean str =
     (let str = filter validBase64 (stringtrim str) in
      if length str < 2 then [] else padBase64 str)"

definition base64ToBytes :: "js_string \<Rightarrow> js_error + buffer" where
  "base64ToBytes str = toByteArray (base64clean str)"

section \<open>Slices\<close>

definition slice_bound :: "int \<Rightarrow> int \<Rightarrow> int" where
  "slice_bound len x =
     (if x < 0 then (if x + len < 0 then 0 else x + len) else if x > len then len else x)"

text \<open>The range that \<open>slice\<close> selects: its start and the end behind it.\<close>

definition slice_range :: "int \<Rightarrow> int \<Rightarrow> int option \<Rightarrow> nat \<times> nat" where
  "slice_range len start end' =
     (let start = slice_bound len (int32 start);
          end' = slice_bound len (case end' of None \<Rightarrow> len | Some e \<Rightarrow> int32 e);
          end' = (if end' < start then start else end')
      in (nat start, nat end'))"

text \<open>
  Objects and their memory: a \<open>Buffer\<close> object, a number, is a view of a range of an array buffer,
  and several objects can view the same memory. Reading outside the view gives \<open>undefined\<close>, and
  writing there does nothing.
\<close>

record view =
  mem_of :: nat
  start_of :: nat
  length_of :: nat

record store =
  memories :: "buffer list"
  views :: "view list"

definition view_bytes :: "store \<Rightarrow> nat \<Rightarrow> buffer" where
  "view_bytes st obj =
     (let v = views st ! obj in take (length_of v) (drop (start_of v) (memories st ! mem_of v)))"

definition get_at :: "store \<Rightarrow> nat \<Rightarrow> int \<Rightarrow> jsnum" where
  "get_at st obj i = at (view_bytes st obj) i"

definition set_at :: "store \<Rightarrow> nat \<Rightarrow> int \<Rightarrow> jsnum \<Rightarrow> store" where
  "set_at st obj i x =
     (let v = views st ! obj in
      if 0 \<le> i \<and> i < int (length_of v)
      then st\<lparr>memories := (memories st)[mem_of v := put (memories st ! mem_of v) (int (start_of v) + i) x]\<rparr>
      else st)"

text \<open>\<open>this.slice(start, end)\<close>: the new object. With typed arrays (\<open>ta\<close>) it is a view of the same
  memory, otherwise a copy.\<close>

definition slice :: "bool \<Rightarrow> nat \<Rightarrow> int \<Rightarrow> int option \<Rightarrow> store \<Rightarrow> nat \<times> store" where
  "slice ta this start end' st =
     (let v = views st ! this;
          (start, end') = slice_range (int (length_of v)) start end';
          sliceLen = end' - start;
          newBuf = length (views st)
      in if ta then
           (newBuf, st\<lparr>views := views st @ [\<lparr>mem_of = mem_of v, start_of = start_of v + start, length_of = sliceLen\<rparr>]\<rparr>)
         else
           let st = st\<lparr>memories := memories st @ [replicate sliceLen 0],
                 views := views st @ [\<lparr>mem_of = length (memories st), start_of = 0, length_of = sliceLen\<rparr>]\<rparr>
           in (newBuf, fold (\<lambda>i st. set_at st newBuf (int i) (get_at st this (int i + int start))) [0..<sliceLen] st))"

text \<open>The bytes of a slice at the time it is made, which is all that the readers below use of it.\<close>

definition slice_bytes :: "buffer \<Rightarrow> int \<Rightarrow> int option \<Rightarrow> buffer" where
  "slice_bytes b start end' =
     (let (start, end') = slice_range (int (length b)) start end' in take (end' - start) (drop start b))"

definition base64Slice :: "buffer \<Rightarrow> nat \<Rightarrow> nat \<Rightarrow> js_string" where
  "base64Slice buf start end' =
     (if start = 0 \<and> end' = length buf then fromByteArray buf
      else fromByteArray (slice_bytes buf (int start) (Some (int end'))))"

text \<open>A last odd byte is joined with \<open>undefined\<close>, and the resulting \<open>NaN\<close> is character 0.\<close>

fun joinPairs :: "buffer \<Rightarrow> js_string" where
  "joinPairs (a # b # bytes) = word_of_int (uint a + uint b * 256) # joinPairs bytes"
| "joinPairs [a] = [0]"
| "joinPairs [] = []"

definition utf16leSlice :: "buffer \<Rightarrow> nat \<Rightarrow> nat \<Rightarrow> js_string" where
  "utf16leSlice buf start end' = joinPairs (slice_bytes buf (int start) (Some (int end')))"

section \<open>Writing strings\<close>

function blitBuffer_loop :: "buffer \<Rightarrow> buffer \<Rightarrow> int \<Rightarrow> int \<Rightarrow> nat \<Rightarrow> buffer \<times> int" where
  "blitBuffer_loop src dst offset len i =
     (if int i < len then
        if int i + offset \<ge> int (length dst) \<or> i \<ge> length src then (dst, int i)
        else blitBuffer_loop src (put dst (int i + offset) (at src (int i))) offset len (i + 1)
      else (dst, int i))"
  by pat_completeness auto
termination by (relation "measure (\<lambda>(src, dst, offset, len, i). nat (len - int i))") auto

declare blitBuffer_loop.simps [simp del]

definition blitBuffer :: "buffer \<Rightarrow> buffer \<Rightarrow> int \<Rightarrow> int \<Rightarrow> buffer \<times> int" where
  "blitBuffer src dst offset len = blitBuffer_loop src dst offset len 0"

definition utf8Write :: "buffer \<Rightarrow> js_string \<Rightarrow> int \<Rightarrow> int \<Rightarrow> js_error + buffer \<times> int" where
  "utf8Write buf string offset len =
     bindR (utf8ToBytes string (Some (int (length buf) - offset))) (\<lambda>src. Inr (blitBuffer src buf offset len))"

definition asciiWrite :: "buffer \<Rightarrow> js_string \<Rightarrow> int \<Rightarrow> int \<Rightarrow> js_error + buffer \<times> int" where
  "asciiWrite buf string offset len = Inr (blitBuffer (asciiToBytes string) buf offset len)"

definition latin1Write :: "buffer \<Rightarrow> js_string \<Rightarrow> int \<Rightarrow> int \<Rightarrow> js_error + buffer \<times> int" where
  "latin1Write buf string offset len = asciiWrite buf string offset len"

definition base64Write :: "buffer \<Rightarrow> js_string \<Rightarrow> int \<Rightarrow> int \<Rightarrow> js_error + buffer \<times> int" where
  "base64Write buf string offset len =
     bindR (base64ToBytes string) (\<lambda>src. Inr (blitBuffer src buf offset len))"

definition ucs2Write :: "buffer \<Rightarrow> js_string \<Rightarrow> int \<Rightarrow> int \<Rightarrow> js_error + buffer \<times> int" where
  "ucs2Write buf string offset len =
     Inr (blitBuffer (utf16leToBytes string (int (length buf) - offset)) buf offset len)"

text \<open>The three ways of calling \<open>write\<close> that its head tells apart.\<close>

datatype write_args = WriteAll | WriteEncoding string | WriteAt int "int option" "string option"

definition writeString :: "js_string \<Rightarrow> write_args \<Rightarrow> buffer \<Rightarrow> js_error + buffer \<times> int" where
  "writeString string args this =
     (let (offset, len, encoding) =
        (case args of
           WriteAll \<Rightarrow> (0, Some (int (length this)), Some ''utf8'')
         | WriteEncoding encoding \<Rightarrow> (0, Some (int (length this)), Some encoding)
         | WriteAt offset (Some len) encoding \<Rightarrow>
             (int32 offset, Some (int32 len), Some (case encoding of None \<Rightarrow> ''utf8'' | Some e \<Rightarrow> e))
         | WriteAt offset None encoding \<Rightarrow> (int32 offset, None, encoding));
          remaining = int (length this) - offset;
          len = (case len of None \<Rightarrow> remaining | Some n \<Rightarrow> if n > remaining then remaining else n)
      in if (length string > 0 \<and> (len < 0 \<or> offset < 0)) \<or> offset > int (length this) then Inl RangeError
         else let encoding = (case encoding of None \<Rightarrow> ''utf8'' | Some e \<Rightarrow> if e = [] then ''utf8'' else e) in
           case switchEncoding encoding of
             Some Hex \<Rightarrow> hexWrite this string offset len
           | Some Utf8 \<Rightarrow> utf8Write this string offset len
           | Some Ascii \<Rightarrow> asciiWrite this string offset len
           | Some Latin1 \<Rightarrow> latin1Write this string offset len
           | Some Base64 \<Rightarrow> base64Write this string offset len
           | Some Ucs2 \<Rightarrow> ucs2Write this string offset len
           | None \<Rightarrow> Inl TypeError)"

section \<open>Lengths, buffers from strings, strings from buffers\<close>

definition byteLength :: "js_string \<Rightarrow> string option \<Rightarrow> js_error + int" where
  "byteLength string encoding =
     (let len = int (length string) in
      if len = 0 then Inr 0
      else case (case encoding of None \<Rightarrow> Some Utf8 | Some e \<Rightarrow> switchEncoding e) of
          Some Ascii \<Rightarrow> Inr len
        | Some Latin1 \<Rightarrow> Inr len
        | Some Utf8 \<Rightarrow> bindR (utf8ToBytes string None) (\<lambda>b. Inr (int (length b)))
        | Some Ucs2 \<Rightarrow> Inr (len * 2)
        | Some Hex \<Rightarrow> Inr (len div 2)
        | Some Base64 \<Rightarrow> bindR (base64ToBytes string) (\<lambda>b. Inr (int (length b)))
        | None \<Rightarrow> bindR (utf8ToBytes string None) (\<lambda>b. Inr (int (length b))))"

abbreviation kMaxLength :: int where "kMaxLength \<equiv> 0x7FFFFFFF"

definition createBuffer :: "int \<Rightarrow> js_error + buffer" where
  "createBuffer len = (if kMaxLength < len \<or> len < 0 then Inl RangeError else Inr (replicate (nat len) 0))"

definition fromString :: "js_string \<Rightarrow> string option \<Rightarrow> js_error + buffer" where
  "fromString string encoding =
     (let encoding = (case encoding of None \<Rightarrow> ''utf8'' | Some e \<Rightarrow> if e = [] then ''utf8'' else e) in
      if \<not> isEncoding encoding then Inl TypeError
      else bindR (byteLength string (Some encoding)) (\<lambda>len.
        let len = int32 len in
        bindR (createBuffer len) (\<lambda>that.
          bindR (writeString string (WriteEncoding encoding) that) (\<lambda>(that, actual).
            if actual \<noteq> len then Inr (slice_bytes that 0 (Some actual)) else Inr that))))"

definition slowToString :: "buffer \<Rightarrow> string option \<Rightarrow> int option \<Rightarrow> int option \<Rightarrow> js_error + js_string" where
  "slowToString this encoding start end' =
     (let len = int (length this);
          start = (case start of None \<Rightarrow> 0 | Some s \<Rightarrow> if s < 0 then 0 else s)
      in if start > len then Inr []
         else let end' = (case end' of None \<Rightarrow> len | Some e \<Rightarrow> if e > len then len else e) in
           if end' \<le> 0 then Inr []
           else if end' \<le> start then Inr []
           else let encoding = (case encoding of None \<Rightarrow> ''utf8'' | Some e \<Rightarrow> if e = [] then ''utf8'' else e);
                    s = nat start; e = nat end'
             in case switchEncoding encoding of
                  Some Hex \<Rightarrow> Inr (hexSlice this start end')
                | Some Utf8 \<Rightarrow> Inr (utf8Slice this s e)
                | Some Ascii \<Rightarrow> Inr (asciiSlice this s e)
                | Some Latin1 \<Rightarrow> Inr (latin1Slice this s e)
                | Some Base64 \<Rightarrow> Inr (base64Slice this s e)
                | Some Ucs2 \<Rightarrow> Inr (utf16leSlice this s e)
                | None \<Rightarrow> Inl TypeError)"

text \<open>\<open>toString\<close> with an encoding; \<open>None\<close> is the call without arguments.\<close>

definition toString :: "buffer \<Rightarrow> string option \<Rightarrow> js_error + js_string" where
  "toString this encoding =
     (if length this = 0 then Inr []
      else case encoding of
          None \<Rightarrow> Inr (utf8Slice this 0 (length this))
        | Some e \<Rightarrow> slowToString this (Some e) None None)"

end
