(* ===== verification/Buffer_Utf8.thy ===== *)
theory Buffer_Utf8
  imports Buffer_Text
begin

text \<open>
  UTF-8 in \<open>Buffer\<close>: on strings without unpaired surrogates \<open>utf8ToBytes\<close> writes the UTF-8
  encoding of each code point and \<open>utf8Slice\<close> reads the string back, so \<open>Buffer.from\<close> and
  \<open>toString\<close> are inverse. The encoding is stated with quotients and remainders; the lemmas
  relate it to the masks and shifts of the code.
\<close>

section \<open>Masks and shifts\<close>

lemma and_low:
  fixes a x :: int
  assumes "0 \<le> x" "x < 2 ^ n"
  shows "(a * 2 ^ n + x) AND (2 ^ n - 1) = x"
proof -
  have "(a * 2 ^ n + x) AND (2 ^ n - 1) = (a * 2 ^ n + x) mod 2 ^ n"
    by (metis mask_eq_exp_minus_1 take_bit_eq_mask take_bit_eq_mod)
  with assms show ?thesis by simp
qed

lemma and_high:
  fixes a b x :: int
  assumes "0 \<le> x" "x < 2 ^ n"
  shows "(a * 2 ^ n + x) AND (b * 2 ^ n) = (a AND b) * 2 ^ n"
proof -
  have "(push_bit n a OR x) AND push_bit n b = push_bit n (a AND b)"
  proof (rule bit_eqI)
    fix m
    have "take_bit n x = x" using assms by (simp add: take_bit_int_eq_self)
    then have "bit x m \<longrightarrow> m < n" by (metis bit_take_bit_iff)
    then show "bit ((push_bit n a OR x) AND push_bit n b) m = bit (push_bit n (a AND b)) m"
      by (auto simp: bit_simps)
  qed
  then show ?thesis using or_disjoint [OF assms, of a] by (simp add: push_bit_eq_mult)
qed

lemma and_mask_mod: "(x :: int) AND (2 ^ n - 1) = x mod 2 ^ n"
  by (metis mask_eq_exp_minus_1 take_bit_eq_mask take_bit_eq_mod)

section \<open>Code points\<close>

fun utf8_bytes :: "int \<Rightarrow> buffer" where
  "utf8_bytes p =
     (if p < 0x80 then [word_of_int p]
      else if p < 0x800 then [word_of_int (0xC0 + p div 64), word_of_int (0x80 + p mod 64)]
      else if p < 0x10000 then
        [word_of_int (0xE0 + p div 0x1000), word_of_int (0x80 + p div 64 mod 64), word_of_int (0x80 + p mod 64)]
      else
        [word_of_int (0xF0 + p div 0x40000), word_of_int (0x80 + p div 0x1000 mod 64),
         word_of_int (0x80 + p div 64 mod 64), word_of_int (0x80 + p mod 64)])"

declare utf8_bytes.simps [simp del]

definition scalar :: "int \<Rightarrow> bool" where
  "scalar p \<longleftrightarrow> 0 \<le> p \<and> p < 0x110000 \<and> (p < 0xD800 \<or> 0xE000 \<le> p)"

definition units_of :: "int \<Rightarrow> int list" where
  "units_of p =
     (if p > 0xFFFF then [0xD800 + (p - 0x10000) div 1024, 0xDC00 + (p - 0x10000) mod 1024] else [p])"

definition enough :: "units \<Rightarrow> nat \<Rightarrow> bool" where
  "enough u k \<longleftrightarrow> (case u of None \<Rightarrow> True | Some n \<Rightarrow> n \<ge> int k)"

lemma or_add: "0 \<le> x \<Longrightarrow> x < 2 ^ n \<Longrightarrow> x OR a * 2 ^ n = a * 2 ^ n + (x :: int)"
  using or_disjoint [of x n a] by (simp add: or.commute)

lemma lead_or:
  assumes "0 \<le> x" "x < 32" shows "x OR 0xC0 = 0xC0 + (x :: int)"
  using or_add [of x 5 6] assms by simp

lemma lead_or3:
  assumes "0 \<le> x" "x < 16" shows "x OR 0xE0 = 0xE0 + (x :: int)"
  using or_add [of x 4 14] assms by simp

lemma lead_or4:
  assumes "0 \<le> x" "x < 16" shows "x OR 0xF0 = 0xF0 + (x :: int)"
  using or_add [of x 4 15] assms by simp

lemma trail_or: "x AND 0x3F OR 0x80 = 0x80 + x mod (64 :: int)"
  using or_add [of "x mod 64" 6 2] and_mask_mod [of x 6] by simp

lemma encodePoint_bytes:
  assumes "0 \<le> p" "p < 0x110000" "enough u (length (utf8_bytes p))"
  shows "\<exists>v. encodePoint p u = Inr (Some (utf8_bytes p, v)) \<and> v = minus_units u (int (length (utf8_bytes p)))"
proof -
  have room: "room (minus_units u (int k)) \<longleftrightarrow> enough u k" for k
    by (cases u) (auto simp: room_def enough_def)
  have d: "drop_bit 6 p = p div 64" "drop_bit 0xC p = p div 0x1000" "drop_bit 0x12 p = p div 0x40000"
    by (simp_all add: drop_bit_eq_div)
  have l2: "p div 64 OR 0xC0 = 0xC0 + p div 64" if "p < 0x800"
    using that assms by (intro lead_or) (auto simp: pos_imp_zdiv_nonneg_iff)
  have l3: "p div 0x1000 OR 0xE0 = 0xE0 + p div 0x1000" if "p < 0x10000"
    using that assms by (intro lead_or3) (auto simp: pos_imp_zdiv_nonneg_iff)
  have l4: "p div 0x40000 OR 0xF0 = 0xF0 + p div 0x40000"
    using assms by (intro lead_or4) (auto simp: pos_imp_zdiv_nonneg_iff)
  consider "p < 0x80" | "0x80 \<le> p" "p < 0x800" | "0x800 \<le> p" "p < 0x10000" | "0x10000 \<le> p" by linarith
  then show ?thesis
  proof cases
    case 1
    with assms room [of 1] show ?thesis by (simp add: encodePoint_def utf8_bytes.simps Let_def)
  next
    case 2
    with assms room [of "Suc (Suc 0)"] l2 show ?thesis
      by (simp add: encodePoint_def utf8_bytes.simps Let_def d trail_or)
  next
    case 3
    with assms room [of "Suc (Suc (Suc 0))"] l3 show ?thesis
      by (simp add: encodePoint_def utf8_bytes.simps Let_def d trail_or)
  next
    case 4
    with assms room [of "Suc (Suc (Suc (Suc 0)))"] l4 show ?thesis
      by (simp add: encodePoint_def utf8_bytes.simps Let_def d trail_or)
  qed
qed

section \<open>Well-formed strings\<close>

abbreviation is_lead :: "code_unit \<Rightarrow> bool" where
  "is_lead c \<equiv> 0xD800 \<le> uint c \<and> uint c < 0xDC00"

abbreviation is_trail :: "code_unit \<Rightarrow> bool" where
  "is_trail c \<equiv> 0xDC00 \<le> uint c \<and> uint c < 0xE000"

text \<open>Every surrogate is half of a pair.\<close>

fun well_formed :: "js_string \<Rightarrow> bool" where
  "well_formed (c # t # s) =
     (if is_lead c then is_trail t \<and> well_formed s else \<not> is_trail c \<and> well_formed (t # s))"
| "well_formed [c] \<longleftrightarrow> \<not> is_lead c \<and> \<not> is_trail c"
| "well_formed [] \<longleftrightarrow> True"

definition pair_point :: "int \<Rightarrow> int \<Rightarrow> int" where
  "pair_point lead trail = (lead - 0xD800) * 1024 + (trail - 0xDC00) + 0x10000"

fun points :: "js_string \<Rightarrow> int list" where
  "points (c # t # s) =
     (if is_lead c then pair_point (uint c) (uint t) # points s else uint c # points (t # s))"
| "points [c] = [uint c]"
| "points [] = []"

abbreviation utf8_all :: "int list \<Rightarrow> buffer" where
  "utf8_all ps \<equiv> concat (map utf8_bytes ps)"

lemma surrogatePair_point:
  assumes "is_lead c" "is_trail t"
  shows "surrogatePair (uint c) (uint t) = pair_point (uint c) (uint t)"
  using or_disjoint [of "uint t - 0xDC00" 10 "uint c - 0xD800"] assms
  by (simp add: surrogatePair_def pair_point_def push_bit_eq_mult)

lemma pair_point_bounds:
  assumes "is_lead c" "is_trail t"
  shows "0x10000 \<le> pair_point (uint c) (uint t)" "pair_point (uint c) (uint t) < 0x110000"
  using assms by (auto simp: pair_point_def)

lemma unit_bounds: "0 \<le> uint (c :: code_unit)" "uint c < 0x10000"
  using uint_bounded [of c] by simp_all

lemma points_scalar: "well_formed s \<Longrightarrow> p \<in> set (points s) \<Longrightarrow> scalar p"
proof (induction s rule: points.induct)
  case (1 c t s)
  show ?case
  proof (cases "is_lead c")
    case True
    with 1 pair_point_bounds [of c t] show ?thesis by (auto simp: scalar_def)
  next
    case False
    with 1 unit_bounds [of c] show ?thesis by (auto simp: scalar_def)
  qed
next
  case (2 c)
  with unit_bounds [of c] show ?case by (auto simp: scalar_def)
qed simp

lemma enough_append: "enough u (j + k) \<Longrightarrow> enough u j \<and> enough (minus_units u (int j)) k"
  by (cases u) (auto simp: enough_def)

lemma utf8_loop_point:
  assumes "\<not> is_lead c" "\<not> is_trail c" "enough u (length (utf8_bytes (uint c)) + k)"
  shows "utf8_loop (c # s) None u = bindR (utf8_loop s None (minus_units u (int (length (utf8_bytes (uint c))))))
           (\<lambda>bytes. Inr (utf8_bytes (uint c) @ bytes))"
  using encodePoint_bytes [of "uint c" u] enough_append [OF assms(3)] unit_bounds [of c] assms(1,2)
  by (auto simp: Let_def)

lemma utf8_loop_pair:
  assumes "is_lead c" "is_trail t" "enough u (length (utf8_bytes (pair_point (uint c) (uint t))) + k)"
  shows "utf8_loop (c # t # s) None u =
    bindR (utf8_loop s None (minus_units u (int (length (utf8_bytes (pair_point (uint c) (uint t)))))))
      (\<lambda>bytes. Inr (utf8_bytes (pair_point (uint c) (uint t)) @ bytes))"
  using encodePoint_bytes [of "pair_point (uint c) (uint t)" u] enough_append [OF assms(3)]
    pair_point_bounds [OF assms(1,2)] surrogatePair_point [OF assms(1,2)] assms(1,2)
  by (auto simp: Let_def)

lemma utf8_loop_well_formed:
  "well_formed s \<Longrightarrow> enough u (length (utf8_all (points s))) \<Longrightarrow>
     utf8_loop s None u = Inr (utf8_all (points s))"
proof (induction s arbitrary: u rule: points.induct)
  case (1 c t s)
  show ?case
  proof (cases "is_lead c")
    case True
    let ?p = "pair_point (uint c) (uint t)"
    have e: "enough u (length (utf8_bytes ?p) + length (utf8_all (points s)))" using 1(4) True by simp
    show ?thesis
      using utf8_loop_pair [OF True _ e, of s] 1(1) [OF True, of "minus_units u (int (length (utf8_bytes ?p)))"]
        1(3) True enough_append [OF e] by (simp del: utf8_loop.simps)
  next
    case False
    then have p: "points (c # t # s) = uint c # points (t # s)" by (simp only: points.simps if_False)
    have w: "well_formed (t # s)" "\<not> is_trail c" using 1(3) False by auto
    have e: "enough u (length (utf8_bytes (uint c)) + length (utf8_all (points (t # s))))"
      using 1(4) unfolding p by simp
    show ?thesis
      using utf8_loop_point [OF False w(2) e, of "t # s"] enough_append [OF e]
        1(2) [OF False w(1), of "minus_units u (int (length (utf8_bytes (uint c))))"]
      unfolding p by (simp del: utf8_loop.simps points.simps)
  qed
next
  case (2 c)
  have e: "enough u (length (utf8_bytes (uint c)) + 0)" using 2(2) by simp
  show ?case using utf8_loop_point [OF _ _ e, of "[]"] 2(1) by simp
qed simp

section \<open>Decoding a code point\<close>

lemma uint_byte_id: "0 \<le> x \<Longrightarrow> x < 256 \<Longrightarrow> uint (word_of_int x :: byte) = x"
  by (simp add: uint_word_of_int)

lemma continuation_ok: "0 \<le> x \<Longrightarrow> x < 64 \<Longrightarrow> continuation (0x80 + x) \<and> (0x80 + x) AND 0x3F = (x :: int)"
  using and_high [of x 6 2 3] and_low [of x 6 2] by simp

lemma lead_bits:
  fixes x :: int
  shows "0 \<le> x \<Longrightarrow> x < 32 \<Longrightarrow> (0xC0 + x) AND 0x1F = x"
  "0 \<le> x \<Longrightarrow> x < 16 \<Longrightarrow> (0xE0 + x) AND 0xF = x"
  "0 \<le> x \<Longrightarrow> x < 16 \<Longrightarrow> (0xF0 + x) AND 0xF = x"
  using and_low [of x 5 6] and_low [of x 4 14] and_low [of x 4 15] by simp_all

lemma join_bits:
  fixes q r :: int
  assumes "0 \<le> r" "r < 64"
  shows "push_bit 6 q OR r = q * 64 + r"
  using or_disjoint [of r 6 q] assms by (simp add: push_bit_eq_mult)

lemma join_bits3:
  fixes a b c :: int
  assumes "0 \<le> b" "b < 64" "0 \<le> c" "c < 64"
  shows "push_bit 0xC a OR push_bit 6 b OR c = a * 0x1000 + b * 64 + c"
proof -
  have "push_bit 6 b OR c = b * 64 + c" by (rule join_bits [OF assms(3,4)])
  moreover have "a * 2 ^ 12 OR (b * 64 + c) = a * 2 ^ 12 + (b * 64 + c)"
    using assms by (intro or_disjoint) auto
  ultimately show ?thesis by (simp add: or.assoc push_bit_eq_mult)
qed

lemma join_bits4:
  fixes a b c d :: int
  assumes "0 \<le> b" "b < 64" "0 \<le> c" "c < 64" "0 \<le> d" "d < 64"
  shows "push_bit 0x12 a OR push_bit 0xC b OR push_bit 6 c OR d = a * 0x40000 + b * 0x1000 + c * 64 + d"
proof -
  have "push_bit 0xC b OR push_bit 6 c OR d = b * 0x1000 + c * 64 + d" by (rule join_bits3 [OF assms(3-6)])
  moreover have "a * 2 ^ 18 OR (b * 0x1000 + c * 64 + d) = a * 2 ^ 18 + (b * 0x1000 + c * 64 + d)"
    using assms by (intro or_disjoint) auto
  ultimately show ?thesis by (simp add: or.assoc push_bit_eq_mult)
qed

lemma split_points:
  fixes p :: int
  shows "p div 64 * 64 + p mod 64 = p"
    and "p div 0x1000 * 0x1000 + p div 64 mod 64 * 64 + p mod 64 = p"
    and "p div 0x40000 * 0x40000 + p div 0x1000 mod 64 * 0x1000 + p div 64 mod 64 * 64 + p mod 64 = p"
proof -
  show 1: "p div 64 * 64 + p mod 64 = p" by simp
  have "p div 64 = p div 0x1000 * 64 + p div 64 mod 64"
    using zdiv_zmult2_eq [of 64 p 64] div_mult_mod_eq [of "p div 64" 64] by simp
  moreover have "a * 0x1000 + b * 64 + c = n" if "n = q * 64 + c" "q = a * 64 + b" for a b c n q :: int
    using that by simp
  ultimately show 2: "p div 0x1000 * 0x1000 + p div 64 mod 64 * 64 + p mod 64 = p" using 1 by metis
  have "p div 0x1000 = p div 0x40000 * 64 + p div 0x1000 mod 64"
    using zdiv_zmult2_eq [of 64 p 4096] div_mult_mod_eq [of "p div 0x1000" 64] by simp
  moreover have "a * 0x40000 + b * 0x1000 + c + d = n" if "q * 0x1000 + c + d = n" "q = a * 64 + b"
    for a b c d n q :: int
    using that by simp
  ultimately show "p div 0x40000 * 0x40000 + p div 0x1000 mod 64 * 0x1000 + p div 64 mod 64 * 64 + p mod 64 = p"
    using 2 by metis
qed

lemma surrogates_of:
  assumes "0x10000 \<le> p" "p < 0x110000"
  shows "[drop_bit 10 (p - 0x10000) AND 0x3FF OR 0xD800, 0xDC00 OR ((p - 0x10000) AND 0x3FF)] = units_of p"
proof -
  let ?c = "p - 0x10000"
  have c: "0 \<le> ?c div 1024" "?c div 1024 < 1024" using assms by (auto simp: pos_imp_zdiv_nonneg_iff)
  have "drop_bit 10 ?c AND 0x3FF = ?c div 1024"
    using and_mask_mod [of "?c div 1024" 10] c by (simp add: drop_bit_eq_div)
  moreover have "?c div 1024 OR 0xD800 = 0xD800 + ?c div 1024" using or_add [of "?c div 1024" 10 54] c by simp
  moreover have "0xDC00 OR (?c AND 0x3FF) = 0xDC00 + ?c mod 1024"
    using or_disjoint [of "?c mod 1024" 10 55] and_mask_mod [of ?c 10] by simp
  ultimately show ?thesis using assms by (simp add: units_of_def)
qed

lemma fits:
  assumes "drop i buf = xs @ rest" "xs \<noteq> []"
  shows "i + length xs \<le> length buf"
proof -
  have "length buf - i = length xs + length rest" using arg_cong [OF assms(1), of length] by simp
  moreover have "length xs > 0" using assms(2) by simp
  ultimately show ?thesis by linarith
qed

lemma nth_of_drop:
  assumes "drop i buf = xs @ rest" "k < length xs"
  shows "buf ! (i + k) = xs ! k"
proof -
  have "xs \<noteq> []" using assms(2) by auto
  with fits [OF assms(1)] have "i \<le> length buf" by simp
  then have "buf ! (i + k) = drop i buf ! k" by simp
  then show ?thesis using assms by (simp add: nth_append)
qed

lemma decodeStep_two:
  assumes "0x80 \<le> p" "p < 0x800" and d: "drop i buf = utf8_bytes p @ rest"
  shows "decodeStep buf i (length buf) = ([p], 2)"
proof -
  have q: "2 \<le> p div 64" "p div 64 < 32" using assms by auto
  have b: "utf8_bytes p = [word_of_int (0xC0 + p div 64), word_of_int (0x80 + p mod 64)]"
    using assms by (simp add: utf8_bytes.simps)
  have u: "uint (buf ! i) = 0xC0 + p div 64" "uint (buf ! (i + 1)) = 0x80 + p mod 64"
    using nth_of_drop [OF d, of 0] nth_of_drop [OF d, of 1] q
    by (simp_all add: b uint_byte_id del: of_int_add)
  have l: "i + 2 \<le> length buf" using fits [OF d] by (simp add: b)
  have t: "push_bit 6 ((0xC0 + p div 64) AND 0x1F) OR ((0x80 + p mod 64) AND 0x3F) = p"
    using lead_bits(1) [of "p div 64"] continuation_ok [of "p mod 64"] join_bits [of "p mod 64" "p div 64"] q
    by simp
  have "sequencePoint buf i 2 = Some p"
    unfolding sequencePoint_def Let_def u t using continuation_ok [of "p mod 64"] assms(1) by simp
  moreover have "bytesPerSequence (uint (buf ! i)) = 2" using q by (simp add: bytesPerSequence_def u)
  ultimately show ?thesis using l assms by (simp add: decodeStep_def)
qed

lemma decodeStep_three:
  assumes "0x800 \<le> p" "p < 0x10000" "scalar p" and d: "drop i buf = utf8_bytes p @ rest"
  shows "decodeStep buf i (length buf) = ([p], 3)"
proof -
  have q: "0 \<le> p div 0x1000" "p div 0x1000 < 16" using assms by (auto simp: pos_imp_zdiv_nonneg_iff)
  have b: "utf8_bytes p = [word_of_int (0xE0 + p div 0x1000), word_of_int (0x80 + p div 64 mod 64),
      word_of_int (0x80 + p mod 64)]"
    using assms by (simp add: utf8_bytes.simps)
  have u: "uint (buf ! i) = 0xE0 + p div 0x1000" "uint (buf ! (i + 1)) = 0x80 + p div 64 mod 64"
    "uint (buf ! (i + 2)) = 0x80 + p mod 64"
    using nth_of_drop [OF d, of 0] nth_of_drop [OF d, of 1] nth_of_drop [OF d, of 2] q
    by (simp_all add: b uint_byte_id del: of_int_add)
  have l: "i + 3 \<le> length buf" using fits [OF d] by (simp add: b)
  note c = continuation_ok [of "p mod 64"] continuation_ok [of "p div 64 mod 64"]
  have t: "push_bit 0xC ((0xE0 + p div 0x1000) AND 0xF) OR push_bit 6 ((0x80 + p div 64 mod 64) AND 0x3F)
      OR ((0x80 + p mod 64) AND 0x3F) = p"
    using lead_bits(2) [OF q] c join_bits3 [of "p div 64 mod 64" "p mod 64" "p div 0x1000"] split_points(2) [of p]
    by simp
  have "p < 0xD800 \<or> p > 0xDFFF" using assms(3) by (auto simp: scalar_def)
  then have "sequencePoint buf i 3 = Some p"
    unfolding sequencePoint_def Let_def u t using c assms(1) by simp
  moreover have "bytesPerSequence (uint (buf ! i)) = 3" using q by (simp add: bytesPerSequence_def u)
  ultimately show ?thesis using l assms by (simp add: decodeStep_def)
qed

lemma decodeStep_four:
  assumes "0x10000 \<le> p" "p < 0x110000" and d: "drop i buf = utf8_bytes p @ rest"
  shows "decodeStep buf i (length buf) = (units_of p, 4)"
proof -
  have q: "0 \<le> p div 0x40000" "p div 0x40000 < 16" using assms by (auto simp: pos_imp_zdiv_nonneg_iff)
  have b: "utf8_bytes p = [word_of_int (0xF0 + p div 0x40000), word_of_int (0x80 + p div 0x1000 mod 64),
      word_of_int (0x80 + p div 64 mod 64), word_of_int (0x80 + p mod 64)]"
    using assms by (simp add: utf8_bytes.simps)
  have u: "uint (buf ! i) = 0xF0 + p div 0x40000" "uint (buf ! (i + 1)) = 0x80 + p div 0x1000 mod 64"
    "uint (buf ! (i + 2)) = 0x80 + p div 64 mod 64" "uint (buf ! (i + 3)) = 0x80 + p mod 64"
    using nth_of_drop [OF d, of 0] nth_of_drop [OF d, of 1] nth_of_drop [OF d, of 2] nth_of_drop [OF d, of 3] q
    by (simp_all add: b uint_byte_id del: of_int_add)
  have l: "i + 4 \<le> length buf" using fits [OF d] by (simp add: b)
  note c = continuation_ok [of "p mod 64"] continuation_ok [of "p div 64 mod 64"]
    continuation_ok [of "p div 0x1000 mod 64"]
  have low: "(0x80 + p mod 64) AND 0x3F = p mod 64" "(0x80 + p div 64 mod 64) AND 0x3F = p div 64 mod 64"
    "(0x80 + p div 0x1000 mod 64) AND 0x3F = p div 0x1000 mod 64"
    using c by simp_all
  have t: "push_bit 0x12 ((0xF0 + p div 0x40000) AND 0xF) OR push_bit 0xC ((0x80 + p div 0x1000 mod 64) AND 0x3F)
      OR push_bit 6 ((0x80 + p div 64 mod 64) AND 0x3F) OR ((0x80 + p mod 64) AND 0x3F) = p"
    unfolding lead_bits(3) [OF q] low
    by (subst join_bits4) (simp_all only: pos_mod_bound pos_mod_sign split_points zero_less_numeral)
  have "sequencePoint buf i 4 = Some p"
    unfolding sequencePoint_def Let_def u t using c assms(1,2) by simp
  moreover have "bytesPerSequence (uint (buf ! i)) = 4" using q by (simp add: bytesPerSequence_def u)
  ultimately show ?thesis using l assms surrogates_of [OF assms(1,2)] by (simp add: decodeStep_def Let_def)
qed

lemma decodeStep_point:
  assumes "scalar p" and d: "drop i buf = utf8_bytes p @ rest"
  shows "decodeStep buf i (length buf) = (units_of p, length (utf8_bytes p))"
proof -
  have r: "0 \<le> p" "p < 0x110000" using assms(1) by (auto simp: scalar_def)
  consider "p < 0x80" | "0x80 \<le> p" "p < 0x800" | "0x800 \<le> p" "p < 0x10000" | "0x10000 \<le> p" by linarith
  then show ?thesis
  proof cases
    case 1
    then have b: "utf8_bytes p = [word_of_int p]" by (simp add: utf8_bytes.simps)
    have "uint (buf ! i) = p" using nth_of_drop [OF d, of 0] 1 r by (simp add: b uint_byte_id)
    moreover have "i + 1 \<le> length buf" using fits [OF d] by (simp add: b)
    ultimately show ?thesis using 1
      by (simp add: decodeStep_def bytesPerSequence_def sequencePoint_def units_of_def b)
  next
    case 2
    with decodeStep_two [OF _ _ d] show ?thesis by (simp add: units_of_def utf8_bytes.simps)
  next
    case 3
    with decodeStep_three [OF _ _ assms(1) d] show ?thesis by (simp add: units_of_def utf8_bytes.simps)
  next
    case 4
    with decodeStep_four [OF _ _ d] r show ?thesis by (simp add: utf8_bytes.simps)
  qed
qed

lemma utf8Slice_loop_points:
  "\<forall>p\<in>set ps. scalar p \<Longrightarrow> drop i buf = utf8_all ps \<Longrightarrow>
     utf8Slice_loop buf i (length buf) = concat (map units_of ps)"
proof (induction ps arbitrary: i)
  case Nil
  then show ?case by (subst utf8Slice_loop.simps) simp
next
  case (Cons p ps)
  let ?b = "utf8_bytes p"
  have d: "drop i buf = ?b @ utf8_all ps" using Cons.prems(2) by simp
  have ne: "?b \<noteq> []" by (simp add: utf8_bytes.simps)
  from fits [OF d ne] ne have "i < length buf" by (cases ?b) auto
  moreover have "drop (i + length ?b) buf = utf8_all ps"
  proof -
    have "drop (i + length ?b) buf = drop (length ?b) (drop i buf)" by (simp add: add.commute)
    then show ?thesis by (simp add: d)
  qed
  ultimately show ?case
    using Cons decodeStep_point [OF _ d] by (subst utf8Slice_loop.simps) simp
qed

lemma decodeChunks_eq: "decodeChunks cs = fromCharCode cs"
proof (induction cs rule: decodeChunks.induct)
  case (1 cs)
  show ?case
  proof (cases "cs = []")
    case False
    then have "decodeChunks cs = fromCharCode (take 0x1000 cs) @ fromCharCode (drop 0x1000 cs)"
      using 1 by (subst decodeChunks.simps) simp
    then show ?thesis by (simp add: fromCharCode_def map_append [symmetric] del: map_append)
  qed (simp add: decodeChunks.simps fromCharCode_def)
qed

lemma decodeCodePointsArray_eq: "decodeCodePointsArray cs = fromCharCode cs"
  by (simp add: decodeCodePointsArray_def decodeChunks_eq)

lemma units_of_points: "well_formed s \<Longrightarrow> fromCharCode (concat (map units_of (points s))) = s"
proof (induction s rule: points.induct)
  case (1 c t s)
  show ?case
  proof (cases "is_lead c")
    case True
    with 1(3) have w: "is_trail t" "well_formed s" by simp_all
    let ?p = "pair_point (uint c) (uint t)"
    have e: "?p - 0x10000 = (uint t - 0xDC00) + (uint c - 0xD800) * 1024" by (simp add: pair_point_def)
    have "(y + x * 1024) div 1024 = x \<and> (y + x * 1024) mod 1024 = y" if "0 \<le> y" "y < 1024" for x y :: int
      using that by simp
    from this [of "uint t - 0xDC00" "uint c - 0xD800"] w(1)
    have "(?p - 0x10000) div 1024 = uint c - 0xD800" "(?p - 0x10000) mod 1024 = uint t - 0xDC00"
      unfolding e by simp_all
    then have "units_of ?p = [uint c, uint t]"
      using pair_point_bounds [OF True w(1)] by (simp add: units_of_def)
    then show ?thesis using True w 1(1) by (simp add: fromCharCode_def)
  next
    case False
    then have "points (c # t # s) = uint c # points (t # s)" by (simp only: points.simps if_False)
    moreover have "well_formed (t # s)" using 1(3) False by auto
    moreover have "units_of (uint c) = [uint c]" using unit_bounds [of c] by (simp add: units_of_def)
    ultimately show ?thesis using 1(2) [OF False] by (simp add: fromCharCode_def del: points.simps)
  qed
next
  case (2 c)
  have "units_of (uint c) = [uint c]" using unit_bounds [of c] by (simp add: units_of_def)
  then show ?case by (simp add: fromCharCode_def)
qed (simp add: fromCharCode_def)

lemma utf8Slice_utf8_all:
  assumes "well_formed s"
  shows "utf8Slice (utf8_all (points s)) 0 (length (utf8_all (points s))) = s"
  using utf8Slice_loop_points [of "points s" 0 "utf8_all (points s)"] points_scalar [OF assms] units_of_points [OF assms]
  by (simp add: utf8Slice_def decodeCodePointsArray_eq)

end
