(* ===== verification/Buffer_From.thy ===== *)
theory Buffer_From
  imports Buffer_Utf8
begin

text \<open>
  \<open>Buffer.from(string, encoding)\<close> and \<open>toString(encoding)\<close> as codecs. The locale \<open>codec\<close> states
  that decoding inverts encoding on a set of inputs; it is interpreted for hexadecimal,
  base64, Latin-1 and UTF-16 (bytes to text and back) and for UTF-8 (text to bytes and back).
\<close>

locale codec =
  fixes enc :: "'a \<Rightarrow> 'e + 'b" and dec :: "'b \<Rightarrow> 'e + 'a" and ok :: "'a \<Rightarrow> bool"
  assumes roundtrip: "ok x \<Longrightarrow> \<exists>y. enc x = Inr y \<and> dec y = Inr x"
begin

lemma dec_enc: "ok x \<Longrightarrow> bindR (enc x) dec = Inr x"
  using roundtrip by fastforce

lemma enc_inj: "ok x \<Longrightarrow> ok y \<Longrightarrow> enc x = enc y \<Longrightarrow> x = y"
  using roundtrip [of x] roundtrip [of y] by auto

end

section \<open>Writing into a buffer of the right size\<close>

lemma blitBuffer_loop_full:
  "i \<le> length src \<Longrightarrow> length rest = length src - i \<Longrightarrow>
     blitBuffer_loop src (take i src @ rest) 0 (int (length src)) i = (src, int (length src))"
proof (induction "length src - i" arbitrary: i rest)
  case 0
  then show ?case by (subst blitBuffer_loop.simps) simp
next
  case (Suc k)
  then have i: "i < length src" by simp
  then obtain r rest' where rest: "rest = r # rest'" using Suc.prems by (cases rest) auto
  have "put (take i src @ rest) (int i + 0) (at src (int i)) = take (Suc i) src @ rest'"
    using i rest by (simp add: put_def at_nat list_update_append take_Suc_conv_app_nth)
  moreover have "blitBuffer_loop src (take (Suc i) src @ rest') 0 (int (length src)) (Suc i) = (src, int (length src))"
    using Suc i rest by (intro Suc.hyps) auto
  ultimately show ?case using i rest by (subst blitBuffer_loop.simps) simp
qed

lemma blitBuffer_full:
  "length dst = length src \<Longrightarrow> blitBuffer src dst 0 (int (length src)) = (src, int (length src))"
  using blitBuffer_loop_full [of 0 src dst] by (simp add: blitBuffer_def)

definition write_as :: "enc \<Rightarrow> buffer \<Rightarrow> js_string \<Rightarrow> int \<Rightarrow> int \<Rightarrow> js_error + buffer \<times> int" where
  "write_as e = (case e of Hex \<Rightarrow> hexWrite | Utf8 \<Rightarrow> utf8Write | Ascii \<Rightarrow> asciiWrite | Latin1 \<Rightarrow> latin1Write
     | Base64 \<Rightarrow> base64Write | Ucs2 \<Rightarrow> ucs2Write)"

lemma fromString_eq:
  assumes "caseLabel e = Some x" and "caseLabel (toLowerCase e) \<noteq> None"
    and "byteLength s (Some e) = Inr (int n)" and "n < 2 ^ 31"
    and "write_as x (replicate n 0) s 0 (int n) = Inr (b, int n)"
  shows "fromString s (Some e) = Inr b"
proof -
  have ne: "e \<noteq> []" using assms(1) by (auto simp: caseLabel_def)
  have sw: "switchEncoding e = Some x" using assms(1) by (simp add: switchEncoding_def)
  have w: "writeString s (WriteEncoding e) (replicate n 0) = Inr (b, int n)"
    using assms(5) ne sw by (cases x) (simp_all add: writeString_def write_as_def Let_def)
  have i: "int32 (int n) = int n" using assms(4) by (intro int32_id) simp_all
  have c: "createBuffer (int n) = Inr (replicate n 0)" using assms(4) by (simp add: createBuffer_def)
  show ?thesis
    using assms(2,3) ne by (simp add: fromString_def isEncoding_def Let_def i c w)
qed

text \<open>The part of \<open>toString\<close> that is left when a whole buffer is converted.\<close>

definition slice_as :: "enc \<Rightarrow> buffer \<Rightarrow> js_string" where
  "slice_as e b = (case e of Hex \<Rightarrow> hexSlice b 0 (int (length b)) | Utf8 \<Rightarrow> utf8Slice b 0 (length b)
     | Ascii \<Rightarrow> asciiSlice b 0 (length b) | Latin1 \<Rightarrow> latin1Slice b 0 (length b)
     | Base64 \<Rightarrow> base64Slice b 0 (length b) | Ucs2 \<Rightarrow> utf16leSlice b 0 (length b))"

lemma toString_eq:
  assumes "caseLabel e = Some x" and "b = [] \<Longrightarrow> slice_as x b = []"
  shows "toString b (Some e) = Inr (slice_as x b)"
proof (cases "b = []")
  case False
  have ne: "e \<noteq> []" using assms(1) by (auto simp: caseLabel_def)
  have sw: "switchEncoding e = Some x" using assms(1) by (simp add: switchEncoding_def)
  with False ne show ?thesis
    by (cases x) (simp_all add: toString_def slowToString_def slice_as_def Let_def)
qed (use assms(2) in \<open>simp add: toString_def\<close>)

lemma names:
  "caseLabel ''utf8'' = Some Utf8" "caseLabel (toLowerCase ''utf8'') \<noteq> None"
  "caseLabel ''hex'' = Some Hex" "caseLabel (toLowerCase ''hex'') \<noteq> None"
  "caseLabel ''latin1'' = Some Latin1" "caseLabel (toLowerCase ''latin1'') \<noteq> None"
  "caseLabel ''base64'' = Some Base64" "caseLabel (toLowerCase ''base64'') \<noteq> None"
  "caseLabel ''ucs2'' = Some Ucs2" "caseLabel (toLowerCase ''ucs2'') \<noteq> None"
  by (simp_all add: caseLabel_def toLowerCase_def tolower_def)

section \<open>UTF-8\<close>

lemma utf8_bytes_length: "p < 0x10000 \<Longrightarrow> length (utf8_bytes p) \<le> 3" "length (utf8_bytes p) \<le> 4"
  by (simp_all add: utf8_bytes.simps)

lemma utf8_all_length: "length (utf8_all (points s)) \<le> 3 * length s"
proof (induction s rule: points.induct)
  case (1 c t s)
  have "length (utf8_bytes (uint c)) \<le> 3" using unit_bounds [of c] by (intro utf8_bytes_length) simp
  with 1 utf8_bytes_length(2) [of "pair_point (uint c) (uint t)"] show ?case
    by (cases "is_lead c") (auto simp: if_not_P)
next
  case (2 c)
  then show ?case using unit_bounds [of c] by (simp add: utf8_bytes_length)
qed simp

lemma fromString_utf8:
  assumes "well_formed s" and "3 * length s < 2 ^ 31"
  shows "fromString s (Some ''utf8'') = Inr (utf8_all (points s))"
proof (rule fromString_eq [OF names(1,2)])
  let ?b = "utf8_all (points s)"
  have "utf8_loop s None None = Inr ?b" using assms(1) by (intro utf8_loop_well_formed) (simp_all add: enough_def)
  then show "byteLength s (Some ''utf8'') = Inr (int (length ?b))"
    by (cases s) (simp_all add: byteLength_def switchEncoding_def names utf8ToBytes_def)
  show "length ?b < 2 ^ 31" using utf8_all_length [of s] assms(2) by linarith
  have "utf8ToBytes s (Some (int (length ?b))) = Inr ?b"
    unfolding utf8ToBytes_def using assms(1) by (intro utf8_loop_well_formed) (simp_all add: enough_def)
  then show "write_as Utf8 (replicate (length ?b) 0) s 0 (int (length ?b)) = Inr (?b, int (length ?b))"
    using blitBuffer_full [of "replicate (length ?b) 0" ?b] by (simp add: write_as_def utf8Write_def)
qed

lemma toString_utf8:
  assumes "well_formed s"
  shows "toString (utf8_all (points s)) (Some ''utf8'') = Inr s"
proof -
  have "slice_as Utf8 (utf8_all (points s)) = s"
    using utf8Slice_utf8_all [OF assms] by (simp add: slice_as_def)
  moreover have "slice_as Utf8 [] = []"
    by (simp add: slice_as_def utf8Slice_def utf8Slice_loop.simps decodeCodePointsArray_eq fromCharCode_def)
  ultimately show ?thesis using toString_eq [OF names(1), of "utf8_all (points s)"] by metis
qed

interpretation utf8: codec "\<lambda>s. fromString s (Some ''utf8'')" "\<lambda>b. toString b (Some ''utf8'')"
    "\<lambda>s. well_formed s \<and> 3 * length s < 2 ^ 31"
  by unfold_locales (use fromString_utf8 toString_utf8 in blast)

text \<open>
  C19: UTF-8 text survives a buffer. A string in which every surrogate is half of a pair, and
  which is short enough for a buffer, is turned into bytes by \<open>Buffer.from\<close> and back into the
  same string by \<open>toString\<close>.
\<close>

theorem utf8_roundtrip:
  assumes "well_formed s" and "3 * length s < 2 ^ 31"
  shows "bindR (fromString s (Some ''utf8'')) (\<lambda>b. toString b (Some ''utf8'')) = Inr s"
  using assms by (intro utf8.dec_enc) simp

theorem utf8_roundtrip_witness:
  "bindR (fromString [0x68, 0xE9, 0x20AC, 0xD83D, 0xDE00] (Some ''utf8'')) (\<lambda>b. toString b (Some ''utf8''))
     = Inr [0x68, 0xE9, 0x20AC, 0xD83D, 0xDE00]"
  by (rule utf8_roundtrip) simp_all

section \<open>Latin-1\<close>

lemma latin1Slice_all: "latin1Slice b 0 (length b) = map (\<lambda>x. word_of_int (uint x)) b"
  unfolding latin1Slice_def by (rule nth_equalityI) simp_all

lemma uint_unit: "0 \<le> v \<Longrightarrow> v < 0x10000 \<Longrightarrow> uint (word_of_int v :: code_unit) = v"
  by (simp add: uint_word_of_int)

lemma byte_of_unit: "(word_of_int (uint (word_of_int (uint x) :: code_unit) AND 0xFF) :: byte) = x"
proof -
  have u: "uint (word_of_int (uint x) :: code_unit) = uint x"
    using byte_bounds [of x] by (intro uint_unit) simp_all
  have "uint x AND 0xFF = uint x" using and_mask_mod [of "uint x" 8] byte_bounds [of x] by simp
  with u show ?thesis by simp
qed

lemma latin1_codec:
  assumes "length b < 2 ^ 31"
  shows "\<exists>s. toString b (Some ''latin1'') = Inr s \<and> fromString s (Some ''latin1'') = Inr b"
proof (intro exI conjI)
  let ?s = "slice_as Latin1 b"
  have s: "?s = map (\<lambda>x. word_of_int (uint x)) b" by (simp add: slice_as_def latin1Slice_all)
  show "toString b (Some ''latin1'') = Inr ?s" by (rule toString_eq [OF names(5)]) (unfold s, simp)
  show "fromString ?s (Some ''latin1'') = Inr b"
  proof (rule fromString_eq [OF names(5,6) _ assms])
    show "byteLength ?s (Some ''latin1'') = Inr (int (length b))"
      by (simp add: byteLength_def switchEncoding_def names s Let_def)
    have "asciiToBytes ?s = b" unfolding s asciiToBytes_def map_map comp_def byte_of_unit by simp
    then show "write_as Latin1 (replicate (length b) 0) ?s 0 (int (length b)) = Inr (b, int (length b))"
      using blitBuffer_full [of "replicate (length b) 0" b]
      by (simp add: write_as_def latin1Write_def asciiWrite_def)
  qed
qed

interpretation latin1: codec "\<lambda>b. toString b (Some ''latin1'')" "\<lambda>s. fromString s (Some ''latin1'')"
    "\<lambda>b. length b < 2 ^ 31"
  by unfold_locales (rule latin1_codec)

section \<open>UTF-16\<close>

lemma slice_all:
  assumes "length b < 2 ^ 31"
  shows "slice_bytes b 0 (Some (int (length b))) = b"
proof -
  have "int32 (int (length b)) = int (length b)" "int32 0 = 0"
    using assms by (simp_all add: int32_id)
  then show ?thesis by (simp add: slice_bytes_def slice_range_def slice_bound_def Let_def)
qed

lemma joinPairs_inverse:
  "even (length b) \<Longrightarrow> u \<ge> int (length b) \<Longrightarrow> utf16leToBytes (joinPairs b) u = b"
proof (induction b arbitrary: u rule: joinPairs.induct)
  case (1 x y b)
  note bd = byte_bounds [of x] byte_bounds [of y]
  have v: "uint (word_of_int (uint x + uint y * 256) :: code_unit) = uint x + uint y * 256"
    using bd by (intro uint_unit) simp_all
  have "(uint x + uint y * 256) mod 256 = uint x" "drop_bit 8 (uint x + uint y * 256) = uint y"
    using bd by (simp_all add: drop_bit_eq_div)
  with 1 v show ?case by (simp add: Let_def del: of_int_add)
qed simp_all

lemma length_joinPairs: "even (length b) \<Longrightarrow> length (joinPairs b) * 2 = length b"
  by (induction b rule: joinPairs.induct) simp_all

lemma ucs2_codec:
  assumes "length b < 2 ^ 31" and "even (length b)"
  shows "\<exists>s. toString b (Some ''ucs2'') = Inr s \<and> fromString s (Some ''ucs2'') = Inr b"
proof (intro exI conjI)
  let ?s = "slice_as Ucs2 b"
  have s: "?s = joinPairs b" using slice_all [OF assms(1)] by (simp add: slice_as_def utf16leSlice_def)
  show "toString b (Some ''ucs2'') = Inr ?s" by (rule toString_eq [OF names(9)]) (unfold s, simp)
  show "fromString ?s (Some ''ucs2'') = Inr b"
  proof (rule fromString_eq [OF names(9,10) _ assms(1)])
    have "int (length (joinPairs b)) * 2 = int (length b)" using length_joinPairs [OF assms(2)] by linarith
    then show "byteLength ?s (Some ''ucs2'') = Inr (int (length b))"
      by (auto simp: byteLength_def switchEncoding_def names s Let_def)
    show "write_as Ucs2 (replicate (length b) 0) ?s 0 (int (length b)) = Inr (b, int (length b))"
      using joinPairs_inverse [OF assms(2), of "int (length b)"] blitBuffer_full [of "replicate (length b) 0" b]
      by (simp add: write_as_def ucs2Write_def s)
  qed
qed

interpretation ucs2: codec "\<lambda>b. toString b (Some ''ucs2'')" "\<lambda>s. fromString s (Some ''ucs2'')"
    "\<lambda>b. length b < 2 ^ 31 \<and> even (length b)"
  by unfold_locales (use ucs2_codec in blast)

section \<open>Hexadecimal\<close>

lemma hexChar_facts:
  assumes "0 \<le> n" "n < 16"
  shows "hexValue (hexChar n) = Some n" and "\<not> isStrWhiteSpace (hexChar n)"
    and "hexChar n \<noteq> 0x2D" and "hexChar n \<noteq> 0x2B" and "hexChar n \<noteq> 0x78" and "hexChar n \<noteq> 0x58"
proof -
  have "n \<in> {0, 1, 2, 3, 4, 5, 6, 7, 8, 9, 10, 11, 12, 13, 14, 15}" using assms by (simp, presburger)
  then have "hexValue (hexChar n) = Some n \<and> \<not> isStrWhiteSpace (hexChar n) \<and> hexChar n \<noteq> 0x2D \<and>
      hexChar n \<noteq> 0x2B \<and> hexChar n \<noteq> 0x78 \<and> hexChar n \<noteq> 0x58"
    by (elim insertE emptyE) (simp_all add: hexChar_def lit_def hexValue_def isStrWhiteSpace_def Let_def)
  then show "hexValue (hexChar n) = Some n" "\<not> isStrWhiteSpace (hexChar n)"
    "hexChar n \<noteq> 0x2D" "hexChar n \<noteq> 0x2B" "hexChar n \<noteq> 0x78" "hexChar n \<noteq> 0x58" by blast+
qed

lemma toHex_digits: "toHex b = [hexChar (uint b div 16), hexChar (uint b mod 16)]"
proof (cases "uint b < 16")
  case True
  with byte_bounds [of b] have "uint b div 16 = 0" "uint b mod 16 = uint b" by simp_all
  moreover have "hexChar 0 = 0x30" by (simp add: hexChar_def lit_def)
  ultimately show ?thesis using True by (simp add: toHex_def)
qed (simp add: toHex_def Let_def)

lemma parseInt16_toHex: "parseInt16 (toHex b) = Some (uint b)"
proof -
  let ?h = "uint b div 16" and ?l = "uint b mod 16"
  have r: "0 \<le> ?h" "?h < 16" using byte_bounds [of b] by (auto simp: pos_imp_zdiv_nonneg_iff)
  have l: "0 \<le> ?l" "?l < 16" by simp_all
  show ?thesis
    using hexChar_facts [OF r] hexChar_facts [OF l]
    by (simp add: parseInt16_def toHex_digits Let_def)
qed

lemma hexSlice_all: "hexSlice b 0 (int (length b)) = concat (map toHex b)"
proof -
  have "map (\<lambda>i. toHex (b ! i)) [0..<length b] = map toHex b" by (rule nth_equalityI) simp_all
  then show ?thesis by (auto simp: hexSlice_def Let_def)
qed

lemma concat_toHex: "length (concat (map toHex b)) = 2 * length b"
  by (induction b) (simp_all add: toHex_digits)

lemma take_drop_toHex: "i < length b \<Longrightarrow> take 2 (drop (i * 2) (concat (map toHex b))) = toHex (b ! i)"
proof (induction b arbitrary: i)
  case (Cons x b)
  then show ?case by (cases i) (simp_all add: toHex_digits)
qed simp

lemma hexWrite_loop_full:
  "i \<le> length b \<Longrightarrow> length rest = length b - i \<Longrightarrow>
     hexWrite_loop (take i b @ rest) (concat (map toHex b)) 0 (int (length b)) i = (b, int (length b))"
proof (induction "length b - i" arbitrary: i rest)
  case 0
  then show ?case by (subst hexWrite_loop.simps) simp
next
  case (Suc k)
  then have i: "i < length b" by simp
  then obtain r rest' where rest: "rest = r # rest'" using Suc.prems by (cases rest) auto
  have "put (take i b @ rest) (0 + int i) (Num (uint (b ! i))) = take (Suc i) b @ rest'"
    using i rest by (simp add: put_def list_update_append take_Suc_conv_app_nth)
  moreover have "hexWrite_loop (take (Suc i) b @ rest') (concat (map toHex b)) 0 (int (length b)) (Suc i) = (b, int (length b))"
    using Suc i rest by (intro Suc.hyps) auto
  ultimately show ?case
    using i by (subst hexWrite_loop.simps) (simp add: take_drop_toHex parseInt16_toHex)
qed

lemma hex_codec:
  assumes "length b < 2 ^ 31"
  shows "\<exists>s. toString b (Some ''hex'') = Inr s \<and> fromString s (Some ''hex'') = Inr b"
proof (intro exI conjI)
  let ?s = "slice_as Hex b"
  have s: "?s = concat (map toHex b)" by (simp add: slice_as_def hexSlice_all)
  have n: "int (length ?s) = 2 * int (length b)" using concat_toHex [of b] s by simp
  show "toString b (Some ''hex'') = Inr ?s" by (rule toString_eq [OF names(3)]) (unfold s, simp)
  show "fromString ?s (Some ''hex'') = Inr b"
  proof (rule fromString_eq [OF names(3,4) _ assms])
    show "byteLength ?s (Some ''hex'') = Inr (int (length b))"
      by (simp add: byteLength_def switchEncoding_def names n Let_def)
    show "write_as Hex (replicate (length b) 0) ?s 0 (int (length b)) = Inr (b, int (length b))"
      using hexWrite_loop_full [of 0 b "replicate (length b) 0"] n unfolding s
      by (auto simp: write_as_def hexWrite_def Let_def)
  qed
qed

interpretation hex: codec "\<lambda>b. toString b (Some ''hex'')" "\<lambda>s. fromString s (Some ''hex'')"
    "\<lambda>b. length b < 2 ^ 31"
  by unfold_locales (rule hex_codec)

section \<open>Base64\<close>

lemma sextet_char: "\<exists>c \<in> set alphabet. sextet n = word_of_nat (code_of c)"
  using sextet_in_lookup [of n] by (auto simp: lookup_def lit_def)

lemma sextet_valid: "validBase64 (sextet n)" "\<not> isStrWhiteSpace (sextet n)"
proof -
  have "list_all (\<lambda>c. validBase64 (word_of_nat (code_of c)) \<and> \<not> isStrWhiteSpace (word_of_nat (code_of c))) alphabet"
    by (simp add: alphabet_def validBase64_def isStrWhiteSpace_def Let_def)
  with sextet_char [of n] show "validBase64 (sextet n)" "\<not> isStrWhiteSpace (sextet n)"
    by (auto simp: list_all_iff)
qed

lemma padding_facts: "\<not> validBase64 0x3D" "\<not> isStrWhiteSpace 0x3D"
  by (simp_all add: validBase64_def isStrWhiteSpace_def Let_def)

lemma encode_no_space: "c \<in> set (encode b) \<Longrightarrow> \<not> isStrWhiteSpace c"
  by (induction b rule: encode.induct) (auto simp: four_def sextet_valid padding_facts)

lemma dropWhile_none: "(\<And>c. c \<in> set xs \<Longrightarrow> \<not> P c) \<Longrightarrow> dropWhile P xs = xs"
  by (cases xs) auto

lemma stringtrim_encode: "stringtrim (encode b) = encode b"
proof -
  have "dropWhile isStrWhiteSpace (encode b) = encode b"
    "dropWhile isStrWhiteSpace (rev (encode b)) = rev (encode b)"
    using encode_no_space by (auto intro!: dropWhile_none)
  then show ?thesis by (simp add: stringtrim_def)
qed

text \<open>Cleaning drops the padding and puts it back.\<close>

lemma filter_four [simp]: "filter validBase64 (four t) = four t"
  by (simp add: four_def sextet_valid)

lemma filter_groups:
  assumes "length bs = 3 * n"
  shows "filter validBase64 (encode bs) = encode bs"
  using assms
proof (induction bs arbitrary: n rule: encode.induct)
  case (1 x y z r)
  then obtain k where "n = Suc k" by (cases n) auto
  with 1 show ?case by simp
qed (presburger | simp)+

lemma padBase64_0: "length s mod 4 = 0 \<Longrightarrow> padBase64 s = s"
  by (subst padBase64.simps) simp

lemma padBase64_1: "length s mod 4 = 3 \<Longrightarrow> padBase64 s = s @ [0x3D]"
  by (subst padBase64.simps) (simp add: padBase64_0 mod_Suc)

lemma padBase64_2: "length s mod 4 = 2 \<Longrightarrow> padBase64 s = s @ [0x3D, 0x3D]"
  by (subst padBase64.simps) (simp add: padBase64_1 mod_Suc)

lemma base64clean_encode: "base64clean (encode b) = encode b"
proof -
  obtain n bs tail where b: "b = bs @ tail" "length bs = 3 * n" "length tail < 3" by (rule split_groups)
  have enc: "encode b = encode bs @ encode tail" using encode_append [of bs tail] b by simp
  note whole = whole_groups(2) [OF b(2)] and flt = filter_groups [OF b(2)]
  have clean: "base64clean (encode b) = (if length f < 2 then [] else padBase64 f)"
    if "filter validBase64 (encode b) = f" for f
    using that by (simp add: base64clean_def stringtrim_encode)
  consider "tail = []" | x where "tail = [x]" | x y where "tail = [x, y]"
    using b(3) by (cases tail rule: encode.cases) auto
  then show ?thesis
  proof cases
    case 1
    then have "filter validBase64 (encode b) = encode b" using enc flt by simp
    from clean [OF this] 1 enc whole show ?thesis by (cases n) (simp_all add: padBase64_0)
  next
    case (2 x)
    let ?f = "encode bs @ [sextet (uint x div 4), sextet (uint x * 16)]"
    have "filter validBase64 (encode b) = ?f" using 2 enc flt by (simp add: sextet_valid padding_facts)
    moreover have "padBase64 ?f = encode b" using padBase64_2 [of ?f] 2 enc whole by (simp add: mod_Suc)
    ultimately show ?thesis using clean by simp
  next
    case (3 x y)
    let ?f = "encode bs @ [sextet (uint x div 4), sextet (uint x * 16 + uint y div 16), sextet (uint y * 4)]"
    have "filter validBase64 (encode b) = ?f" using 3 enc flt by (simp add: sextet_valid padding_facts)
    moreover have "padBase64 ?f = encode b" using padBase64_1 [of ?f] 3 enc whole by (simp add: mod_Suc)
    ultimately show ?thesis using clean by simp
  qed
qed

lemma base64_codec:
  assumes "length b < 2 ^ 31"
  shows "\<exists>s. toString b (Some ''base64'') = Inr s \<and> fromString s (Some ''base64'') = Inr b"
proof (intro exI conjI)
  let ?s = "slice_as Base64 b"
  have s: "?s = encode b" by (simp add: slice_as_def base64Slice_def fromByteArray_encode)
  have d: "base64ToBytes ?s = Inr b" by (simp add: s base64ToBytes_def base64clean_encode toByteArray_encode)
  show "toString b (Some ''base64'') = Inr ?s" by (rule toString_eq [OF names(7)]) (unfold s, simp)
  show "fromString ?s (Some ''base64'') = Inr b"
  proof (rule fromString_eq [OF names(7,8) _ assms])
    have "encode b = [] \<Longrightarrow> b = []" using length_encode [of b] by (cases b) auto
    then show "byteLength ?s (Some ''base64'') = Inr (int (length b))"
      using d s by (auto simp: byteLength_def switchEncoding_def names Let_def)
    show "write_as Base64 (replicate (length b) 0) ?s 0 (int (length b)) = Inr (b, int (length b))"
      using blitBuffer_full [of "replicate (length b) 0" b] d by (simp add: write_as_def base64Write_def)
  qed
qed

interpretation base64: codec "\<lambda>b. toString b (Some ''base64'')" "\<lambda>s. fromString s (Some ''base64'')"
    "\<lambda>b. length b < 2 ^ 31"
  by unfold_locales (rule base64_codec)

text \<open>
  C20: bytes survive their text forms. For every buffer, \<open>toString\<close> followed by \<open>Buffer.from\<close>
  gives the buffer back in the hexadecimal, base64 and Latin-1 encodings, and in UTF-16 when
  its length is even.
\<close>

theorem text_forms_roundtrip:
  assumes "length b < 2 ^ 31" and "e \<in> {''hex'', ''base64'', ''latin1''} \<or> e = ''ucs2'' \<and> even (length b)"
  shows "bindR (toString b (Some e)) (\<lambda>s. fromString s (Some e)) = Inr b"
  using assms hex.dec_enc base64.dec_enc latin1.dec_enc ucs2.dec_enc by auto

theorem text_forms_roundtrip_witness:
  "bindR (toString [0xDE, 0xAD, 0, 7] (Some ''hex'')) (\<lambda>s. fromString s (Some ''hex'')) = Inr [0xDE, 0xAD, 0, 7] \<and>
   bindR (toString [0xDE, 0xAD, 0, 7] (Some ''ucs2'')) (\<lambda>s. fromString s (Some ''ucs2'')) = Inr [0xDE, 0xAD, 0, 7]"
  using text_forms_roundtrip [of "[0xDE, 0xAD, 0, 7]" "''hex''"]
    text_forms_roundtrip [of "[0xDE, 0xAD, 0, 7]" "''ucs2''"]
  by simp

end
