(* ===== verification/Js_Value.thy ===== *)
theory Js_Value
  imports Js Utils
begin

text \<open>
  The JavaScript values that lodash, the utility library of the bundled page, computes with:
  primitive values, and references to objects, functions and symbols, which the code modelled
  here only compares by identity. Numbers are integers or \<open>NaN\<close>; the two zeros are one value,
  as they are for every comparison of the code modelled here. The theory also holds what the
  loops of the library share: a counting loop that runs to its end is a \<^const>\<open>fold\<close> over the
  indices, and a loop with a \<open>return\<close> or \<open>break\<close> in its body is a \<^const>\<open>foldR\<close>, whose \<open>Inl\<close>
  is the early exit.
\<close>

section \<open>Values\<close>

datatype jsval = Undefined | Null | Boolean bool | NaNv | Number int | String string | Ref nat

datatype js_type = TUndefined | TObject | TBoolean | TNumber | TString

text \<open>\<open>typeof\<close>; what it says of a reference depends on the object and is never used.\<close>

fun typeof :: "jsval \<Rightarrow> js_type" where
  "typeof Undefined = TUndefined"
| "typeof Null = TObject"
| "typeof (Boolean _) = TBoolean"
| "typeof NaNv = TNumber"
| "typeof (Number _) = TNumber"
| "typeof (String _) = TString"
| "typeof (Ref _) = TObject"

text \<open>\<open>===\<close>, and the comparison \<open>value == null\<close>.\<close>

definition strict_eq :: "jsval \<Rightarrow> jsval \<Rightarrow> bool" where
  "strict_eq a b \<longleftrightarrow> a = b \<and> a \<noteq> NaNv"

definition nullish :: "jsval \<Rightarrow> bool" where
  "nullish v \<longleftrightarrow> v = Undefined \<or> v = Null"

text \<open>Truth in a condition.\<close>

fun truthy :: "jsval \<Rightarrow> bool" where
  "truthy Undefined = False"
| "truthy Null = False"
| "truthy (Boolean b) = b"
| "truthy NaNv = False"
| "truthy (Number n) = (n \<noteq> 0)"
| "truthy (String s) = (s \<noteq> [])"
| "truthy (Ref _) = True"

text \<open>
  \<open>ToString\<close>, as it names a property in \<open>object[key]\<close>. The code modelled here indexes with
  primitive values only.
\<close>

definition dec_int :: "int \<Rightarrow> string" where
  "dec_int i = (if i < 0 then CHR ''-'' # to_dec (nat (- i)) else to_dec (nat i))"

fun toPropertyKey :: "jsval \<Rightarrow> string" where
  "toPropertyKey Undefined = ''undefined''"
| "toPropertyKey Null = ''null''"
| "toPropertyKey (Boolean b) = (if b then ''true'' else ''false'')"
| "toPropertyKey NaNv = ''NaN''"
| "toPropertyKey (Number i) = dec_int i"
| "toPropertyKey (String s) = s"
| "toPropertyKey (Ref _) = ''[object Object]''"

text \<open>\<open>_.eq\<close>, the comparison \<open>SameValueZero\<close>.\<close>

definition eq :: "jsval \<Rightarrow> jsval \<Rightarrow> bool" where
  "eq value other \<longleftrightarrow>
     strict_eq value other \<or> (\<not> strict_eq value value \<and> \<not> strict_eq other other)"

lemma eq_iff [simp]: "eq a b \<longleftrightarrow> a = b"
  by (auto simp: eq_def strict_eq_def)

lemma strict_eq_self [simp]: "strict_eq v v \<longleftrightarrow> v \<noteq> NaNv"
  by (simp add: strict_eq_def)

lemma dec_int_cases: "\<exists>c cs. dec_int i = c # cs \<and> (is_digit c \<or> c = CHR ''-'')"
proof -
  have "\<exists>c cs. to_dec n = c # cs \<and> is_digit c" for n
    using to_dec_digits [of n] to_dec_not_Nil [of n] by (cases "to_dec n") auto
  then show ?thesis unfolding dec_int_def by (cases "i < 0") (simp, metis)
qed

lemma to_dec_inject: "to_dec m = to_dec n \<longleftrightarrow> m = n"
  by (metis dec_value_to_dec)

lemma to_dec_no_minus: "to_dec n \<noteq> CHR ''-'' # cs"
proof
  assume "to_dec n = CHR ''-'' # cs"
  with to_dec_digits [of n] show False by (simp add: is_digit_def)
qed

lemma dec_int_inject: "dec_int i = dec_int j \<longleftrightarrow> i = j"
  by (auto simp: dec_int_def to_dec_inject to_dec_no_minus to_dec_no_minus [symmetric])

lemma dec_int_not_word:
  "dec_int i \<noteq> ''undefined''" "dec_int i \<noteq> ''null''" "dec_int i \<noteq> ''true''"
  "dec_int i \<noteq> ''false''" "dec_int i \<noteq> ''NaN''"
  using dec_int_cases [of i] by (auto simp: is_digit_def)

text \<open>Different primitive values other than strings name different properties.\<close>

lemma toPropertyKey_inject:
  assumes "toPropertyKey a = toPropertyKey b"
    and "\<And>s. a \<noteq> String s" "\<And>r. a \<noteq> Ref r" "\<And>s. b \<noteq> String s" "\<And>r. b \<noteq> Ref r"
  shows "a = b"
  using assms
  by (cases a; cases b)
    (auto simp: dec_int_inject dec_int_not_word dec_int_not_word [symmetric] split: if_splits)

section \<open>Loops\<close>

lemma fold_map_index: "fold (\<lambda>i. f (g i)) is s = fold f (map g is) s"
  by (induction "is" arbitrary: s) auto

lemma foldR_map: "foldR (\<lambda>i. f (g i)) is s = foldR f (map g is) s"
  by (induction "is" arbitrary: s) (auto simp: bindR_def split: sum.splits)

text \<open>A loop over the indices of an array that only uses the elements.\<close>

lemma fold_nth: "fold (\<lambda>i. f (xs ! i)) [0..<length xs] s = fold f xs s"
  by (simp add: fold_map_index map_nth)

lemma fold_nth_tail: "fold (\<lambda>i. f ((x # xs) ! i)) [1..<length (x # xs)] s = fold f xs s"
proof -
  have "map ((!) (x # xs)) [1..<length (x # xs)] = xs" by (rule nth_equalityI) (auto simp del: upt.simps)
  then show ?thesis by (metis fold_map_index)
qed

lemma foldR_nth: "foldR (\<lambda>i. f (xs ! i)) [0..<length xs] s = foldR f xs s"
  by (simp add: foldR_map map_nth)

lemma foldR_rev_nth: "foldR (\<lambda>i. f (xs ! i)) (rev [0..<length xs]) s = foldR f (rev xs) s"
  by (simp add: foldR_map rev_map [symmetric] map_nth)

text \<open>A loop that looks for the first index with a property.\<close>

definition search :: "(nat \<Rightarrow> bool) \<Rightarrow> nat list \<Rightarrow> int" where
  "search p is = (case foldR (\<lambda>i s. if p i then Inl (int i) else Inr s) is () of
     Inl i \<Rightarrow> i | Inr _ \<Rightarrow> - 1)"

lemma search_simps [simp]:
  "search p [] = - 1"
  "search p (i # is) = (if p i then int i else search p is)"
  by (simp_all add: search_def)

lemma search_cong: "(\<And>i. i \<in> set is \<Longrightarrow> p i = q i) \<Longrightarrow> search p is = search q is"
  by (induction "is") auto

lemma search_append:
  "search p (xs @ ys) = (if \<exists>i\<in>set xs. p i then search p xs else search p ys)"
  by (induction xs) auto

lemma search_none_iff: "search p is = - 1 \<longleftrightarrow> (\<forall>i\<in>set is. \<not> p i)"
  by (induction "is") auto

lemma search_found: "search p is \<noteq> - 1 \<Longrightarrow> 0 \<le> search p is \<and> nat (search p is) \<in> set is \<and> p (nat (search p is))"
  by (induction "is") (auto split: if_splits)

lemma search_cases:
  obtains "search p is = - 1" "\<And>i. i \<in> set is \<Longrightarrow> \<not> p i"
  | i where "search p is = int i" "i \<in> set is" "p i"
proof (cases "search p is = - 1")
  case True
  with that(1) show ?thesis by (simp add: search_none_iff)
next
  case False
  with that(2) [of "nat (search p is)"] search_found [OF False] show ?thesis by simp
qed

lemma search_neg_iff: "search p is < 0 \<longleftrightarrow> (\<forall>i\<in>set is. \<not> p i)"
  by (rule search_cases [of p "is"]) (simp_all, blast)

text \<open>The loops over a prefix of the indices stop at the first match, those from the right at
  the last one.\<close>

lemma search_upt: "search p [m..<n] = int i \<longleftrightarrow> m \<le> i \<and> i < n \<and> p i \<and> (\<forall>j. m \<le> j \<and> j < i \<longrightarrow> \<not> p j)"
proof (induction "n - m" arbitrary: m)
  case 0
  then have "[m..<n] = []" by simp
  with 0 show ?case by simp
next
  case (Suc d)
  then have u: "[m..<n] = m # [Suc m..<n]" by (simp add: upt_conv_Cons)
  have IH: "search p [Suc m..<n] = int i \<longleftrightarrow> Suc m \<le> i \<and> i < n \<and> p i \<and> (\<forall>j. Suc m \<le> j \<and> j < i \<longrightarrow> \<not> p j)"
    using Suc by simp
  have split: "(\<forall>j. m \<le> j \<and> j < i \<longrightarrow> \<not> p j) \<longleftrightarrow> (m < i \<longrightarrow> \<not> p m) \<and> (\<forall>j. Suc m \<le> j \<and> j < i \<longrightarrow> \<not> p j)"
    by (metis Suc_leI le_eq_less_or_eq Suc_leD order_refl)
  show ?case unfolding u search_simps
    using Suc.hyps(2) IH split by (cases "p m") (auto simp: not_less_eq_eq)
qed

lemma search_downt: "search p (rev [0..<n]) = int i \<longleftrightarrow> i < n \<and> p i \<and> (\<forall>j. i < j \<and> j < n \<longrightarrow> \<not> p j)"
  by (induction n) (auto simp: less_Suc_eq split: if_splits)

end
