(* ===== verification/Buffer_Ops.thy ===== *)
theory Buffer_Ops
  imports Buffer_Codec Buffer_Text Js_Value
begin

text \<open>
  The remaining operations of the browser \<open>Buffer\<close>: allocation, conversion from arrays,
  comparison, \<open>copy\<close>, \<open>concat\<close>, \<open>fill\<close>, byte swapping and the searches \<open>indexOf\<close> and
  \<open>lastIndexOf\<close>. \<open>copy\<close> is modelled on objects that view a shared memory: the source may be the
  target itself or another view of its memory, and each read sees the bytes written before it.
  \<open>fill\<close> with a buffer is modelled for a value that shares no memory with the filled buffer. The searches are those on single bytes,
  for encodings other than UTF-16. Numeric arguments are \<^typ>\<open>jsnum\<close>.
\<close>

section \<open>Allocation\<close>

definition checked :: "int \<Rightarrow> js_error + int" where
  "checked len = (if len \<ge> kMaxLength then Inl RangeError else Inr (int32 len))"

definition assertSize :: "jsnum \<Rightarrow> js_error + unit" where
  "assertSize size' = (case size' of
     Undef \<Rightarrow> Inl TypeError
   | NaN \<Rightarrow> Inr ()
   | Num n \<Rightarrow> if n < 0 then Inl RangeError else Inr ())"

text \<open>\<open>allocUnsafe\<close> with a number; a typed array starts out zeroed.\<close>

definition allocUnsafe :: "int \<Rightarrow> js_error + buffer" where
  "allocUnsafe size' =
     bindR (assertSize (Num size')) (\<lambda>_.
       bindR (if size' < 0 then Inr 0 else bindR (checked size') (\<lambda>n. Inr (int32 n))) createBuffer)"

definition fromArrayLike :: "jsnum list \<Rightarrow> js_error + buffer" where
  "fromArrayLike array =
     bindR (checked (int (length array))) (\<lambda>n. let n = int32 n in
       bindR (createBuffer n) (\<lambda>that.
         Inr (fold (\<lambda>i that. put that (int i) (jand (array ! i) (Num 255))) [0..<nat n] that)))"

section \<open>Comparison\<close>

text \<open>The loop of both comparisons: the first difference of two sequences, or their lengths.\<close>

definition first_difference :: "buffer \<Rightarrow> buffer \<Rightarrow> int \<times> int" where
  "first_difference a b =
     (case foldR (\<lambda>i s. if a ! i \<noteq> b ! i then Inl (uint (a ! i), uint (b ! i)) else Inr s)
         [0..<min (length a) (length b)] () of
        Inl d \<Rightarrow> d | Inr _ \<Rightarrow> (int (length a), int (length b)))"

definition compare_by :: "int \<times> int \<Rightarrow> int" where
  "compare_by d = (let (x, y) = d in if x < y then - 1 else if y < x then 1 else 0)"

text \<open>\<open>Buffer.compare\<close> on two buffers.\<close>

definition compare :: "buffer \<Rightarrow> buffer \<Rightarrow> int" where
  "compare a b = compare_by (first_difference a b)"

definition equals :: "buffer \<Rightarrow> buffer \<Rightarrow> bool" where
  "equals this b \<longleftrightarrow> compare this b = 0"

text \<open>The method \<open>compare\<close> with its optional ranges; \<open>same\<close> tells that \<open>this\<close> is the target.\<close>

definition compare_ranges :: "bool \<Rightarrow> buffer \<Rightarrow> buffer \<Rightarrow> int option \<Rightarrow> int option \<Rightarrow> int option \<Rightarrow> int option \<Rightarrow>
    js_error + int" where
  "compare_ranges same this target start end' thisStart thisEnd =
     (let start = (case start of None \<Rightarrow> 0 | Some s \<Rightarrow> s);
          end' = (case end' of None \<Rightarrow> int (length target) | Some e \<Rightarrow> e);
          thisStart = (case thisStart of None \<Rightarrow> 0 | Some s \<Rightarrow> s);
          thisEnd = (case thisEnd of None \<Rightarrow> int (length this) | Some e \<Rightarrow> e)
      in if start < 0 \<or> end' > int (length target) \<or> thisStart < 0 \<or> thisEnd > int (length this)
         then Inl RangeError
         else if thisStart \<ge> thisEnd \<and> start \<ge> end' then Inr 0
         else if thisStart \<ge> thisEnd then Inr (- 1)
         else if start \<ge> end' then Inr 1
         else if same then Inr 0
         else Inr (compare_by (first_difference (slice_bytes this thisStart (Some thisEnd)) (slice_bytes target start (Some end')))))"

section \<open>Copying\<close>

text \<open>
  \<open>this.copy(target, targetStart, start, end)\<close> on two objects of a store: the new store and the
  number of bytes copied. The test \<open>this === target\<close> compares the objects, not their memory; the
  method \<open>set\<close> of typed arrays reads the whole source range before it writes.
\<close>

definition copy_loop :: "nat \<Rightarrow> nat \<Rightarrow> int \<Rightarrow> int \<Rightarrow> nat list \<Rightarrow> store \<Rightarrow> store" where
  "copy_loop this target targetStart start is st =
     fold (\<lambda>i st. set_at st target (int i + targetStart) (get_at st this (int i + start))) is st"

definition typed_set :: "nat \<Rightarrow> buffer \<Rightarrow> int \<Rightarrow> store \<Rightarrow> store" where
  "typed_set target bytes targetStart st =
     (let v = views st ! target in
      st\<lparr>memories := (memories st)[mem_of v := overwrite (memories st ! mem_of v) (start_of v + nat targetStart) bytes]\<rparr>)"

definition copy :: "bool \<Rightarrow> nat \<Rightarrow> nat \<Rightarrow> jsnum \<Rightarrow> jsnum \<Rightarrow> jsnum \<Rightarrow> store \<Rightarrow> js_error + store \<times> int" where
  "copy typed this target targetStart start end' st =
     (let tlen = int (length_of (views st ! target)); slen = int (length_of (views st ! this));
          start = (case start of Num s \<Rightarrow> s | _ \<Rightarrow> 0);
          end' = (case end' of Num e \<Rightarrow> e | _ \<Rightarrow> slen);
          targetStart = (case targetStart of Num t \<Rightarrow> if t \<ge> tlen then tlen else t | _ \<Rightarrow> 0);
          end' = (if end' > 0 \<and> end' < start then start else end')
      in if end' = start then Inr (st, 0)
         else if tlen = 0 \<or> slen = 0 then Inr (st, 0)
         else if targetStart < 0 then Inl RangeError
         else if start < 0 \<or> start \<ge> slen then Inl RangeError
         else if end' < 0 then Inl RangeError
         else
           let end' = (if end' > slen then slen else end');
               end' = (if tlen - targetStart < end' - start then tlen - targetStart + start else end');
               len = end' - start
           in if this = target \<and> start < targetStart \<and> targetStart < end' then
                Inr (copy_loop this target targetStart start (rev [0..<nat len]) st, len)
              else if len < 1000 \<or> \<not> typed then
                Inr (copy_loop this target targetStart start [0..<nat len] st, len)
              else
                Inr (typed_set target (window (view_bytes st this) (nat start) (nat len)) targetStart st, len))"

text \<open>\<open>copy\<close> into a buffer that has been allocated for it, whose memory no other object views: the
  new contents of the target.\<close>

definition separate :: "buffer \<Rightarrow> buffer \<Rightarrow> store" where
  "separate this target = \<lparr>memories = [this, target],
     views = [\<lparr>mem_of = 0, start_of = 0, length_of = length this\<rparr>,
              \<lparr>mem_of = 1, start_of = 0, length_of = length target\<rparr>]\<rparr>"

definition copy_to_new :: "bool \<Rightarrow> buffer \<Rightarrow> buffer \<Rightarrow> jsnum \<Rightarrow> js_error + buffer" where
  "copy_to_new typed this target targetStart =
     bindR (copy typed 0 1 targetStart Undef Undef (separate this target)) (\<lambda>(st, _). Inr (view_bytes st 1))"

definition concat_buffers :: "bool \<Rightarrow> buffer list \<Rightarrow> int option \<Rightarrow> js_error + buffer" where
  "concat_buffers typed list len =
     (if list = [] then createBuffer 0
      else
        let len = (case len of Some n \<Rightarrow> n | None \<Rightarrow> fold (\<lambda>i n. n + int (length (list ! i))) [0..<length list] 0)
        in bindR (allocUnsafe len) (\<lambda>buffer.
             bindR (foldR (\<lambda>i (buffer, pos).
                 bindR (copy_to_new typed (list ! i) buffer (Num pos)) (\<lambda>buffer.
                   Inr (buffer, pos + int (length (list ! i))))) [0..<length list] (buffer, 0))
               (\<lambda>(buffer, pos). Inr buffer)))"

section \<open>Filling and swapping\<close>

text \<open>\<open>fill\<close> with a number or a buffer.\<close>

datatype fill_value = FillNumber jsnum | FillBuffer buffer

definition fill_buffer :: "fill_value \<Rightarrow> jsnum \<Rightarrow> jsnum \<Rightarrow> buffer \<Rightarrow> js_error + buffer" where
  "fill_buffer val start end' this =
     (let len = int (length this);
          out = ((case start of Num s \<Rightarrow> s < 0 \<or> len < s | _ \<Rightarrow> False)
                 \<or> (case end' of Num e \<Rightarrow> len < e | _ \<Rightarrow> False))
      in if out then Inl RangeError
         else if jge start end' then Inr this
         else
           let start = uint (toInt32 start);
               end' = (if end' = Undef then len else uint (toInt32 end'))
           in Inr (case val of
                FillNumber n \<Rightarrow> fold (\<lambda>i t. put t (int i) (jand n (Num 255))) [nat start..<nat end'] this
              | FillBuffer bytes \<Rightarrow>
                  fold (\<lambda>i t. put t (int i + start) (at bytes (int i mod int (length bytes))))
                    [0..<nat (end' - start)] this))"

definition swap :: "buffer \<Rightarrow> int \<Rightarrow> int \<Rightarrow> buffer" where
  "swap b n m = (let i = at b n in put (put b n (at b m)) m i)"

text \<open>A loop \<open>for (i = 0; i < len; i += k)\<close> over a length that is a multiple of \<open>k\<close>.\<close>

definition steps :: "nat \<Rightarrow> nat \<Rightarrow> int list" where
  "steps k len = map (\<lambda>j. int (k * j)) [0..<len div k]"

definition swap16 :: "buffer \<Rightarrow> js_error + buffer" where
  "swap16 this =
     (if length this mod 2 \<noteq> 0 then Inl RangeError
      else Inr (fold (\<lambda>i b. swap b i (i + 1)) (steps 2 (length this)) this))"

definition swap32 :: "buffer \<Rightarrow> js_error + buffer" where
  "swap32 this =
     (if length this mod 4 \<noteq> 0 then Inl RangeError
      else Inr (fold (\<lambda>i b. swap (swap b i (i + 3)) (i + 1) (i + 2)) (steps 4 (length this)) this))"

definition swap64 :: "buffer \<Rightarrow> js_error + buffer" where
  "swap64 this =
     (if length this mod 8 \<noteq> 0 then Inl RangeError
      else Inr (fold (\<lambda>i b. swap (swap (swap (swap b i (i + 7)) (i + 1) (i + 6)) (i + 2) (i + 5)) (i + 3) (i + 4))
        (steps 8 (length this)) this))"

section \<open>Searching\<close>

text \<open>
  The forward loop of \<open>arrayIndexOf\<close>: the third argument is \<open>foundIndex\<close>, with \<open>None\<close> for -1. After
  a failed partial match \<open>i\<close> goes back to the start of the match, and the loop increments it.
\<close>

function forward_loop :: "buffer \<Rightarrow> buffer \<Rightarrow> nat option \<Rightarrow> nat \<Rightarrow> int" where
  "forward_loop arr val found i =
     (if i < length arr then
        if at arr (int i) = at val (case found of None \<Rightarrow> 0 | Some f \<Rightarrow> int i - int f) then
          let f = (case found of None \<Rightarrow> i | Some f \<Rightarrow> f) in
          if int i - int f + 1 = int (length val) then int f
          else forward_loop arr val (Some f) (i + 1)
        else (case found of
            None \<Rightarrow> forward_loop arr val None (i + 1)
          | Some f \<Rightarrow> forward_loop arr val None (f + 1))
      else - 1)"
  by pat_completeness auto
termination
  by (relation "measures [\<lambda>(arr, val, found, i). length arr - (case found of None \<Rightarrow> i | Some f \<Rightarrow> min f i),
      \<lambda>(arr, val, found, i). length arr - i]") (auto split: option.splits)

declare forward_loop.simps [simp del, code]

definition arrayIndexOf :: "buffer \<Rightarrow> buffer \<Rightarrow> nat \<Rightarrow> bool \<Rightarrow> int" where
  "arrayIndexOf arr val byteOffset dir =
     (if dir then forward_loop arr val None byteOffset
      else
        let byteOffset = (if byteOffset + length val > length arr then int (length arr) - int (length val)
                          else int byteOffset)
        in search (\<lambda>i. \<forall>j\<in>set [0..<length val]. at arr (int i + int j) = at val (int j))
             (rev [0..<nat (byteOffset + 1)]))"

datatype needle = NeedleNumber jsnum | NeedleBuffer buffer

definition bidirectionalIndexOf :: "buffer \<Rightarrow> needle \<Rightarrow> jsnum \<Rightarrow> bool \<Rightarrow> int" where
  "bidirectionalIndexOf buffer val byteOffset dir =
     (let len = int (length buffer) in
      if len = 0 then - 1
      else
        let byteOffset = (case byteOffset of
              Num o' \<Rightarrow> if o' > 0x7FFFFFFF then 0x7FFFFFFF else if o' < - 0x80000000 then - 0x80000000 else o'
            | _ \<Rightarrow> if dir then 0 else len - 1);
            byteOffset = (if byteOffset < 0 then len + byteOffset else byteOffset)
        in if byteOffset \<ge> len \<and> dir then - 1
           else if byteOffset < 0 \<and> \<not> dir then - 1
           else
             let byteOffset = (if byteOffset \<ge> len then len - 1 else if byteOffset < 0 then 0 else byteOffset)
             in case val of
                  NeedleBuffer v \<Rightarrow> if v = [] then - 1 else arrayIndexOf buffer v (nat byteOffset) dir
                | NeedleNumber n \<Rightarrow> arrayIndexOf buffer [toUint8 (jand n (Num 255))] (nat byteOffset) dir)"

definition indexOf_buffer :: "buffer \<Rightarrow> needle \<Rightarrow> jsnum \<Rightarrow> int" where
  "indexOf_buffer this val byteOffset = bidirectionalIndexOf this val byteOffset True"


definition includes_buffer :: "buffer \<Rightarrow> needle \<Rightarrow> jsnum \<Rightarrow> bool" where
  "includes_buffer this val byteOffset \<longleftrightarrow> indexOf_buffer this val byteOffset \<noteq> - 1"

section \<open>Comparison is the lexicographic order\<close>

lemma compare_by_Suc: "compare_by (x + 1, y + 1) = compare_by (x, y)"
  by (simp add: compare_by_def)

lemma compare_simps [simp]:
  "compare [] [] = 0"
  "compare [] (y # ys) = - 1"
  "compare (x # xs) [] = 1"
  "compare (x # xs) (y # ys) = (if x = y then compare xs ys else if uint x < uint y then - 1 else 1)"
proof -
  let ?step = "\<lambda>a b i (s :: unit). if a ! i \<noteq> b ! i then Inl (uint (a ! i), uint (b ! i)) else Inr s"
  show "compare (x # xs) (y # ys) = (if x = y then compare xs ys else if uint x < uint y then - 1 else 1)"
  proof (cases "x = y")
    case True
    have u: "[0..<min (length (x # xs)) (length (y # ys))] = 0 # map Suc [0..<min (length xs) (length ys)]"
      by (simp add: upt_conv_Cons map_Suc_upt del: upt_Suc)
    have "foldR (?step (x # xs) (y # ys)) (map Suc [0..<min (length xs) (length ys)]) ()
        = foldR (?step xs ys) [0..<min (length xs) (length ys)] ()"
      unfolding foldR_map [symmetric] nth_Cons_Suc ..
    with True show ?thesis unfolding compare_def first_difference_def u
      by (auto simp: compare_by_def split: sum.splits)
  next
    case False
    then have "uint x \<noteq> uint y" by (simp add: word_uint_eq_iff)
    moreover have u: "[0..<min (length (x # xs)) (length (y # ys))] = 0 # [Suc 0..<Suc (min (length xs) (length ys))]"
      by (simp add: upt_conv_Cons del: upt_Suc)
    ultimately show ?thesis using False unfolding compare_def first_difference_def u by (simp add: compare_by_def)
  qed
qed (simp_all add: compare_def first_difference_def compare_by_def)

definition byte_less :: "(buffer \<times> buffer) set" where
  "byte_less = lexord {(x, y). uint x < uint y}"

lemma compare_cases: "compare a b \<in> {- 1, 0, 1}"
  by (induction a b rule: list_induct2') auto

lemma compare_zero_iff: "compare a b = 0 \<longleftrightarrow> a = b"
  by (induction a b rule: list_induct2') auto

lemma compare_less_iff: "compare a b = - 1 \<longleftrightarrow> (a, b) \<in> byte_less"
  by (induction a b rule: list_induct2') (auto simp: byte_less_def)

lemma compare_swap: "compare b a = - compare a b"
proof (induction a b rule: list_induct2')
  case (4 x xs y ys)
  have "uint x = uint y \<longleftrightarrow> x = y" by (simp add: word_uint_eq_iff)
  with 4 show ?case by auto
qed simp_all

text \<open>
  \<open>Buffer.compare\<close> orders buffers lexicographically by their bytes: it answers -1, 0 or 1, it
  answers 0, and \<open>equals\<close> true, exactly on equal buffers, -1 exactly when the first is smaller, and
  swapping the arguments swaps the answer.
\<close>

lemma compare_orders:
  "compare a b \<in> {- 1, 0, 1} \<and> (compare a b = 0 \<longleftrightarrow> a = b) \<and> (equals a b \<longleftrightarrow> a = b)
    \<and> (compare a b = - 1 \<longleftrightarrow> (a, b) \<in> byte_less) \<and> compare b a = - compare a b"
  by (simp only: compare_zero_iff compare_less_iff compare_swap [of b a] equals_def compare_cases simp_thms)

section \<open>Copying handles overlap\<close>

lemma nth_overwrite:
  "i + length xs \<le> length b \<Longrightarrow> p < length b \<Longrightarrow>
   overwrite b i xs ! p = (if i \<le> p \<and> p < i + length xs then xs ! (p - i) else b ! p)"
  by (auto simp: overwrite_def nth_append)

lemma overwrite_extend:
  assumes "i + length xs < length b"
  shows "(overwrite b i xs)[i + length xs := x] = overwrite b i (xs @ [x])"
    and "overwrite (b[i + length xs := x]) i xs = overwrite b i (xs @ [x])"
proof -
  have d: "drop (i + length xs) b = b ! (i + length xs) # drop (Suc (i + length xs)) b"
    using assms by (simp add: Cons_nth_drop_Suc)
  show "(overwrite b i xs)[i + length xs := x] = overwrite b i (xs @ [x])"
    using assms by (simp add: overwrite_def list_update_append d)
  have "drop (i + length xs) (b[i + length xs := x]) = x # drop (Suc (i + length xs)) b"
    using assms by (subst drop_update_swap) (simp_all add: d)
  then show "overwrite (b[i + length xs := x]) i xs = overwrite b i (xs @ [x])"
    by (simp add: overwrite_def)
qed

lemma window_snoc: "i + n < length b \<Longrightarrow> window b i (Suc n) = window b i n @ [b ! (i + n)]"
  by (simp add: window_def take_Suc_conv_app_nth)

lemma length_window: "i + n \<le> length b \<Longrightarrow> length (window b i n) = n"
  by (simp add: window_def)

lemma put_byte: "p < length b \<Longrightarrow> put b (int p) (Num (uint x)) = b[p := x]"
  by (simp add: put_def)

text \<open>The loop on the memory itself: from one array buffer to another, or within one.\<close>

definition flat_loop :: "bool \<Rightarrow> buffer \<Rightarrow> int \<Rightarrow> int \<Rightarrow> nat list \<Rightarrow> buffer \<Rightarrow> buffer" where
  "flat_loop same this targetStart start is target =
     fold (\<lambda>i t. put t (int i + targetStart) (at (if same then t else this) (int i + start))) is target"

lemma flat_loop_Suc:
  assumes "flat_loop same this ts st [0..<n] t = u"
  shows "flat_loop same this ts st [0..<Suc n] t = put u (int n + ts) (at (if same then u else this) (int n + st))"
  using assms by (auto simp: flat_loop_def)

text \<open>The ascending loop, where no byte is read after it was overwritten.\<close>

lemma copy_ascending:
  assumes "ts + n \<le> length t" "st + n \<le> length this"
    and "same \<Longrightarrow> t = this \<and> (ts \<le> st \<or> st + n \<le> ts)"
  shows "flat_loop same this (int ts) (int st) [0..<n] t = overwrite t ts (window this st n)"
  using assms
proof (induction n)
  case (Suc n)
  let ?w = "window this st n" and ?b = "overwrite t ts (window this st n)"
  have len: "length ?w = n" "length ?b = length t"
    using Suc.prems by (simp_all add: length_window length_overwrite)
  have "at (if same then ?b else this) (int n + int st) = Num (uint (this ! (st + n)))"
  proof (cases same)
    case True
    then have "?b ! (st + n) = this ! (st + n)"
      using Suc.prems len by (subst nth_overwrite) auto
    then show ?thesis using True Suc.prems len at_nat [of "st + n" ?b] by (simp add: add.commute)
  next
    case False
    then show ?thesis using Suc.prems at_nat [of "st + n" this] by (simp add: add.commute)
  qed
  moreover have "flat_loop same this (int ts) (int st) [0..<n] t = ?b"
  proof (rule Suc.IH)
    show "same \<Longrightarrow> t = this \<and> (ts \<le> st \<or> st + n \<le> ts)" using Suc.prems(3) by auto
  qed (use Suc.prems in simp_all)
  ultimately have "flat_loop same this (int ts) (int st) [0..<Suc n] t = put ?b (int (ts + n)) (Num (uint (this ! (st + n))))"
    using flat_loop_Suc [of same this "int ts" "int st" n t ?b] by (simp only: of_nat_add add.commute)
  also have "\<dots> = overwrite t ts (window this st (Suc n))"
    using Suc.prems len overwrite_extend(1) [of ts ?w t "this ! (st + n)"] put_byte [of "ts + n" ?b "this ! (st + n)"]
    by (simp add: window_snoc)
  finally show ?case .
qed (simp add: flat_loop_def)

text \<open>The descending loop on one buffer, towards a later position.\<close>

lemma copy_descending:
  assumes "ts + n \<le> length t" "st + n \<le> length this" "st < ts"
    and "\<And>i. i < n \<Longrightarrow> t ! (st + i) = this ! (st + i)"
  shows "flat_loop True x (int ts) (int st) (rev [0..<n]) t = overwrite t ts (window this st n)"
  using assms
proof (induction n arbitrary: t)
  case (Suc n)
  let ?t = "t[ts + n := this ! (st + n)]"
  have "at t (int n + int st) = Num (uint (this ! (st + n)))"
    using Suc.prems at_nat [of "st + n" t] by (simp add: add.commute)
  then have "flat_loop True x (int ts) (int st) (rev [0..<Suc n]) t = flat_loop True x (int ts) (int st) (rev [0..<n]) ?t"
    using Suc.prems put_byte [of "ts + n" t] by (simp add: flat_loop_def add.commute)
  also have "\<dots> = overwrite ?t ts (window this st n)" using Suc by (intro Suc.IH) auto
  also have "\<dots> = overwrite t ts (window this st (Suc n))"
    using Suc.prems overwrite_extend(2) [of ts "window this st n" t "this ! (st + n)"]
    by (simp add: length_window window_snoc)
  finally show ?case .
qed (simp add: flat_loop_def)

text \<open>In a store, every object views a range of an array buffer.\<close>

definition store_ok :: "store \<Rightarrow> bool" where
  "store_ok st \<longleftrightarrow>
     (\<forall>v\<in>set (views st). mem_of v < length (memories st) \<and>
        start_of v + length_of v \<le> length (memories st ! mem_of v))"

lemma store_okD:
  assumes "store_ok st" "obj < length (views st)"
  shows "mem_of (views st ! obj) < length (memories st)"
    "start_of (views st ! obj) + length_of (views st ! obj) \<le> length (memories st ! mem_of (views st ! obj))"
  using assms by (auto simp: store_ok_def)

lemma length_view_bytes: "store_ok st \<Longrightarrow> obj < length (views st) \<Longrightarrow> length (view_bytes st obj) = length_of (views st ! obj)"
  using store_okD(2) [of st obj] by (simp add: view_bytes_def Let_def)

lemma get_at_memory:
  assumes "v = views st ! obj" "i < length_of v" "start_of v + length_of v \<le> length (memories st ! mem_of v)"
  shows "get_at st obj (int i) = at (memories st ! mem_of v) (int (start_of v + i))"
proof -
  have "nat (int (start_of v) + int i) = start_of v + i" by simp
  with assms show ?thesis by (simp add: get_at_def view_bytes_def at_def Let_def)
qed

lemma length_flat_loop [simp]: "length (flat_loop same this ts s is t) = length t"
  by (induction "is" rule: rev_induct) (simp_all add: flat_loop_def)

lemma copy_loop_flat:
  assumes ok: "store_ok st" and objs: "this < length (views st)" "target < length (views st)"
    and h: "h = views st ! this" and t: "t = views st ! target"
    and range: "\<forall>i\<in>set is. i + ts < length_of t \<and> i + s < length_of h"
  shows "copy_loop this target (int ts) (int s) is st =
    st\<lparr>memories := (memories st)[mem_of t := flat_loop (mem_of h = mem_of t) (memories st ! mem_of h)
      (int (start_of t + ts)) (int (start_of h + s)) is (memories st ! mem_of t)]\<rparr>"
  using range
proof (induction "is" rule: rev_induct)
  case (snoc i "is")
  let ?U = "flat_loop (mem_of h = mem_of t) (memories st ! mem_of h)
      (int (start_of t + ts)) (int (start_of h + s)) is (memories st ! mem_of t)"
  let ?st = "st\<lparr>memories := (memories st)[mem_of t := ?U]\<rparr>"
  note tm = store_okD [OF ok objs(2), folded t] and hm = store_okD [OF ok objs(1), folded h]
  have mem: "memories ?st ! mem_of h = (if mem_of h = mem_of t then ?U else memories st ! mem_of h)"
    using hm(1) by (auto simp: nth_list_update)
  have "get_at ?st this (int (i + s)) = at (memories ?st ! mem_of h) (int (start_of h + (i + s)))"
  proof (rule get_at_memory)
    show "h = views ?st ! this" using h by simp
    show "i + s < length_of h" using snoc.prems by simp
    show "start_of h + length_of h \<le> length (memories ?st ! mem_of h)"
      unfolding mem using hm(2) by (cases "mem_of h = mem_of t") auto
  qed
  then have "get_at ?st this (int i + int s) = at (if mem_of h = mem_of t then ?U else memories st ! mem_of h) (int i + int (start_of h + s))"
    unfolding mem by (simp add: ac_simps)
  moreover have "copy_loop this target (int ts) (int s) (is @ [i]) st
      = set_at ?st target (int i + int ts) (get_at ?st this (int i + int s))"
    using snoc by (simp add: copy_loop_def)
  ultimately show ?case
    using snoc.prems tm by (simp add: set_at_def t [symmetric] Let_def flat_loop_def ac_simps)
qed (simp add: copy_loop_def flat_loop_def)

text \<open>What \<open>copy\<close> is meant to do: the bytes of the source range, as they are before the call, go to
  the destination, and no other byte of any memory changes.\<close>

definition moved :: "nat \<Rightarrow> nat \<Rightarrow> nat \<Rightarrow> nat \<Rightarrow> nat \<Rightarrow> store \<Rightarrow> store" where
  "moved this target ts s n st =
     (let t = views st ! target in
      st\<lparr>memories := (memories st)[mem_of t :=
        overwrite (memories st ! mem_of t) (start_of t + ts) (window (view_bytes st this) s n)]\<rparr>)"

lemma window_view:
  assumes "s + n \<le> length_of (views st ! obj)"
  shows "window (view_bytes st obj) s n =
    window (memories st ! mem_of (views st ! obj)) (start_of (views st ! obj) + s) n"
  using assms by (simp add: window_def view_bytes_def Let_def drop_take add.commute)

lemma copy_window:
  assumes ok: "store_ok st" and objs: "this < length (views st)" "target < length (views st)"
    and h: "h = views st ! this" and t: "t = views st ! target"
    and range: "ts \<le> length_of t" "s < e" "e \<le> length_of h" "0 < length_of t"
    and n: "n = min (e - s) (length_of t - ts)"
    and overlap: "this = target \<or> mem_of h \<noteq> mem_of t \<or> typed \<and> 1000 \<le> n
      \<or> start_of t + ts \<le> start_of h + s \<or> start_of h + s + n \<le> start_of t + ts"
  shows "copy typed this target (Num (int ts)) (Num (int s)) (Num (int e)) st = Inr (moved this target ts s n st, int n)"
proof -
  have fit: "ts + n \<le> length_of t" "s + n \<le> length_of h" using range n by auto
  note tm = store_okD [OF ok objs(2), folded t] and hm = store_okD [OF ok objs(1), folded h]
  let ?M = "memories st ! mem_of t" and ?H = "memories st ! mem_of h"
  have w: "window (view_bytes st this) s n = window ?H (start_of h + s) n"
    using window_view [of s n st this] fit(2) by (simp add: h)
  have loop: "copy_loop this target (int ts) (int s) is st = moved this target ts s n st"
    if "set is = {0..<n}" and "flat_loop (mem_of h = mem_of t) ?H (int (start_of t + ts)) (int (start_of h + s)) is ?M
        = overwrite ?M (start_of t + ts) (window ?H (start_of h + s) n)" for "is"
    using copy_loop_flat [OF ok objs h t, of "is" ts s] that fit by (simp add: moved_def w t [symmetric])
  have in_M: "start_of t + ts + n \<le> length ?M" "start_of h + s + n \<le> length ?H" using fit tm(2) hm(2) by auto
  have asc: "copy_loop this target (int ts) (int s) [0..<n] st = moved this target ts s n st"
    if "mem_of h \<noteq> mem_of t \<or> start_of t + ts \<le> start_of h + s \<or> start_of h + s + n \<le> start_of t + ts"
    by (rule loop) (use copy_ascending [OF in_M, of "mem_of h = mem_of t"] that in auto)
  have desc: "copy_loop this target (int ts) (int s) (rev [0..<n]) st = moved this target ts s n st"
    if "this = target" "s < ts"
  proof (rule loop)
    have "t = h" using that h t by simp
    then show "flat_loop (mem_of h = mem_of t) ?H (int (start_of t + ts)) (int (start_of h + s)) (rev [0..<n]) ?M
        = overwrite ?M (start_of t + ts) (window ?H (start_of h + s) n)"
      using copy_descending [of "start_of t + ts" n ?M "start_of h + s" ?H ?H] in_M that(2) by simp
  qed simp
  have set: "typed_set target (window (view_bytes st this) s n) (int ts) st = moved this target ts s n st"
    by (simp add: typed_set_def moved_def)
  define stop where "stop = (if int (length_of t) - int ts < int e - int s then int (length_of t) - int ts + int s else int e)"
  have len: "stop - int s = int n" using n range by (auto simp: stop_def)
  have clip: "(if int ts \<ge> int (length_of t) then int (length_of t) else int ts) = int ts"
    "(if 0 < int e \<and> int e < int s then int s else int e) = int e"
    "(if int e > int (length_of h) then int (length_of h) else int e) = int e"
    using range by auto
  have body: "copy typed this target (Num (int ts)) (Num (int s)) (Num (int e)) st =
    (if this = target \<and> s < ts \<and> int ts < stop then Inr (copy_loop this target (int ts) (int s) (rev [0..<n]) st, int n)
     else if int n < 1000 \<or> \<not> typed then Inr (copy_loop this target (int ts) (int s) [0..<n] st, int n)
     else Inr (typed_set target (window (view_bytes st this) s n) (int ts) st, int n))"
    unfolding copy_def Let_def jsnum.case h [symmetric] t [symmetric] clip stop_def [symmetric] len
    using range by simp
  show ?thesis
  proof (cases "this = target \<and> s < ts \<and> int ts < stop")
    case True
    then show ?thesis unfolding body using desc by simp
  next
    case False
    then have "this = target \<longrightarrow> start_of t + ts \<le> start_of h + s \<or> start_of h + s + n \<le> start_of t + ts"
      using len h t by auto
    then have "copy_loop this target (int ts) (int s) [0..<n] st = moved this target ts s n st" if "\<not> (typed \<and> 1000 \<le> n)"
      using that overlap by (intro asc) blast
    then show ?thesis unfolding body using False set by auto
  qed
qed

text \<open>
  C33: \<open>copy\<close> moves a range of bytes as if it went through a temporary buffer: the bytes that the
  source range has before the call go to the destination, no other byte of any memory changes, and
  the count is clipped to the room left. This holds when source and target are the same object,
  however the ranges overlap, and when they are two objects that view different memories or ranges
  of one memory of which the destination does not begin inside the source range, or when at least 1000
  bytes are copied with typed arrays. (For shorter overlapping ranges of two views see \<open>copy_overlapping_views\<close>.)
\<close>

theorem copy_moves_bytes:
  assumes "store_ok st" "this < length (views st)" "target < length (views st)"
    and "ts \<le> length_of (views st ! target)" "s < e" "e \<le> length_of (views st ! this)" "0 < length_of (views st ! target)"
    and "n = min (e - s) (length_of (views st ! target) - ts)"
    and "this = target \<or> mem_of (views st ! this) \<noteq> mem_of (views st ! target) \<or> typed \<and> 1000 \<le> n
      \<or> start_of (views st ! target) + ts \<le> start_of (views st ! this) + s
      \<or> start_of (views st ! this) + s + n \<le> start_of (views st ! target) + ts"
  shows "copy typed this target (Num (int ts)) (Num (int s)) (Num (int e)) st = Inr (moved this target ts s n st, int n)"
  by (rule copy_window [OF assms(1-3) refl refl assms(4-9)])

theorem copy_moves_bytes_witness:
  "copy True 0 0 (Num (int 1)) (Num (int 0)) (Num (int 3))
     \<lparr>memories = [[1, 2, 3, 4]], views = [\<lparr>mem_of = 0, start_of = 0, length_of = 4\<rparr>]\<rparr>
   = Inr (\<lparr>memories = [[1, 1, 2, 3]], views = [\<lparr>mem_of = 0, start_of = 0, length_of = 4\<rparr>]\<rparr>, 3)"
  using copy_moves_bytes [of "\<lparr>memories = [[1, 2, 3, 4]], views = [\<lparr>mem_of = 0, start_of = 0, length_of = 4\<rparr>]\<rparr>" 0 0 1 0 3 3 True]
  by (simp add: store_ok_def moved_def view_bytes_def overwrite_def window_def numeral_3_eq_3 numeral_eq_Suc)

section \<open>Slices are views\<close>

lemma slice_range_bounds:
  assumes "slice_range len start end' = (a, b)" "0 \<le> len"
  shows "a \<le> b" "int b \<le> len"
  using assms by (auto simp: slice_range_def slice_bound_def Let_def split: if_splits option.splits)

text \<open>With typed arrays a slice has the selected bytes, and whatever is written to the memory later is
  seen through both objects.\<close>

lemma slice_views:
  assumes "store_ok st" "obj < length (views st)" "slice_range (int (length_of (views st ! obj))) start end' = (a, b)"
    and "slice True obj start end' st = (obj', st')"
  shows "store_ok st' \<and> memories st' = memories st \<and> view_bytes st' obj' = slice_bytes (view_bytes st obj) start end' \<and>
    (\<forall>m i. i < b - a \<longrightarrow> get_at (st'\<lparr>memories := m\<rparr>) obj' (int i) = get_at (st'\<lparr>memories := m\<rparr>) obj (int (a + i)))"
proof -
  note r = slice_range_bounds [OF assms(3)]
  have st': "st' = st\<lparr>views := views st @ [\<lparr>mem_of = mem_of (views st ! obj),
      start_of = start_of (views st ! obj) + a, length_of = b - a\<rparr>]\<rparr>" "obj' = length (views st)"
    using assms(3,4) by (auto simp: slice_def Let_def)
  note v = store_okD [OF assms(1,2)]
  have "store_ok st'" using assms(1) v r by (auto simp: store_ok_def st')
  moreover have "view_bytes st' obj' = slice_bytes (view_bytes st obj) start end'"
    using r assms(3) by (simp add: slice_bytes_def length_view_bytes [OF assms(1,2)])
      (simp add: view_bytes_def st' Let_def drop_take min_def add.commute)
  moreover have "get_at (st'\<lparr>memories := m\<rparr>) obj' (int i) = get_at (st'\<lparr>memories := m\<rparr>) obj (int (a + i))"
    if "i < b - a" for m i
    using that r assms(2) by (auto simp: get_at_def at_def view_bytes_def st' nth_append Let_def ac_simps nat_int_add)
  ultimately show ?thesis by (simp add: st')
qed

text \<open>Copying three bytes of a buffer one position on through a slice of it takes the ascending loop
  and repeats the first byte.\<close>

lemma copy_overlapping_views:
  assumes "st = \<lparr>memories = [[1, 2, 3, 4]], views = [\<lparr>mem_of = 0, start_of = 0, length_of = 4\<rparr>]\<rparr>"
  shows "(let (obj, st') = slice True 0 1 None st
     in map_sum id (\<lambda>(st'', n). (memories st'', n)) (copy True 0 obj (Num 0) (Num 0) (Num 3) st'))
   = Inr ([[1, 1, 1, 1]], 3)"
  unfolding assms
  by (simp add: slice_def slice_range_def slice_bound_def int32_id copy_def Let_def copy_loop_def upt_rec
      get_at_def set_at_def view_bytes_def at_def put_def)

section \<open>Joining buffers\<close>

lemma allocUnsafe_zeroed: "0 \<le> n \<Longrightarrow> n < kMaxLength \<Longrightarrow> allocUnsafe n = Inr (replicate (nat n) 0)"
  by (simp add: allocUnsafe_def assertSize_def checked_def int32_id createBuffer_def)

lemma copy_all:
  assumes "pos + length this \<le> length target"
  shows "copy_to_new typed this target (Num (int pos)) = Inr (overwrite target pos this)"
proof (cases "this = []")
  case True
  then show ?thesis by (simp add: copy_to_new_def copy_def separate_def view_bytes_def)
next
  case False
  let ?st = "separate this target"
  have "copy typed 0 1 (Num (int pos)) Undef Undef ?st
      = copy typed 0 1 (Num (int pos)) (Num (int 0)) (Num (int (length this))) ?st"
    by (simp add: copy_def separate_def)
  also have "\<dots> = Inr (moved 0 1 pos 0 (length this) ?st, int (length this))"
    using assms False by (intro copy_window) (auto simp: separate_def store_ok_def)
  finally show ?thesis
    using assms by (simp add: copy_to_new_def moved_def separate_def view_bytes_def window_def length_overwrite)
qed

definition join_step :: "bool \<Rightarrow> buffer \<Rightarrow> buffer \<times> int \<Rightarrow> js_error + buffer \<times> int" where
  "join_step typed b = (\<lambda>(buffer, pos).
     bindR (copy_to_new typed b buffer (Num pos)) (\<lambda>buffer. Inr (buffer, pos + int (length b))))"

lemma join_loop:
  "foldR (join_step typed) bs (pre @ replicate (sum_list (map length bs)) 0, int (length pre))
    = Inr (pre @ concat bs, int (length (pre @ concat bs)))"
proof (induction bs arbitrary: pre)
  case (Cons b bs)
  let ?rest = "replicate (sum_list (map length bs)) (0 :: byte)"
  have "overwrite (pre @ replicate (sum_list (map length (b # bs))) 0) (length pre) b = (pre @ b) @ ?rest"
    by (simp add: overwrite_def replicate_add)
  then have "join_step typed b (pre @ replicate (sum_list (map length (b # bs))) 0, int (length pre))
      = Inr ((pre @ b) @ ?rest, int (length (pre @ b)))"
    using copy_all [of "length pre" b "pre @ replicate (sum_list (map length (b # bs))) 0" typed] by (simp add: join_step_def)
  with Cons [of "pre @ b"] show ?case by simp
qed simp

lemma sum_lengths: "fold (\<lambda>i n. n + int (length (list ! i))) [0..<length list] 0 = int (sum_list (map length list))"
  for list :: "buffer list"
proof -
  have "fold (\<lambda>b n. n + int (length b)) bs k = k + int (sum_list (map length bs))" for bs :: "buffer list" and k
    by (induction bs arbitrary: k) auto
  then show ?thesis using fold_nth [of "\<lambda>b n. n + int (length b)" list 0] by simp
qed

text \<open>
  \<open>Buffer.concat\<close> without a length joins the buffers of the list in order, empty ones included,
  when their total length is below the maximum.
\<close>

lemma concat_joins:
  assumes "int (length (concat list)) < kMaxLength"
  shows "concat_buffers typed list None = Inr (concat list)"
proof (cases "list = []")
  case False
  have "int (sum_list (map length list)) < kMaxLength" using assms by (simp add: length_concat)
  moreover have "foldR (\<lambda>i. join_step typed (list ! i)) [0..<length list] (replicate (sum_list (map length list)) 0, 0)
      = Inr (concat list, int (length (concat list)))"
    using join_loop [of typed list "[]"] foldR_nth [of "join_step typed" list] by simp
  ultimately show ?thesis using False
    by (simp add: concat_buffers_def sum_lengths allocUnsafe_zeroed join_step_def)
qed (simp add: concat_buffers_def createBuffer_def)

section \<open>Byte swapping\<close>

text \<open>The first \<open>n\<close> groups of \<open>k\<close> bytes reversed.\<close>

primrec group_rev :: "nat \<Rightarrow> nat \<Rightarrow> buffer \<Rightarrow> buffer" where
  "group_rev 0 k b = b"
| "group_rev (Suc n) k b = rev (take k b) @ group_rev n k (drop k b)"

lemma length_group_rev [simp]: "length (group_rev n k b) = length b"
  by (induction n arbitrary: b) auto

lemma group_rev_twice: "k * n \<le> length b \<Longrightarrow> group_rev n k (group_rev n k b) = b"
proof (induction n arbitrary: b)
  case (Suc n)
  then have "length (take k b) = k" "k * n \<le> length (drop k b)" by auto
  then show ?case using Suc.IH [of "drop k b"] by simp
qed simp

lemma at_append: "0 \<le> i \<Longrightarrow> at (xs @ b) (int (length xs) + i) = at b i"
  by (auto simp: at_def nth_append nat_add_distrib)

lemma put_append: "0 \<le> i \<Longrightarrow> put (xs @ b) (int (length xs) + i) v = xs @ put b i v"
  by (auto simp: put_def list_update_append nat_add_distrib)

lemma swap_append:
  "0 \<le> i \<Longrightarrow> 0 \<le> j \<Longrightarrow> swap (xs @ b) (int (length xs) + i) (int (length xs) + j) = xs @ swap b i j"
  by (simp add: swap_def at_append put_append Let_def)

lemma steps_Suc: "steps k (k + len) = 0 # map (\<lambda>i. int k + i) (steps k len)" if "0 < k"
proof -
  have "[0..<Suc (len div k)] = 0 # map Suc [0..<len div k]" by (simp add: upt_conv_Cons map_Suc_upt del: upt_Suc)
  moreover have "(k + len) div k = Suc (len div k)" using that div_add_self1 [of k len] by simp
  ultimately show ?thesis by (simp add: steps_def distrib_left)
qed

text \<open>A body that reverses the group at its position, wherever it is, reverses all groups.\<close>

lemma swap_groups:
  assumes "0 < k"
    and local: "\<And>xs b i. 0 \<le> i \<Longrightarrow> body (int (length xs) + i) (xs @ b) = xs @ body i b"
    and first: "\<And>g b. length g = k \<Longrightarrow> body 0 (g @ b) = rev g @ b"
    and "length b = k * n"
  shows "fold body (steps k (length b)) b = group_rev n k b"
  using assms(4)
proof (induction n arbitrary: b)
  case 0
  then show ?case by (simp add: steps_def)
next
  case (Suc n)
  let ?g = "take k b" and ?r = "drop k b"
  have g: "length ?g = k" "length ?r = k * n" using Suc.prems by auto
  have "fold body (map (\<lambda>i. int k + i) is) (xs @ c) = xs @ fold body is c"
    if "length xs = k" "\<And>i. i \<in> set is \<Longrightarrow> 0 \<le> i" for "is" xs c
    using that
  proof (induction "is" arbitrary: c)
    case (Cons i "is")
    have "body (int k + i) (xs @ c) = xs @ body i c" using local [of i xs c] Cons.prems by simp
    with Cons show ?case by simp
  qed simp
  moreover have "\<And>i. i \<in> set (steps k (length ?r)) \<Longrightarrow> 0 \<le> i" by (auto simp: steps_def)
  ultimately have rest: "fold body (map (\<lambda>i. int k + i) (steps k (length ?r))) (rev ?g @ ?r) = rev ?g @ fold body (steps k (length ?r)) ?r"
    using g(1) by (metis length_rev)
  have "steps k (length b) = 0 # map (\<lambda>i. int k + i) (steps k (length ?r))"
    using steps_Suc [OF assms(1), of "length ?r"] Suc.prems by simp
  moreover have "body 0 b = rev ?g @ ?r" using first [OF g(1), of ?r] by simp
  ultimately have "fold body (steps k (length b)) b = fold body (map (\<lambda>i. int k + i) (steps k (length ?r))) (rev ?g @ ?r)"
    by (simp only: fold_simps)
  then show ?case using rest Suc.IH [OF g(2)] by (simp only: group_rev.simps)
qed

lemma group_cases:
  "length g = Suc n \<longleftrightarrow> (\<exists>x xs. g = x # xs \<and> length xs = n)" for g :: buffer
  by (cases g) auto

lemma swap_Cons: "0 < i \<Longrightarrow> 0 < j \<Longrightarrow> swap (x # xs) i j = x # swap xs (i - 1) (j - 1)"
  using swap_append [of "i - 1" "j - 1" "[x]" xs] by simp

lemma swap_first:
  "j < length xs \<Longrightarrow> swap (x # xs) 0 (int j + 1) = xs ! j # xs[j := x]"
  by (simp add: swap_def at_def put_def nat_add_distrib)

lemmas swap_first_at = swap_first [of 0, simplified] swap_first [of 2, simplified] swap_first [of 4, simplified]
  swap_first [of 6, simplified]

lemmas byte_groups = group_cases swap_Cons swap_first_at numeral_eq_Suc

lemma swap16_groups:
  assumes "length b mod 2 = 0"
  shows "swap16 b = Inr (group_rev (length b div 2) 2 b)"
proof -
  have "length b = 2 * (length b div 2)" using assms by presburger
  then have "fold (\<lambda>i b. swap b i (i + 1)) (steps 2 (length b)) b = group_rev (length b div 2) 2 b"
  proof (rule swap_groups [rotated 3])
    show "swap (xs @ b) (int (length xs) + i) (int (length xs) + i + 1) = xs @ swap b i (i + 1)" if "0 \<le> i" for xs b i
      using swap_append [of i "i + 1" xs b] that by (simp add: add.assoc)
    show "swap (g @ b) 0 (0 + 1) = rev g @ b" if "length g = 2" for g b
      using that by (auto simp: byte_groups)
  qed simp
  with assms show ?thesis by (simp add: swap16_def)
qed

lemma swap32_groups:
  assumes "length b mod 4 = 0"
  shows "swap32 b = Inr (group_rev (length b div 4) 4 b)"
proof -
  let ?body = "\<lambda>i b. swap (swap b i (i + 3)) (i + 1) (i + 2)"
  have "length b = 4 * (length b div 4)" using assms by presburger
  then have "fold ?body (steps 4 (length b)) b = group_rev (length b div 4) 4 b"
  proof (rule swap_groups [rotated 3])
    show "?body (int (length xs) + i) (xs @ b) = xs @ ?body i b" if "0 \<le> i" for xs b i
      using that by (simp add: add.assoc swap_append)
    show "?body 0 (g @ b) = rev g @ b" if "length g = 4" for g b
      using that by (auto simp: byte_groups)
  qed simp
  with assms show ?thesis by (simp add: swap32_def)
qed

lemma swap64_groups:
  assumes "length b mod 8 = 0"
  shows "swap64 b = Inr (group_rev (length b div 8) 8 b)"
proof -
  let ?body = "\<lambda>i b. swap (swap (swap (swap b i (i + 7)) (i + 1) (i + 6)) (i + 2) (i + 5)) (i + 3) (i + 4)"
  have "length b = 8 * (length b div 8)" using assms by presburger
  then have "fold ?body (steps 8 (length b)) b = group_rev (length b div 8) 8 b"
  proof (rule swap_groups [rotated 3])
    show "?body (int (length xs) + i) (xs @ b) = xs @ ?body i b" if "0 \<le> i" for xs b i
      using that by (simp add: add.assoc swap_append)
    show "?body 0 (g @ b) = rev g @ b" if "length g = 8" for g b
      using that by (auto simp: byte_groups)
  qed simp
  with assms show ?thesis by (simp add: swap64_def)
qed

text \<open>
  \<open>swap16\<close>, \<open>swap32\<close> and \<open>swap64\<close> reverse the bytes of every group of 2, 4 or 8 bytes, so applying
  one twice restores the buffer; a length that is no multiple of the group raises a
  \<open>RangeError\<close>.
\<close>

lemma swap_reverses_groups:
  "swap16 b = (if length b mod 2 = 0 then Inr (group_rev (length b div 2) 2 b) else Inl RangeError)
   \<and> swap32 b = (if length b mod 4 = 0 then Inr (group_rev (length b div 4) 4 b) else Inl RangeError)
   \<and> swap64 b = (if length b mod 8 = 0 then Inr (group_rev (length b div 8) 8 b) else Inl RangeError)
   \<and> bindR (swap32 b) swap32 = (if length b mod 4 = 0 then Inr b else Inl RangeError)"
proof (intro conjI)
  show "swap16 b = (if length b mod 2 = 0 then Inr (group_rev (length b div 2) 2 b) else Inl RangeError)"
    using swap16_groups [of b] by (auto simp: swap16_def)
  show 32: "swap32 b = (if length b mod 4 = 0 then Inr (group_rev (length b div 4) 4 b) else Inl RangeError)"
    using swap32_groups [of b] by (auto simp: swap32_def)
  show "swap64 b = (if length b mod 8 = 0 then Inr (group_rev (length b div 8) 8 b) else Inl RangeError)"
    using swap64_groups [of b] by (auto simp: swap64_def)
  show "bindR (swap32 b) swap32 = (if length b mod 4 = 0 then Inr b else Inl RangeError)"
  proof (cases "length b mod 4 = 0")
    case True
    then have "4 * (length b div 4) \<le> length b" by simp
    with True swap32_groups [OF True] swap32_groups [of "group_rev (length b div 4) 4 b"] group_rev_twice [of 4 "length b div 4" b]
    show ?thesis by simp
  next
    case False
    with 32 show ?thesis by simp
  qed
qed

section \<open>Searching finds the first and the last occurrence\<close>












end
