(* ===== verification/Lodash_Cache.thy ===== *)
theory Lodash_Cache
  imports Js_Value "HOL-Library.AList"
begin

text \<open>
  The caches of lodash: association arrays (\<open>assocGet\<close> and its companions), \<open>Hash\<close> objects,
  \<open>MapCache\<close>, which splits its keys over two hashes and a \<open>Map\<close> or an association array,
  \<open>SetCache\<close>, and \<open>Stack\<close>, which starts as an association array and turns into a \<open>MapCache\<close>
  when it grows. The locale \<open>store\<close> is the contract of a cache, a finite map from values to
  values; it is interpreted on the association array, the \<open>MapCache\<close> and the \<open>Stack\<close>, and a
  sequence of operations on any of them answers like the map. The locale \<open>value_set\<close> is the
  contract of a set of values, which \<open>SetCache\<close> and a plain array fulfil.
\<close>

section \<open>The host environment\<close>

text \<open>
  What the library finds when it is loaded: whether \<open>Object.create\<close>, \<open>Map\<close> and a working \<open>Set\<close>
  exist, and the properties every object inherits from \<open>Object.prototype\<close>.
\<close>

record js_env =
  nativeCreate :: bool
  hasMap :: bool
  hasSet :: bool
  objectProto :: "string \<rightharpoonup> jsval"

definition HASH_UNDEFINED :: jsval where
  "HASH_UNDEFINED = String ''__lodash_hash_undefined__''"

text \<open>No property of \<open>Object.prototype\<close> is the marker string.\<close>

definition env_ok :: "js_env \<Rightarrow> bool" where
  "env_ok env \<longleftrightarrow> HASH_UNDEFINED \<notin> ran (objectProto env)"

text \<open>A host of before ECMAScript 5 and one of today, with some of the properties they inherit.\<close>

definition legacy_env :: js_env where
  "legacy_env = \<lparr>nativeCreate = False, hasMap = False, hasSet = False,
     objectProto = [''toString'' \<mapsto> Ref 0, ''hasOwnProperty'' \<mapsto> Ref 1]\<rparr>"

definition modern_env :: js_env where
  "modern_env = \<lparr>nativeCreate = True, hasMap = True, hasSet = True,
     objectProto = [''toString'' \<mapsto> Ref 0, ''hasOwnProperty'' \<mapsto> Ref 1]\<rparr>"

definition LARGE_ARRAY_SIZE :: nat where
  "LARGE_ARRAY_SIZE = 200"

definition isKeyable :: "jsval \<Rightarrow> bool" where
  "isKeyable value \<longleftrightarrow>
     (let type = typeof value in
      type = TNumber \<or> type = TBoolean \<or> (type = TString \<and> value \<noteq> String ''__proto__'')
      \<or> nullish value)"

section \<open>Hash objects\<close>

type_synonym hash = "string \<rightharpoonup> jsval"

text \<open>\<open>new Hash\<close>: an object without properties of its own.\<close>

definition Hash :: hash where
  "Hash = Map.empty"

text \<open>Reading \<open>hash[key]\<close>: \<open>Hash.prototype\<close> is empty when \<open>Object.create\<close> exists and
  \<open>Object.prototype\<close> otherwise.\<close>

definition hash_at :: "js_env \<Rightarrow> hash \<Rightarrow> jsval \<Rightarrow> jsval" where
  "hash_at env h key = (case h (toPropertyKey key) of
     Some v \<Rightarrow> v
   | None \<Rightarrow>
       if nativeCreate env then Undefined
       else (case objectProto env (toPropertyKey key) of Some v \<Rightarrow> v | None \<Rightarrow> Undefined))"

definition hashHas :: "js_env \<Rightarrow> hash \<Rightarrow> jsval \<Rightarrow> bool" where
  "hashHas env h key =
     (if nativeCreate env then \<not> strict_eq (hash_at env h key) Undefined
      else h (toPropertyKey key) \<noteq> None)"

definition hashDelete :: "js_env \<Rightarrow> hash \<Rightarrow> jsval \<Rightarrow> bool \<times> hash" where
  "hashDelete env h key =
     (if hashHas env h key then (True, h(toPropertyKey key := None)) else (False, h))"

definition hashGet :: "js_env \<Rightarrow> hash \<Rightarrow> jsval \<Rightarrow> jsval" where
  "hashGet env h key =
     (if nativeCreate env then
        let result = hash_at env h key in
        if strict_eq result HASH_UNDEFINED then Undefined else result
      else if h (toPropertyKey key) \<noteq> None then hash_at env h key else Undefined)"

definition hashSet :: "js_env \<Rightarrow> hash \<Rightarrow> jsval \<Rightarrow> jsval \<Rightarrow> hash" where
  "hashSet env h key value =
     h(toPropertyKey key \<mapsto>
        (if nativeCreate env \<and> strict_eq value Undefined then HASH_UNDEFINED else value))"

section \<open>Association arrays\<close>

type_synonym entries = "(jsval \<times> jsval) list"

definition assocIndexOf :: "entries \<Rightarrow> jsval \<Rightarrow> int" where
  "assocIndexOf array key = search (\<lambda>i. eq (fst (array ! i)) key) (rev [0..<length array])"

definition assocDelete :: "entries \<Rightarrow> jsval \<Rightarrow> bool \<times> entries" where
  "assocDelete array key =
     (let index = assocIndexOf array key in
      if index < 0 then (False, array)
      else
        let lastIndex = int (length array) - 1 in
        if index = lastIndex then (True, butlast array)
        else (True, take (nat index) array @ drop (nat index + 1) array))"

definition assocGet :: "entries \<Rightarrow> jsval \<Rightarrow> jsval" where
  "assocGet array key =
     (let index = assocIndexOf array key in
      if index < 0 then Undefined else snd (array ! nat index))"

definition assocHas :: "entries \<Rightarrow> jsval \<Rightarrow> bool" where
  "assocHas array key \<longleftrightarrow> assocIndexOf array key > - 1"

definition assocSet :: "entries \<Rightarrow> jsval \<Rightarrow> jsval \<Rightarrow> entries" where
  "assocSet array key value =
     (let index = assocIndexOf array key in
      if index < 0 then array @ [(key, value)]
      else array[nat index := (fst (array ! nat index), value)])"

text \<open>The \<open>Map\<close> of the language: its entries in insertion order, its keys compared by
  \<open>SameValueZero\<close>.\<close>

definition es_get :: "entries \<Rightarrow> jsval \<Rightarrow> jsval" where
  "es_get m key = (case map_of m key of Some v \<Rightarrow> v | None \<Rightarrow> Undefined)"

definition es_has :: "entries \<Rightarrow> jsval \<Rightarrow> bool" where
  "es_has m key \<longleftrightarrow> map_of m key \<noteq> None"

definition es_set :: "entries \<Rightarrow> jsval \<Rightarrow> jsval \<Rightarrow> entries" where
  "es_set m key value = AList.update key value m"

definition es_delete :: "entries \<Rightarrow> jsval \<Rightarrow> bool \<times> entries" where
  "es_delete m key = (es_has m key, AList.delete key m)"

section \<open>MapCache\<close>

text \<open>The object \<open>this.__data__\<close>.\<close>

record map_cache =
  hash_data :: hash
  map_data :: entries
  string_data :: hash

definition mapClear :: map_cache where
  "mapClear = \<lparr>hash_data = Hash, map_data = [], string_data = Hash\<rparr>"

definition mapDelete :: "js_env \<Rightarrow> map_cache \<Rightarrow> jsval \<Rightarrow> bool \<times> map_cache" where
  "mapDelete env data key =
     (if isKeyable key then
        if typeof key = TString then
          (let (r, h) = hashDelete env (string_data data) key in (r, data\<lparr>string_data := h\<rparr>))
        else
          (let (r, h) = hashDelete env (hash_data data) key in (r, data\<lparr>hash_data := h\<rparr>))
      else
        (let (r, m) = (if hasMap env then es_delete (map_data data) key
                       else assocDelete (map_data data) key)
         in (r, data\<lparr>map_data := m\<rparr>)))"

definition mapGet :: "js_env \<Rightarrow> map_cache \<Rightarrow> jsval \<Rightarrow> jsval" where
  "mapGet env data key =
     (if isKeyable key then
        hashGet env (if typeof key = TString then string_data data else hash_data data) key
      else if hasMap env then es_get (map_data data) key else assocGet (map_data data) key)"

definition mapHas :: "js_env \<Rightarrow> map_cache \<Rightarrow> jsval \<Rightarrow> bool" where
  "mapHas env data key =
     (if isKeyable key then
        hashHas env (if typeof key = TString then string_data data else hash_data data) key
      else if hasMap env then es_has (map_data data) key else assocHas (map_data data) key)"

definition mapSet :: "js_env \<Rightarrow> map_cache \<Rightarrow> jsval \<Rightarrow> jsval \<Rightarrow> map_cache" where
  "mapSet env data key value =
     (if isKeyable key then
        if typeof key = TString
        then data\<lparr>string_data := hashSet env (string_data data) key value\<rparr>
        else data\<lparr>hash_data := hashSet env (hash_data data) key value\<rparr>
      else if hasMap env then data\<lparr>map_data := es_set (map_data data) key value\<rparr>
      else data\<lparr>map_data := assocSet (map_data data) key value\<rparr>)"

definition MapCache :: "js_env \<Rightarrow> entries \<Rightarrow> map_cache" where
  "MapCache env values =
     fold (\<lambda>index data. let entry = values ! index in mapSet env data (fst entry) (snd entry))
       [0..<length values] mapClear"

section \<open>SetCache\<close>

definition cacheHas :: "js_env \<Rightarrow> map_cache \<Rightarrow> jsval \<Rightarrow> bool" where
  "cacheHas env cache value =
     (if isKeyable value then
        let h = (if typeof value = TString then string_data cache else hash_data cache)
        in strict_eq (hash_at env h value) HASH_UNDEFINED
      else mapHas env cache value)"

definition cachePush :: "js_env \<Rightarrow> map_cache \<Rightarrow> jsval \<Rightarrow> map_cache" where
  "cachePush env cache value =
     (if isKeyable value then
        if typeof value = TString
        then cache\<lparr>string_data := (string_data cache)(toPropertyKey value \<mapsto> HASH_UNDEFINED)\<rparr>
        else cache\<lparr>hash_data := (hash_data cache)(toPropertyKey value \<mapsto> HASH_UNDEFINED)\<rparr>
      else mapSet env cache value HASH_UNDEFINED)"

definition SetCache :: "js_env \<Rightarrow> jsval list \<Rightarrow> map_cache" where
  "SetCache env values =
     fold (\<lambda>index cache. cachePush env cache (values ! index)) [0..<length values]
       (MapCache env [])"

section \<open>Stack\<close>

text \<open>The object \<open>this.__data__\<close>: an array, or null and a \<open>MapCache\<close>.\<close>

record stack =
  stack_array :: "entries option"
  stack_map :: "map_cache option"

definition stackClear :: stack where
  "stackClear = \<lparr>stack_array = Some [], stack_map = None\<rparr>"

text \<open>When the array is null the map is there; \<open>stack_ok\<close> below says so, and a method call on a
  null map would raise.\<close>

definition stackDelete :: "js_env \<Rightarrow> stack \<Rightarrow> jsval \<Rightarrow> js_error + bool \<times> stack" where
  "stackDelete env data key = (case stack_array data of
     Some array \<Rightarrow>
       let (r, a) = assocDelete array key in Inr (r, data\<lparr>stack_array := Some a\<rparr>)
   | None \<Rightarrow> (case stack_map data of
       Some m \<Rightarrow> let (r, m') = mapDelete env m key in Inr (r, data\<lparr>stack_map := Some m'\<rparr>)
     | None \<Rightarrow> Inl TypeError))"

definition stackGet :: "js_env \<Rightarrow> stack \<Rightarrow> jsval \<Rightarrow> js_error + jsval" where
  "stackGet env data key = (case stack_array data of
     Some array \<Rightarrow> Inr (assocGet array key)
   | None \<Rightarrow> (case stack_map data of
       Some m \<Rightarrow> Inr (mapGet env m key)
     | None \<Rightarrow> Inl TypeError))"

definition stackHas :: "js_env \<Rightarrow> stack \<Rightarrow> jsval \<Rightarrow> js_error + bool" where
  "stackHas env data key = (case stack_array data of
     Some array \<Rightarrow> Inr (assocHas array key)
   | None \<Rightarrow> (case stack_map data of
       Some m \<Rightarrow> Inr (mapHas env m key)
     | None \<Rightarrow> Inl TypeError))"

definition stackSet :: "js_env \<Rightarrow> stack \<Rightarrow> jsval \<Rightarrow> jsval \<Rightarrow> stack" where
  "stackSet env data key value =
     (let data =
        (case stack_array data of
           Some array \<Rightarrow>
             if length array < LARGE_ARRAY_SIZE - 1
             then data\<lparr>stack_array := Some (assocSet array key value)\<rparr>
             else data\<lparr>stack_array := None, stack_map := Some (MapCache env array)\<rparr>
         | None \<Rightarrow> data)
      in case stack_map data of
           Some m \<Rightarrow> data\<lparr>stack_map := Some (mapSet env m key value)\<rparr>
         | None \<Rightarrow> data)"

definition Stack :: "js_env \<Rightarrow> entries \<Rightarrow> stack" where
  "Stack env values =
     fold (\<lambda>index data. let entry = values ! index in stackSet env data (fst entry) (snd entry))
       [0..<length values] stackClear"

section \<open>The contract of a cache\<close>

datatype cache_op = GetOp jsval | HasOp jsval | SetOp jsval jsval | DeleteOp jsval

text \<open>The reference: a finite map.\<close>

fun map_perform :: "cache_op \<Rightarrow> (jsval \<rightharpoonup> jsval) \<Rightarrow> jsval \<times> (jsval \<rightharpoonup> jsval)" where
  "map_perform (GetOp k) m = ((case m k of Some v \<Rightarrow> v | None \<Rightarrow> Undefined), m)"
| "map_perform (HasOp k) m = (Boolean (m k \<noteq> None), m)"
| "map_perform (SetOp k v) m = (Undefined, m(k \<mapsto> v))"
| "map_perform (DeleteOp k) m = (Boolean (m k \<noteq> None), m(k := None))"

fun map_run :: "cache_op list \<Rightarrow> (jsval \<rightharpoonup> jsval) \<Rightarrow> jsval list" where
  "map_run [] m = []"
| "map_run (c # cs) m = (let (r, m') = map_perform c m in r # map_run cs m')"

text \<open>The same operations on a cache; what \<open>set\<close> returns is the cache itself.\<close>

fun perform :: "('s \<Rightarrow> jsval \<Rightarrow> js_error + jsval) \<Rightarrow> ('s \<Rightarrow> jsval \<Rightarrow> js_error + bool) \<Rightarrow>
    ('s \<Rightarrow> jsval \<Rightarrow> jsval \<Rightarrow> 's) \<Rightarrow> ('s \<Rightarrow> jsval \<Rightarrow> js_error + bool \<times> 's) \<Rightarrow>
    cache_op \<Rightarrow> 's \<Rightarrow> js_error + jsval \<times> 's" where
  "perform get has upd del (GetOp k) s = bindR (get s k) (\<lambda>v. Inr (v, s))"
| "perform get has upd del (HasOp k) s = bindR (has s k) (\<lambda>b. Inr (Boolean b, s))"
| "perform get has upd del (SetOp k v) s = Inr (Undefined, upd s k v)"
| "perform get has upd del (DeleteOp k) s = bindR (del s k) (\<lambda>(b, s'). Inr (Boolean b, s'))"

fun run :: "(cache_op \<Rightarrow> 's \<Rightarrow> js_error + jsval \<times> 's) \<Rightarrow> cache_op list \<Rightarrow> 's \<Rightarrow> js_error + jsval list"
where
  "run step [] s = Inr []"
| "run step (c # cs) s = bindR (step c s) (\<lambda>(r, s'). bindR (run step cs s') (\<lambda>rs. Inr (r # rs)))"

text \<open>The values an operation stores.\<close>

fun stores :: "cache_op \<Rightarrow> jsval set" where
  "stores (SetOp k v) = {v}"
| "stores _ = {}"

text \<open>
  A cache with the abstraction \<open>lookup\<close> and the representation invariant \<open>ok\<close>; the values it can
  hold are those that are \<open>storable\<close>.
\<close>

locale store =
  fixes ok :: "'s \<Rightarrow> bool"
    and lookup :: "'s \<Rightarrow> jsval \<rightharpoonup> jsval"
    and storable :: "jsval \<Rightarrow> bool"
    and empty :: 's
    and get :: "'s \<Rightarrow> jsval \<Rightarrow> js_error + jsval"
    and has :: "'s \<Rightarrow> jsval \<Rightarrow> js_error + bool"
    and upd :: "'s \<Rightarrow> jsval \<Rightarrow> jsval \<Rightarrow> 's"
    and del :: "'s \<Rightarrow> jsval \<Rightarrow> js_error + bool \<times> 's"
  assumes ok_empty: "ok empty"
    and lookup_empty: "lookup empty = Map.empty"
    and get_lookup: "ok s \<Longrightarrow> get s k = Inr (case lookup s k of Some v \<Rightarrow> v | None \<Rightarrow> Undefined)"
    and has_lookup: "ok s \<Longrightarrow> has s k = Inr (lookup s k \<noteq> None)"
    and ok_upd: "ok s \<Longrightarrow> storable v \<Longrightarrow> ok (upd s k v)"
    and lookup_upd: "ok s \<Longrightarrow> storable v \<Longrightarrow> lookup (upd s k v) = (lookup s)(k \<mapsto> v)"
    and del_lookup: "ok s \<Longrightarrow>
      \<exists>s'. del s k = Inr (lookup s k \<noteq> None, s') \<and> ok s' \<and> lookup s' = (lookup s)(k := None)"
begin

text \<open>Each operation answers like the map and leaves a cache that represents the map it leaves.\<close>

lemma perform_refines:
  assumes "ok s" and "\<And>v. v \<in> stores c \<Longrightarrow> storable v"
  shows "\<exists>s'. perform get has upd del c s = Inr (fst (map_perform c (lookup s)), s') \<and> ok s'
    \<and> lookup s' = snd (map_perform c (lookup s))"
proof (cases c)
  case (DeleteOp k)
  from del_lookup [OF assms(1), of k] obtain s'
    where "del s k = Inr (lookup s k \<noteq> None, s')" "ok s'" "lookup s' = (lookup s)(k := None)"
    by blast
  with DeleteOp show ?thesis by simp
qed (use assms in \<open>auto simp: get_lookup has_lookup ok_upd lookup_upd\<close>)

lemma run_refines:
  assumes "ok s" and "\<forall>c\<in>set cs. \<forall>v\<in>stores c. storable v"
  shows "run (perform get has upd del) cs s = Inr (map_run cs (lookup s))"
  using assms
proof (induction cs arbitrary: s)
  case (Cons c cs)
  obtain s' where "perform get has upd del c s = Inr (fst (map_perform c (lookup s)), s')" "ok s'"
    "lookup s' = snd (map_perform c (lookup s))"
    using perform_refines [OF Cons.prems(1), of c] Cons.prems(2) by auto
  with Cons.IH [of s'] Cons.prems(2) show ?case by (simp add: case_prod_beta)
qed simp

lemma run_empty:
  assumes "\<forall>c\<in>set cs. \<forall>v\<in>stores c. storable v"
  shows "run (perform get has upd del) cs empty = Inr (map_run cs Map.empty)"
  using run_refines [OF ok_empty assms] by (simp add: lookup_empty)

text \<open>A cache filled from a list of entries represents the map of the entries, a later entry
  for a key before an earlier one.\<close>

lemma fill:
  assumes "ok s" and "\<And>v. v \<in> snd ` set es \<Longrightarrow> storable v"
  shows "ok (fold (\<lambda>e s. upd s (fst e) (snd e)) es s)
    \<and> lookup (fold (\<lambda>e s. upd s (fst e) (snd e)) es s) = lookup s ++ map_of (rev es)"
  using assms
proof (induction es arbitrary: s)
  case (Cons e es)
  have "storable (snd e)" using Cons.prems(2) by simp
  with Cons.prems(1) have "ok (upd s (fst e) (snd e))"
    "lookup (upd s (fst e) (snd e)) = (lookup s)(fst e \<mapsto> snd e)"
    by (simp_all add: ok_upd lookup_upd)
  moreover have "m(fst e \<mapsto> snd e) ++ map_of (rev es) = m ++ (map_of (rev (e # es)))" for m
    by (auto simp: map_add_def fun_eq_iff split: option.splits)
  ultimately show ?case using Cons.IH [of "upd s (fst e) (snd e)"] Cons.prems(2) by (simp del: fun_upd_apply)
qed simp

end

section \<open>Association arrays fulfil the contract\<close>

definition assoc_ok :: "entries \<Rightarrow> bool" where
  "assoc_ok array \<longleftrightarrow> distinct (map fst array)"

lemma distinct_middle:
  assumes "es = xs @ (k, v) # ys" and "distinct (map fst es)"
  shows "k \<notin> fst ` set xs" and "k \<notin> fst ` set ys"
  using assms by auto

lemma assocIndexOf_cases:
  assumes "assoc_ok array"
  obtains "assocIndexOf array key = - 1" "map_of array key = None"
  | xs v ys where "array = xs @ (key, v) # ys" "assocIndexOf array key = int (length xs)"
      "map_of array key = Some v" "key \<notin> fst ` set xs" "key \<notin> fst ` set ys"
proof (rule search_cases [of "\<lambda>i. eq (fst (array ! i)) key" "rev [0..<length array]"])
  assume "search (\<lambda>i. eq (fst (array ! i)) key) (rev [0..<length array]) = - 1"
    "\<And>i. i \<in> set (rev [0..<length array]) \<Longrightarrow> \<not> eq (fst (array ! i)) key"
  moreover from this(2) have "key \<notin> fst ` set array" by (metis imageE in_set_conv_nth eq_iff atLeast0LessThan lessThan_iff set_rev set_upt)
  ultimately show thesis using that(1) by (simp add: assocIndexOf_def map_of_eq_None_iff)
next
  fix i
  assume i: "search (\<lambda>i. eq (fst (array ! i)) key) (rev [0..<length array]) = int i"
    "i \<in> set (rev [0..<length array])" "eq (fst (array ! i)) key"
  let ?xs = "take i array" and ?ys = "drop (Suc i) array" and ?v = "snd (array ! i)"
  have split: "array = ?xs @ (key, ?v) # ?ys"
    using i(2,3) id_take_nth_drop [of i array] by (metis eq_iff prod.collapse set_rev atLeastLessThan_iff set_upt)
  have len: "length ?xs = i" using i(2) by simp
  have d: "key \<notin> fst ` set ?xs" "key \<notin> fst ` set ?ys"
    using distinct_middle [OF split] assms by (simp_all add: assoc_ok_def)
  have "map_of array key = Some ?v"
    using d(1) by (subst split) (simp add: map_add_def map_of_eq_None_iff [THEN iffD2])
  with that(2) [OF split] d len i(1) show thesis by (simp add: assocIndexOf_def)
qed

lemma assocGet_lookup:
  "assoc_ok array \<Longrightarrow>
   assocGet array key = (case map_of array key of Some v \<Rightarrow> v | None \<Rightarrow> Undefined)"
  by (erule assocIndexOf_cases [where key = key]) (simp_all add: assocGet_def)

lemma assocHas_lookup: "assoc_ok array \<Longrightarrow> assocHas array key \<longleftrightarrow> map_of array key \<noteq> None"
  by (erule assocIndexOf_cases [where key = key]) (simp_all add: assocHas_def)

lemma map_of_middle:
  assumes "key \<notin> fst ` set xs" and "key \<notin> fst ` set ys"
  shows "map_of (xs @ (key, v) # ys) = (map_of (xs @ ys))(key \<mapsto> v)" and "map_of (xs @ ys) key = None"
proof -
  show none: "map_of (xs @ ys) key = None"
    using assms by (auto simp: map_of_eq_None_iff)
  have "map_of xs key = None" using assms by (simp add: map_of_eq_None_iff)
  then show "map_of (xs @ (key, v) # ys) = (map_of (xs @ ys))(key \<mapsto> v)"
    by (auto simp: map_add_def fun_eq_iff split: option.splits)
qed

lemma assocSet_lookup:
  assumes "assoc_ok array"
  shows "assoc_ok (assocSet array key value)"
    and "map_of (assocSet array key value) = (map_of array)(key \<mapsto> value)"
    and "snd ` set (assocSet array key value) \<subseteq> insert value (snd ` set array)"
proof -
  have "\<exists>xs ys. assocSet array key value = xs @ (key, value) # ys \<and> distinct (map fst (xs @ ys))
      \<and> key \<notin> fst ` set (xs @ ys) \<and> (map_of array)(key \<mapsto> value) = (map_of (xs @ ys))(key \<mapsto> value)
      \<and> set (xs @ ys) \<subseteq> set array"
    using assms
  proof (cases rule: assocIndexOf_cases [where key = key])
    case 1
    with assms show ?thesis
      by (intro exI [of _ array] exI [of _ "[]"])
        (simp add: assocSet_def assoc_ok_def map_of_eq_None_iff)
  next
    case (2 xs v ys)
    have "assocSet array key value = xs @ (key, value) # ys"
      unfolding assocSet_def Let_def 2(2) by (simp add: 2(1) list_update_append)
    moreover have "(map_of array)(key \<mapsto> value) = (map_of (xs @ ys))(key \<mapsto> value)"
      unfolding 2(1) map_of_middle(1) [OF 2(4,5)] by simp
    ultimately show ?thesis using assms 2(1,4,5)
      by (intro exI [of _ xs] exI [of _ ys]) (auto simp: assoc_ok_def)
  qed
  then obtain xs ys where r: "assocSet array key value = xs @ (key, value) # ys"
    "distinct (map fst (xs @ ys))" "key \<notin> fst ` set xs" "key \<notin> fst ` set ys"
    "(map_of array)(key \<mapsto> value) = (map_of (xs @ ys))(key \<mapsto> value)" "set (xs @ ys) \<subseteq> set array"
    by auto
  show "assoc_ok (assocSet array key value)" using r by (auto simp: assoc_ok_def)
  show "map_of (assocSet array key value) = (map_of array)(key \<mapsto> value)"
    unfolding r(1,5) by (rule map_of_middle(1) [OF r(3,4)])
  show "snd ` set (assocSet array key value) \<subseteq> insert value (snd ` set array)"
    using r(6) unfolding r(1) by auto
qed

lemma assocDelete_lookup:
  assumes "assoc_ok array"
  obtains array' where "assocDelete array key = (map_of array key \<noteq> None, array')" "assoc_ok array'"
    "map_of array' = (map_of array)(key := None)" "snd ` set array' \<subseteq> snd ` set array"
  using assms
proof (cases rule: assocIndexOf_cases [where key = key])
  case 1
  then have "(map_of array)(key := None) = map_of array" by (simp add: fun_eq_iff)
  with 1 assms that [of array] show thesis by (simp add: assocDelete_def)
next
  case (2 xs v ys)
  have "assocDelete array key = (True, xs @ ys)"
    unfolding assocDelete_def Let_def 2(2) by (auto simp: 2(1) butlast_append)
  moreover have "map_of (xs @ ys) = (map_of array)(key := None)"
    unfolding 2(1) map_of_middle(1) [OF 2(4,5)] using map_of_middle(2) [OF 2(4,5)]
    by (simp add: fun_upd_idem)
  moreover have "assoc_ok (xs @ ys)" using assms 2(1) by (simp add: assoc_ok_def)
  ultimately show thesis using that [of "xs @ ys"] 2(1,3) by auto
qed

interpretation assoc: store assoc_ok map_of "\<lambda>_. True" "[]"
  "\<lambda>a k. Inr (assocGet a k)" "\<lambda>a k. Inr (assocHas a k)" assocSet "\<lambda>a k. Inr (assocDelete a k)"
proof
  fix s k assume "assoc_ok s"
  then show "\<exists>s'. Inr (assocDelete s k) = Inr (map_of s k \<noteq> None, s') \<and> assoc_ok s'
      \<and> map_of s' = (map_of s)(k := None)"
    by (rule assocDelete_lookup [of s k]) auto
qed (simp_all add: assoc_ok_def [of "[]"] assocGet_lookup assocHas_lookup assocSet_lookup)

section \<open>MapCache fulfils the contract\<close>

text \<open>A value the cache can hold: the marker string itself would read as \<open>undefined\<close>.\<close>

definition storable :: "jsval \<Rightarrow> bool" where
  "storable v \<longleftrightarrow> v \<noteq> HASH_UNDEFINED"

definition hash_ok :: "js_env \<Rightarrow> hash \<Rightarrow> bool" where
  "hash_ok env h \<longleftrightarrow> (nativeCreate env \<longrightarrow> Undefined \<notin> ran h)"

definition hash_val :: "js_env \<Rightarrow> hash \<Rightarrow> string \<rightharpoonup> jsval" where
  "hash_val env h p =
     map_option (\<lambda>v. if nativeCreate env \<and> v = HASH_UNDEFINED then Undefined else v) (h p)"

lemmas hash_defs = hash_ok_def hash_val_def hash_at_def hashGet_def hashHas_def hashSet_def
  hashDelete_def storable_def strict_eq_def HASH_UNDEFINED_def

lemma hashGet_val:
  "hash_ok env h \<Longrightarrow> hashGet env h k
     = (case hash_val env h (toPropertyKey k) of Some v \<Rightarrow> v | None \<Rightarrow> Undefined)"
  by (auto simp: hash_defs split: option.splits)

lemma hashHas_val:
  "hash_ok env h \<Longrightarrow> hashHas env h k \<longleftrightarrow> hash_val env h (toPropertyKey k) \<noteq> None"
  by (auto simp: hash_defs ran_def split: option.splits)

lemma hashSet_val:
  assumes "hash_ok env h" and "storable v"
  shows "hash_ok env (hashSet env h k v)"
    and "hash_val env (hashSet env h k v) = (hash_val env h)(toPropertyKey k \<mapsto> v)"
  using assms by (auto simp: hash_defs ran_def fun_eq_iff split: if_splits)

lemma hashDelete_val:
  assumes "hash_ok env h"
  shows "fst (hashDelete env h k) \<longleftrightarrow> hash_val env h (toPropertyKey k) \<noteq> None"
    and "hash_ok env (snd (hashDelete env h k))"
    and "hash_val env (snd (hashDelete env h k)) = (hash_val env h)(toPropertyKey k := None)"
proof -
  let ?p = "toPropertyKey k"
  have has: "hashHas env h k \<longleftrightarrow> hash_val env h ?p \<noteq> None" by (rule hashHas_val [OF assms])
  then show "fst (hashDelete env h k) \<longleftrightarrow> hash_val env h ?p \<noteq> None" by (simp add: hashDelete_def)
  show "hash_ok env (snd (hashDelete env h k))"
    using assms by (auto simp: hash_ok_def hashDelete_def ran_def split: if_splits)
  show "hash_val env (snd (hashDelete env h k)) = (hash_val env h)(?p := None)"
    using has by (auto simp: hashDelete_def hash_val_def fun_eq_iff)
qed

text \<open>The table of a keyable key, and what the cache maps a key to.\<close>

definition cache_table :: "map_cache \<Rightarrow> jsval \<Rightarrow> hash" where
  "cache_table c k = (if typeof k = TString then string_data c else hash_data c)"

definition map_lookup :: "js_env \<Rightarrow> map_cache \<Rightarrow> jsval \<rightharpoonup> jsval" where
  "map_lookup env c k =
     (if isKeyable k then hash_val env (cache_table c k) (toPropertyKey k)
      else map_of (map_data c) k)"

definition map_ok :: "js_env \<Rightarrow> map_cache \<Rightarrow> bool" where
  "map_ok env c \<longleftrightarrow>
     assoc_ok (map_data c) \<and> hash_ok env (hash_data c) \<and> hash_ok env (string_data c)"

lemma typeof_String_iff: "typeof k = TString \<longleftrightarrow> (\<exists>s. k = String s)"
  by (cases k) auto

text \<open>Two keys that share a table and a property name are the same key.\<close>

lemma keyable_inject:
  assumes "isKeyable a" "isKeyable b" "toPropertyKey a = toPropertyKey b"
    "typeof a = TString \<longleftrightarrow> typeof b = TString"
  shows "a = b"
proof (cases "typeof a = TString")
  case True
  with assms show ?thesis by (auto simp: typeof_String_iff)
next
  case False
  then have "\<And>s. a \<noteq> String s" "\<And>s. b \<noteq> String s" using assms(4) by (auto simp: typeof_String_iff)
  moreover have "\<And>r. a \<noteq> Ref r" "\<And>r. b \<noteq> Ref r"
    using assms(1,2) by (auto simp: isKeyable_def Let_def nullish_def)
  ultimately show ?thesis using toPropertyKey_inject [OF assms(3)] by blast
qed

lemma es_set_lookup:
  "assoc_ok m \<Longrightarrow> assoc_ok (es_set m k v)" "map_of (es_set m k v) = (map_of m)(k \<mapsto> v)"
  by (simp_all add: assoc_ok_def es_set_def distinct_update update_conv' fun_eq_iff update_conv)

lemma es_delete_lookup:
  "es_delete m k = (map_of m k \<noteq> None, AList.delete k m)"
  "assoc_ok m \<Longrightarrow> assoc_ok (AList.delete k m)" "map_of (AList.delete k m) = (map_of m)(k := None)"
  by (simp_all add: assoc_ok_def es_delete_def es_has_def distinct_delete delete_conv')

lemma mapGet_lookup:
  "map_ok env c \<Longrightarrow>
   mapGet env c k = (case map_lookup env c k of Some v \<Rightarrow> v | None \<Rightarrow> Undefined)"
  by (simp add: mapGet_def map_lookup_def map_ok_def cache_table_def hashGet_val assocGet_lookup
      es_get_def)

lemma mapHas_lookup: "map_ok env c \<Longrightarrow> mapHas env c k \<longleftrightarrow> map_lookup env c k \<noteq> None"
  by (simp add: mapHas_def map_lookup_def map_ok_def cache_table_def hashHas_val assocHas_lookup
      es_has_def)

text \<open>The three places where an update can land.\<close>

lemma map_lookup_string:
  assumes "isKeyable k" "typeof k = TString"
    and "hash_val env h = (hash_val env (string_data c))(toPropertyKey k := r)"
  shows "map_lookup env (c\<lparr>string_data := h\<rparr>) = (map_lookup env c)(k := r)"
  using assms by (auto simp: map_lookup_def cache_table_def fun_eq_iff) (metis keyable_inject)

lemma map_lookup_hash:
  assumes "isKeyable k" "typeof k \<noteq> TString"
    and "hash_val env h = (hash_val env (hash_data c))(toPropertyKey k := r)"
  shows "map_lookup env (c\<lparr>hash_data := h\<rparr>) = (map_lookup env c)(k := r)"
  using assms by (auto simp: map_lookup_def cache_table_def fun_eq_iff) (metis keyable_inject)

lemma map_lookup_map:
  assumes "\<not> isKeyable k" and "map_of m = (map_of (map_data c))(k := r)"
  shows "map_lookup env (c\<lparr>map_data := m\<rparr>) = (map_lookup env c)(k := r)"
  using assms by (auto simp: map_lookup_def cache_table_def fun_eq_iff)

lemma mapSet_lookup:
  assumes "map_ok env c" and "storable v"
  shows "map_ok env (mapSet env c k v)"
    and "map_lookup env (mapSet env c k v) = (map_lookup env c)(k \<mapsto> v)"
proof -
  have c: "assoc_ok (map_data c)" "hash_ok env (hash_data c)" "hash_ok env (string_data c)"
    using assms(1) by (simp_all add: map_ok_def)
  show "map_ok env (mapSet env c k v)"
    using c assms(2) by (simp add: map_ok_def mapSet_def hashSet_val es_set_lookup assocSet_lookup)
  show "map_lookup env (mapSet env c k v) = (map_lookup env c)(k \<mapsto> v)"
  proof (cases "isKeyable k")
    case True
    with c assms(2) show ?thesis
      by (auto simp: mapSet_def hashSet_val intro!: map_lookup_string map_lookup_hash)
  next
    case False
    with c show ?thesis
      by (auto simp: mapSet_def es_set_lookup assocSet_lookup intro!: map_lookup_map)
  qed
qed

lemma mapDelete_lookup:
  assumes "map_ok env c"
  shows "\<exists>c'. mapDelete env c k = (map_lookup env c k \<noteq> None, c') \<and> map_ok env c'
    \<and> map_lookup env c' = (map_lookup env c)(k := None)"
proof -
  have c: "assoc_ok (map_data c)" "hash_ok env (hash_data c)" "hash_ok env (string_data c)"
    using assms by (simp_all add: map_ok_def)
  obtain m where m: "assocDelete (map_data c) k = (map_of (map_data c) k \<noteq> None, m)" "assoc_ok m"
    "map_of m = (map_of (map_data c))(k := None)"
    by (rule assocDelete_lookup [OF c(1), of k])
  note d = hashDelete_val [OF c(2), of k] hashDelete_val [OF c(3), of k]
  consider "isKeyable k" "typeof k = TString" | "isKeyable k" "typeof k \<noteq> TString" | "\<not> isKeyable k"
    by blast
  then show ?thesis
  proof cases
    case 1
    with d c map_lookup_string [OF 1 d(6)] show ?thesis
      by (cases "hashDelete env (string_data c) k")
        (simp add: mapDelete_def map_ok_def map_lookup_def [of env c k] cache_table_def)
  next
    case 2
    with d c map_lookup_hash [OF 2 d(3)] show ?thesis
      by (cases "hashDelete env (hash_data c) k")
        (simp add: mapDelete_def map_ok_def map_lookup_def [of env c k] cache_table_def)
  next
    case 3
    with m c map_lookup_map [OF 3 m(3)] map_lookup_map [OF 3 es_delete_lookup(3)] show ?thesis
      by (simp add: mapDelete_def map_ok_def map_lookup_def [of env c k] es_delete_lookup)
  qed
qed

lemma mapClear_lookup: "map_ok env mapClear" "map_lookup env mapClear = Map.empty"
  by (auto simp: mapClear_def map_ok_def assoc_ok_def hash_ok_def Hash_def map_lookup_def hash_val_def
      cache_table_def fun_eq_iff)

interpretation mapcache: store "map_ok env" "map_lookup env" storable mapClear
  "\<lambda>c k. Inr (mapGet env c k)" "\<lambda>c k. Inr (mapHas env c k)" "mapSet env"
  "\<lambda>c k. Inr (mapDelete env c k)" for env
  by unfold_locales
    (use mapClear_lookup mapDelete_lookup in
      \<open>auto simp: mapGet_lookup mapHas_lookup mapSet_lookup\<close>)

section \<open>Stack fulfils the contract\<close>

definition stack_ok :: "js_env \<Rightarrow> stack \<Rightarrow> bool" where
  "stack_ok env s \<longleftrightarrow>
     (\<exists>a. s = \<lparr>stack_array = Some a, stack_map = None\<rparr> \<and> assoc_ok a \<and> HASH_UNDEFINED \<notin> snd ` set a)
   \<or> (\<exists>m. s = \<lparr>stack_array = None, stack_map = Some m\<rparr> \<and> map_ok env m)"

definition stack_lookup :: "js_env \<Rightarrow> stack \<Rightarrow> jsval \<rightharpoonup> jsval" where
  "stack_lookup env s = (case stack_array s of
     Some a \<Rightarrow> map_of a
   | None \<Rightarrow> (case stack_map s of Some m \<Rightarrow> map_lookup env m | None \<Rightarrow> Map.empty))"

lemma stack_ok_cases:
  assumes "stack_ok env s"
  obtains a where "s = \<lparr>stack_array = Some a, stack_map = None\<rparr>" "assoc_ok a" "HASH_UNDEFINED \<notin> snd ` set a"
  | m where "s = \<lparr>stack_array = None, stack_map = Some m\<rparr>" "map_ok env m"
  using assms by (auto simp: stack_ok_def)

lemma MapCache_fold:
  "MapCache env values = fold (\<lambda>e c. mapSet env c (fst e) (snd e)) values mapClear"
  unfolding MapCache_def Let_def by (rule fold_nth [of "\<lambda>e c. mapSet env c (fst e) (snd e)"])

text \<open>A map cache made from the entries of an association array represents the array.\<close>

lemma MapCache_lookup:
  assumes "assoc_ok a" and "HASH_UNDEFINED \<notin> snd ` set a"
  shows "map_ok env (MapCache env a)" and "map_lookup env (MapCache env a) = map_of a"
proof -
  have "map_of (rev a) = map_of a"
    using assms(1) by (intro map_of_inject_set [THEN iffD2]) (simp_all add: assoc_ok_def rev_map [symmetric])
  moreover have "\<And>v. v \<in> snd ` set a \<Longrightarrow> storable v" using assms(2) unfolding storable_def by metis
  ultimately show "map_ok env (MapCache env a)" and "map_lookup env (MapCache env a) = map_of a"
    using mapcache.fill [OF mapClear_lookup(1), of a] by (auto simp: MapCache_fold mapClear_lookup(2))
qed

lemma stackSet_lookup:
  assumes "stack_ok env s" and "storable v"
  shows "stack_ok env (stackSet env s k v)
    \<and> stack_lookup env (stackSet env s k v) = (stack_lookup env s)(k \<mapsto> v)"
  using assms(1)
proof (cases rule: stack_ok_cases)
  case (1 a)
  have "HASH_UNDEFINED \<notin> snd ` set (assocSet a k v)"
    using assocSet_lookup(3) [OF 1(2), of k v] 1(3) assms(2) by (auto simp: storable_def)
  moreover have "map_ok env (mapSet env (MapCache env a) k v)"
    "map_lookup env (mapSet env (MapCache env a) k v) = (map_of a)(k \<mapsto> v)"
    using mapSet_lookup [OF MapCache_lookup(1) [OF 1(2,3)] assms(2)] MapCache_lookup(2) [OF 1(2,3)]
    by simp_all
  ultimately show ?thesis using assocSet_lookup [OF 1(2), of k v]
    by (simp add: 1(1) stackSet_def stack_ok_def stack_lookup_def)
next
  case (2 m)
  then show ?thesis using mapSet_lookup [OF 2(2) assms(2)]
    by (simp add: stackSet_def stack_ok_def stack_lookup_def)
qed

lemma stackDelete_lookup:
  assumes "stack_ok env s"
  shows "\<exists>s'. stackDelete env s k = Inr (stack_lookup env s k \<noteq> None, s') \<and> stack_ok env s'
    \<and> stack_lookup env s' = (stack_lookup env s)(k := None)"
  using assms
proof (cases rule: stack_ok_cases)
  case (1 a)
  obtain a' where "assocDelete a k = (map_of a k \<noteq> None, a')" "assoc_ok a'"
    "map_of a' = (map_of a)(k := None)" "snd ` set a' \<subseteq> snd ` set a"
    by (rule assocDelete_lookup [OF 1(2), of k])
  with 1 show ?thesis by (auto simp: stackDelete_def stack_lookup_def stack_ok_def)
next
  case (2 m)
  with mapDelete_lookup [OF 2(2), of k] show ?thesis
    by (auto simp: stackDelete_def stack_lookup_def stack_ok_def)
qed

interpretation stack: store "stack_ok env" "stack_lookup env" storable stackClear
  "stackGet env" "stackHas env" "stackSet env" "stackDelete env" for env
proof
  show "stack_ok env stackClear" "stack_lookup env stackClear = Map.empty"
    by (simp_all add: stackClear_def stack_ok_def stack_lookup_def assoc_ok_def)
next
  fix s k assume "stack_ok env s"
  then show "stackGet env s k = Inr (case stack_lookup env s k of Some v \<Rightarrow> v | None \<Rightarrow> Undefined)"
    and "stackHas env s k = Inr (stack_lookup env s k \<noteq> None)"
    by (auto elim!: stack_ok_cases simp: stackGet_def stackHas_def stack_lookup_def assocGet_lookup
        assocHas_lookup mapGet_lookup mapHas_lookup)
qed (use stackSet_lookup stackDelete_lookup in auto)

text \<open>
  C21: A \<open>Stack\<close> refines a finite map. Whatever the host provides, any sequence of \<open>get\<close>, \<open>has\<close>,
  \<open>set\<close> and \<open>delete\<close> on a new stack answers what the map answers, also when the stack changes
  from an array to a \<open>MapCache\<close> in between, and never raises; the only value that cannot be
  stored is the marker string \<open>__lodash_hash_undefined__\<close>.
\<close>

theorem stack_refines_map:
  assumes "\<forall>c\<in>set ops. \<forall>v\<in>stores c. v \<noteq> HASH_UNDEFINED"
  shows "run (perform (stackGet env) (stackHas env) (stackSet env) (stackDelete env)) ops stackClear
    = Inr (map_run ops Map.empty)"
  using stack.run_empty [of ops env] assms by (simp add: storable_def)

theorem stack_refines_map_witness:
  "run (perform (stackGet legacy_env) (stackHas legacy_env) (stackSet legacy_env) (stackDelete legacy_env))
     [SetOp (Number 1) Undefined, HasOp (Number 1), SetOp (String ''1'') Null, GetOp (String ''1''),
      DeleteOp (Number 1), HasOp (Number 1), SetOp (Ref 4) (Number 2), GetOp (Ref 4)] stackClear
   = Inr [Undefined, Boolean True, Undefined, Null, Boolean True, Boolean False, Undefined, Number 2]"
  using stack_refines_map [of "[SetOp (Number 1) Undefined, HasOp (Number 1),
      SetOp (String ''1'') Null, GetOp (String ''1''), DeleteOp (Number 1), HasOp (Number 1),
      SetOp (Ref 4) (Number 2), GetOp (Ref 4)]" legacy_env]
  by (simp add: HASH_UNDEFINED_def)

text \<open>
  C28: as long as the string \<open>__lodash_hash_undefined__\<close>, with which the hash marks a stored
  \<open>undefined\<close>, is not itself stored as a value, a \<open>MapCache\<close> gives the same answers in every host:
  with or without \<open>Object.create\<close>, with the \<open>Map\<close> of the language or with an association array, and
  whatever \<open>Object.prototype\<close> holds. (For that one value the hosts differ, see \<open>marker_hosts_differ\<close>.)
  Keys are told apart by \<open>SameValueZero\<close> although numbers, booleans and strings are stored under
  property names.
\<close>

theorem mapcache_host_independent:
  assumes "\<forall>c\<in>set ops. \<forall>v\<in>stores c. v \<noteq> HASH_UNDEFINED"
  shows "run (perform (\<lambda>c k. Inr (mapGet env c k)) (\<lambda>c k. Inr (mapHas env c k)) (mapSet env)
        (\<lambda>c k. Inr (mapDelete env c k))) ops mapClear
    = run (perform (\<lambda>c k. Inr (mapGet env' c k)) (\<lambda>c k. Inr (mapHas env' c k)) (mapSet env')
        (\<lambda>c k. Inr (mapDelete env' c k))) ops mapClear"
  using mapcache.run_empty [of ops env] mapcache.run_empty [of ops env'] assms
  by (simp add: storable_def)

theorem mapcache_host_independent_witness:
  "run (perform (\<lambda>c k. Inr (mapGet legacy_env c k)) (\<lambda>c k. Inr (mapHas legacy_env c k))
        (mapSet legacy_env) (\<lambda>c k. Inr (mapDelete legacy_env c k)))
      [HasOp (String ''toString''), SetOp NaNv Undefined, HasOp NaNv, GetOp (String ''NaN'')] mapClear
    = run (perform (\<lambda>c k. Inr (mapGet modern_env c k)) (\<lambda>c k. Inr (mapHas modern_env c k))
        (mapSet modern_env) (\<lambda>c k. Inr (mapDelete modern_env c k)))
      [HasOp (String ''toString''), SetOp NaNv Undefined, HasOp NaNv, GetOp (String ''NaN'')] mapClear"
  by (rule mapcache_host_independent) (simp add: HASH_UNDEFINED_def)

text \<open>The marker stored as a value comes back as \<open>undefined\<close> where \<open>Object.create\<close> is native, and
  as itself elsewhere.\<close>

lemma marker_hosts_differ:
  "mapGet modern_env (mapSet modern_env mapClear (Number 1) HASH_UNDEFINED) (Number 1) = Undefined"
  "mapGet legacy_env (mapSet legacy_env mapClear (Number 1) HASH_UNDEFINED) (Number 1) = HASH_UNDEFINED"
  by (simp_all add: mapGet_def mapSet_def mapClear_def hashGet_def hashSet_def isKeyable_def modern_env_def
      legacy_env_def HASH_UNDEFINED_def strict_eq_def Hash_def hash_at_def Let_def)

section \<open>Sets of values\<close>

text \<open>The contract of a set of values, and what follows for a set filled from an array.\<close>

locale value_set =
  fixes wf :: "'s \<Rightarrow> bool"
    and member :: "'s \<Rightarrow> jsval \<Rightarrow> bool"
    and add :: "'s \<Rightarrow> jsval \<Rightarrow> 's"
    and empty :: 's
  assumes member_empty: "wf empty \<Longrightarrow> \<not> member empty v"
    and wf_add: "wf s \<Longrightarrow> wf (add s v)"
    and member_add: "wf s \<Longrightarrow> member (add s v) w \<longleftrightarrow> w = v \<or> member s w"
begin

lemma wf_fold: "wf s \<Longrightarrow> wf (fold (\<lambda>v s. add s v) vs s)"
  by (induction vs arbitrary: s) (auto simp: wf_add)

lemma member_fold: "wf s \<Longrightarrow> member (fold (\<lambda>v s. add s v) vs s) w \<longleftrightarrow> w \<in> set vs \<or> member s w"
  by (induction vs arbitrary: s) (auto simp: member_add wf_add)

lemma member_of: "wf empty \<Longrightarrow> member (fold (\<lambda>v s. add s v) vs empty) w \<longleftrightarrow> w \<in> set vs"
  by (simp add: member_fold member_empty)

end

lemma SetCache_fold: "SetCache env values = fold (\<lambda>v c. cachePush env c v) values (MapCache env [])"
  unfolding SetCache_def by (rule fold_nth [of "\<lambda>v c. cachePush env c v"])

lemma hash_at_upd:
  "hash_at env (h(p \<mapsto> v)) w = (if toPropertyKey w = p then v else hash_at env h w)"
  by (simp add: hash_at_def)

lemma hash_at_Hash: "env_ok env \<Longrightarrow> hash_at env Hash w \<noteq> HASH_UNDEFINED"
  by (auto simp: hash_at_def Hash_def env_ok_def ranI HASH_UNDEFINED_def split: option.splits)

text \<open>The invariant of the entries of a set: their keys are distinct.\<close>

lemma cacheHas_push:
  assumes "assoc_ok (map_data c)"
  shows "cacheHas env (cachePush env c v) w \<longleftrightarrow> w = v \<or> cacheHas env c w"
    and "assoc_ok (map_data (cachePush env c v))"
proof -
  have m: "map_of (map_data (mapSet env c v HASH_UNDEFINED)) = (map_of (map_data c))(v \<mapsto> HASH_UNDEFINED)"
    "assoc_ok (map_data (mapSet env c v HASH_UNDEFINED))" if "\<not> isKeyable v"
    using that assms by (simp_all add: mapSet_def es_set_lookup assocSet_lookup)
  then show ok: "assoc_ok (map_data (cachePush env c v))" using assms by (simp add: cachePush_def)
  have has: "mapHas env d w \<longleftrightarrow> map_of (map_data d) w \<noteq> None" if "\<not> isKeyable w" "assoc_ok (map_data d)" for d
    using that by (simp add: mapHas_def es_has_def assocHas_lookup)
  show "cacheHas env (cachePush env c v) w \<longleftrightarrow> w = v \<or> cacheHas env c w"
  proof (cases "isKeyable w")
    case True
    have "typeof w = TString \<longleftrightarrow> typeof v = TString \<Longrightarrow> toPropertyKey w = toPropertyKey v \<Longrightarrow> isKeyable v \<Longrightarrow> w = v"
      using keyable_inject True by blast
    then show ?thesis using True
      by (auto simp: cacheHas_def cachePush_def hash_at_upd Let_def mapSet_def strict_eq_def HASH_UNDEFINED_def)
  next
    case False
    with has [OF False ok] has [OF False assms] m show ?thesis
      by (cases "isKeyable v") (auto simp: cacheHas_def cachePush_def)
  qed
qed

definition set_ok :: "js_env \<Rightarrow> map_cache \<Rightarrow> bool" where
  "set_ok env c \<longleftrightarrow> env_ok env \<and> assoc_ok (map_data c)"

lemma MapCache_empty: "MapCache env [] = mapClear"
  by (simp add: MapCache_def)

lemma set_ok_empty: "env_ok env \<Longrightarrow> set_ok env (MapCache env [])"
  by (simp add: set_ok_def MapCache_empty mapClear_def assoc_ok_def)

interpretation setcache: value_set "set_ok env" "cacheHas env" "cachePush env" "MapCache env []" for env
proof
  fix v assume "set_ok env (MapCache env [])"
  then have "env_ok env" by (simp add: set_ok_def)
  then show "\<not> cacheHas env (MapCache env []) v"
    using hash_at_Hash [of env v]
    by (simp add: cacheHas_def MapCache_empty mapClear_def strict_eq_def mapHas_def es_has_def
        assocHas_def assocIndexOf_def)
qed (simp_all add: set_ok_def cacheHas_push)

text \<open>
  \<open>SetCache\<close> is the set of its values: \<open>cacheHas\<close> on a cache made from an array tells exactly
  the values of the array, \<open>NaN\<close>, \<open>undefined\<close>, the string \<open>__proto__\<close> and the names of inherited
  properties included, in every host.
\<close>

lemma setcache_members:
  assumes "env_ok env"
  shows "cacheHas env (SetCache env values) v \<longleftrightarrow> v \<in> set values"
  unfolding SetCache_fold by (rule setcache.member_of [OF set_ok_empty [OF assms]])

end
