(* ===== verification/Lodash_Array.thy ===== *)
theory Lodash_Array
  imports Js_Value
begin

text \<open>
  The array functions of lodash that iterate, search and cut: the specialised loops
  (\<open>arrayEach\<close> to \<open>arraySome\<close>), the searches (\<open>baseFindIndex\<close>, \<open>baseIndexOf\<close>, \<open>indexOfNaN\<close>),
  \<open>baseSlice\<close>, \<open>baseWhile\<close>, \<open>baseFill\<close> and the public functions built on them. A callback is a
  function of the value and the index that neither changes the array nor throws; where only its
  truth is used it is Boolean-valued. The first argument of a public function, which the code
  tests with \<open>array ? array.length : 0\<close>, is an optional array, and a numeric argument is a
  \<^typ>\<open>jsnum\<close>, so that leaving it out is \<open>undefined\<close>.
\<close>

section \<open>Arrays\<close>

type_synonym array = "jsval list"

text \<open>Writing \<open>array[i] = v\<close>: past the end the array grows, with holes that read as the first
  argument.\<close>

definition arr_put :: "'a \<Rightarrow> 'a list \<Rightarrow> nat \<Rightarrow> 'a \<Rightarrow> 'a list" where
  "arr_put hole xs i v =
     (if i < length xs then xs[i := v] else xs @ replicate (i - length xs) hole @ [v])"

abbreviation arr_set :: "array \<Rightarrow> nat \<Rightarrow> jsval \<Rightarrow> array" where
  "arr_set \<equiv> arr_put Undefined"

text \<open>\<open>Array(n)\<close>, and reading \<open>array[i]\<close>.\<close>

abbreviation Array :: "nat \<Rightarrow> array" where
  "Array n \<equiv> replicate n Undefined"

definition arr_at :: "array \<Rightarrow> int \<Rightarrow> jsval" where
  "arr_at xs i = (if 0 \<le> i \<and> i < int (length xs) then xs ! nat i else Undefined)"

definition uint32 :: "int \<Rightarrow> int" where
  "uint32 x = x mod 2 ^ 32"

text \<open>The value of a numeric argument after \<open>toInteger\<close>.\<close>

fun toInteger :: "jsnum \<Rightarrow> int" where
  "toInteger Undef = 0"
| "toInteger NaN = 0"
| "toInteger (Num i) = i"

lemma arr_put_end [simp]: "arr_put h xs (length xs) v = xs @ [v]"
  by (simp add: arr_put_def)

lemma arr_put_end': "i = length xs \<Longrightarrow> arr_put h xs i v = xs @ [v]"
  by simp

lemma length_arr_put: "length (arr_put h xs i v) = max (length xs) (Suc i)"
  by (simp add: arr_put_def)

text \<open>A loop that writes the indices of a new array in order.\<close>

lemma fill_prefix:
  "k \<le> n \<Longrightarrow> fold (\<lambda>i r. arr_put h r i (f i)) [0..<k] (replicate n h) = map f [0..<k] @ replicate (n - k) h"
proof (induction k)
  case (Suc k)
  then have "replicate (n - k) h = h # replicate (n - Suc k) h"
    by (metis Suc_diff_Suc Suc_le_lessD replicate_Suc)
  with Suc show ?case by (simp add: arr_put_def list_update_append)
qed simp

lemma fill_new: "fold (\<lambda>i r. arr_put h r i (f i)) [0..<n] (replicate n h) = map f [0..<n]"
  using fill_prefix [of n n h f] by simp

text \<open>A loop that appends.\<close>

lemma fold_append: "fold (\<lambda>x r. if p x then r @ [f x] else r) xs r = r @ map f (filter p xs)"
  by (induction xs arbitrary: r) auto

section \<open>Loops with a callback\<close>

definition arrayAggregator :: "array \<Rightarrow> ('acc \<Rightarrow> jsval \<Rightarrow> 'k \<Rightarrow> 'acc) \<Rightarrow> (jsval \<Rightarrow> 'k) \<Rightarrow> 'acc \<Rightarrow> 'acc"
where
  "arrayAggregator array setter iteratee accumulator =
     fold (\<lambda>index acc. let value = array ! index in setter acc value (iteratee value))
       [0..<length array] accumulator"

definition arrayConcat :: "array \<Rightarrow> array \<Rightarrow> array" where
  "arrayConcat array other =
     (let result = Array (length array + length other);
          result = fold (\<lambda>index r. arr_set r index (array ! index)) [0..<length array] result;
          (index, result) =
            fold (\<lambda>othIndex (index, r). (index + 1, arr_set r index (other ! othIndex)))
              [0..<length other] (length array, result)
      in result)"

text \<open>The callbacks of \<open>arrayEach\<close> work by their effect, a change of the state \<open>'s\<close>.\<close>

definition arrayEach :: "array \<Rightarrow> (jsval \<Rightarrow> nat \<Rightarrow> 's \<Rightarrow> jsval \<times> 's) \<Rightarrow> 's \<Rightarrow> 's" where
  "arrayEach array iteratee s =
     (case foldR (\<lambda>index s.
          let (r, s') = iteratee (array ! index) index s
          in if strict_eq r (Boolean False) then Inl s' else Inr s') [0..<length array] s of
        Inl s' \<Rightarrow> s' | Inr s' \<Rightarrow> s')"

definition arrayEachRight :: "array \<Rightarrow> (jsval \<Rightarrow> nat \<Rightarrow> 's \<Rightarrow> jsval \<times> 's) \<Rightarrow> 's \<Rightarrow> 's" where
  "arrayEachRight array iteratee s =
     (case foldR (\<lambda>index s.
          let (r, s') = iteratee (array ! index) index s
          in if strict_eq r (Boolean False) then Inl s' else Inr s') (rev [0..<length array]) s of
        Inl s' \<Rightarrow> s' | Inr s' \<Rightarrow> s')"

definition arrayEvery :: "array \<Rightarrow> (jsval \<Rightarrow> nat \<Rightarrow> bool) \<Rightarrow> bool" where
  "arrayEvery array predicate =
     (case foldR (\<lambda>index _. if \<not> predicate (array ! index) index then Inl False else Inr ())
         [0..<length array] () of
        Inl r \<Rightarrow> r | Inr _ \<Rightarrow> True)"

definition arrayFilter :: "array \<Rightarrow> (jsval \<Rightarrow> nat \<Rightarrow> bool) \<Rightarrow> array" where
  "arrayFilter array predicate =
     snd (fold (\<lambda>index (resIndex, result).
         let value = array ! index in
         if predicate value index then (resIndex + 1, arr_set result resIndex value)
         else (resIndex, result)) [0..<length array] (0, []))"

definition arrayIncludesWith :: "array \<Rightarrow> jsval \<Rightarrow> (jsval \<Rightarrow> jsval \<Rightarrow> bool) \<Rightarrow> bool" where
  "arrayIncludesWith array value comparator =
     (case foldR (\<lambda>index _. if comparator value (array ! index) then Inl True else Inr ())
         [0..<length array] () of
        Inl r \<Rightarrow> r | Inr _ \<Rightarrow> False)"

definition arrayMap :: "array \<Rightarrow> (jsval \<Rightarrow> nat \<Rightarrow> jsval) \<Rightarrow> array" where
  "arrayMap array iteratee =
     fold (\<lambda>index r. arr_set r index (iteratee (array ! index) index)) [0..<length array]
       (Array (length array))"

definition arrayPush :: "array \<Rightarrow> array \<Rightarrow> array" where
  "arrayPush array values =
     (let offset = length array in
      fold (\<lambda>index a. arr_set a (offset + index) (values ! index)) [0..<length values] array)"

definition arrayReduce :: "array \<Rightarrow> (jsval \<Rightarrow> jsval \<Rightarrow> nat \<Rightarrow> jsval) \<Rightarrow> jsval \<Rightarrow> bool \<Rightarrow> jsval" where
  "arrayReduce array iteratee accumulator initAccum =
     (let (first, accumulator) =
        (if initAccum \<and> length array \<noteq> 0 then (1, array ! 0) else (0, accumulator))
      in fold (\<lambda>index acc. iteratee acc (array ! index) index) [first..<length array] accumulator)"

definition arrayReduceRight :: "array \<Rightarrow> (jsval \<Rightarrow> jsval \<Rightarrow> nat \<Rightarrow> jsval) \<Rightarrow> jsval \<Rightarrow> bool \<Rightarrow> jsval"
where
  "arrayReduceRight array iteratee accumulator initAccum =
     (let (n, accumulator) =
        (if initAccum \<and> length array \<noteq> 0 then (length array - 1, array ! (length array - 1))
         else (length array, accumulator))
      in fold (\<lambda>index acc. iteratee acc (array ! index) index) (rev [0..<n]) accumulator)"

definition arraySome :: "array \<Rightarrow> (jsval \<Rightarrow> nat \<Rightarrow> bool) \<Rightarrow> bool" where
  "arraySome array predicate =
     (case foldR (\<lambda>index _. if predicate (array ! index) index then Inl True else Inr ())
         [0..<length array] () of
        Inl r \<Rightarrow> r | Inr _ \<Rightarrow> False)"

text \<open>\<open>var computed\<close> and \<open>var result\<close> start as \<open>undefined\<close>.\<close>

definition baseExtremum :: "array \<Rightarrow> (jsval \<Rightarrow> jsval) \<Rightarrow> (jsval \<Rightarrow> jsval \<Rightarrow> bool) \<Rightarrow> jsval" where
  "baseExtremum array iteratee comparator =
     snd (fold (\<lambda>index (computed, result).
         let value = array ! index; current = iteratee value in
         if \<not> nullish current
            \<and> (if strict_eq computed Undefined then strict_eq current current
               else comparator current computed)
         then (current, value) else (computed, result))
       [0..<length array] (Undefined, Undefined))"

text \<open>\<open>baseFind\<close> and \<open>baseReduce\<close> take the loop as an argument; their closures write a local
  variable, which is the state.\<close>

definition baseFind :: "array \<Rightarrow> (jsval \<Rightarrow> nat \<Rightarrow> bool) \<Rightarrow>
    (array \<Rightarrow> (jsval \<Rightarrow> nat \<Rightarrow> jsval \<Rightarrow> jsval \<times> jsval) \<Rightarrow> jsval \<Rightarrow> jsval) \<Rightarrow> bool \<Rightarrow> jsval" where
  "baseFind collection predicate eachFunc retKey =
     eachFunc collection
       (\<lambda>value key result.
          if predicate value key
          then (Boolean False, if retKey then Number (int key) else value)
          else (Undefined, result)) Undefined"

definition baseReduce :: "array \<Rightarrow> (jsval \<Rightarrow> jsval \<Rightarrow> nat \<Rightarrow> jsval) \<Rightarrow> jsval \<Rightarrow> bool \<Rightarrow>
    (array \<Rightarrow> (jsval \<Rightarrow> nat \<Rightarrow> jsval \<times> bool \<Rightarrow> jsval \<times> jsval \<times> bool) \<Rightarrow> jsval \<times> bool \<Rightarrow> jsval \<times> bool) \<Rightarrow>
    jsval" where
  "baseReduce collection iteratee accumulator initAccum eachFunc =
     fst (eachFunc collection
       (\<lambda>value index (accumulator, initAccum).
          (Undefined,
           if initAccum then (value, False) else (iteratee accumulator value index, initAccum)))
       (accumulator, initAccum))"

definition baseTimes :: "nat \<Rightarrow> (nat \<Rightarrow> jsval) \<Rightarrow> array" where
  "baseTimes n iteratee = fold (\<lambda>index r. arr_set r index (iteratee index)) [0..<n] (Array n)"

definition copyArray :: "array \<Rightarrow> array option \<Rightarrow> array" where
  "copyArray source array =
     (let array = (case array of None \<Rightarrow> Array (length source) | Some a \<Rightarrow> a) in
      fold (\<lambda>index a. arr_set a index (source ! index)) [0..<length source] array)"

section \<open>Searching\<close>

definition baseFindIndex :: "array \<Rightarrow> (jsval \<Rightarrow> nat \<Rightarrow> bool) \<Rightarrow> bool \<Rightarrow> int" where
  "baseFindIndex array predicate fromRight =
     search (\<lambda>index. predicate (array ! index) index)
       (if fromRight then rev [0..<length array] else [0..<length array])"

text \<open>With \<open>fromRight\<close> the search starts below \<open>fromIndex\<close>, which the callers keep within the
  array; the read of an index at or past the end gives \<open>undefined\<close>.\<close>

definition indexOfNaN :: "array \<Rightarrow> nat \<Rightarrow> bool \<Rightarrow> int" where
  "indexOfNaN array fromIndex fromRight =
     search (\<lambda>index. let other = arr_at array (int index) in \<not> strict_eq other other)
       (if fromRight then rev [0..<fromIndex] else [fromIndex..<length array])"

definition baseIndexOf :: "array \<Rightarrow> jsval \<Rightarrow> nat \<Rightarrow> int" where
  "baseIndexOf array value fromIndex =
     (if \<not> strict_eq value value then indexOfNaN array fromIndex False
      else search (\<lambda>index. strict_eq (array ! index) value) [fromIndex..<length array])"

definition baseIndexOfWith :: "array \<Rightarrow> jsval \<Rightarrow> nat \<Rightarrow> (jsval \<Rightarrow> jsval \<Rightarrow> bool) \<Rightarrow> int" where
  "baseIndexOfWith array value fromIndex comparator =
     search (\<lambda>index. comparator (array ! index) value) [fromIndex..<length array]"

definition arrayIncludes :: "array \<Rightarrow> jsval \<Rightarrow> bool" where
  "arrayIncludes array value \<longleftrightarrow> length array \<noteq> 0 \<and> baseIndexOf array value 0 > - 1"

definition isIndex :: "jsnum \<Rightarrow> int option \<Rightarrow> bool" where
  "isIndex value length' =
     (let length' = (case length' of None \<Rightarrow> 9007199254740991 | Some n \<Rightarrow> n) in
      case value of Num i \<Rightarrow> i > - 1 \<and> i < length' | _ \<Rightarrow> False)"

definition baseNth :: "array \<Rightarrow> int \<Rightarrow> jsval" where
  "baseNth array n =
     (if length array = 0 then Undefined
      else
        let n = n + (if n < 0 then int (length array) else 0) in
        if isIndex (Num n) (Some (int (length array))) then array ! nat n else Undefined)"

section \<open>Cutting\<close>

definition baseSlice :: "array \<Rightarrow> int \<Rightarrow> int \<Rightarrow> array" where
  "baseSlice array start end' =
     (let len = int (length array);
          start = (if start < 0 then (if - start > len then 0 else len + start) else start);
          end' = (if end' > len then len else end');
          end' = (if end' < 0 then end' + len else end');
          count = nat (if start > end' then 0 else uint32 (end' - start));
          start = uint32 start
      in fold (\<lambda>index r. arr_set r index (arr_at array (int index + start))) [0..<count] (Array count))"

text \<open>The loop of \<open>baseWhile\<close> stops at the first index whose value fails the predicate, or at
  the end (from the right: at \<open>-1\<close>).\<close>

definition baseWhile :: "array \<Rightarrow> (jsval \<Rightarrow> nat \<Rightarrow> bool) \<Rightarrow> bool \<Rightarrow> bool \<Rightarrow> array" where
  "baseWhile array predicate isDrop fromRight =
     (let len = int (length array);
          found = search (\<lambda>index. \<not> predicate (array ! index) index)
            (if fromRight then rev [0..<length array] else [0..<length array]);
          index = (if found = - 1 \<and> \<not> fromRight then len else found)
      in if isDrop
         then baseSlice array (if fromRight then 0 else index) (if fromRight then index + 1 else len)
         else baseSlice array (if fromRight then index + 1 else 0) (if fromRight then len else index))"

definition baseClamp :: "jsnum \<Rightarrow> jsnum \<Rightarrow> jsnum \<Rightarrow> jsnum" where
  "baseClamp number lower upper' =
     (if number \<noteq> NaN then
        let number = (if upper' \<noteq> Undef then (if jge upper' number then number else upper') else number)
        in if lower \<noteq> Undef then (if jge number lower then number else lower) else number
      else number)"

definition MAX_ARRAY_LENGTH :: int where
  "MAX_ARRAY_LENGTH = 4294967295"

definition toLength :: "int \<Rightarrow> int" where
  "toLength value =
     (if value \<noteq> 0 then toInteger (baseClamp (Num value) (Num 0) (Num MAX_ARRAY_LENGTH)) else 0)"

definition baseFill :: "array \<Rightarrow> jsval \<Rightarrow> jsnum \<Rightarrow> jsnum \<Rightarrow> array" where
  "baseFill array value start end' =
     (let len = int (length array);
          start = toInteger start;
          start = (if start < 0 then (if - start > len then 0 else len + start) else start);
          end' = (if end' = Undef \<or> (case end' of Num e \<Rightarrow> e > len | _ \<Rightarrow> False) then len
                  else toInteger end');
          end' = (if end' < 0 then end' + len else end');
          end' = (if start > end' then 0 else toLength end')
      in fold (\<lambda>i a. arr_set a i value) [nat start..<nat end'] array)"

section \<open>What the loops compute\<close>

named_theorems lodash_fun \<open>the loops of lodash as functions on lists\<close>

lemma arrayAggregator_fold [lodash_fun]:
  "arrayAggregator array setter iteratee acc = fold (\<lambda>v acc. setter acc v (iteratee v)) array acc"
  unfolding arrayAggregator_def Let_def by (rule fold_nth [of "\<lambda>v acc. setter acc v (iteratee v)"])

lemma push_loop:
  "fold (\<lambda>i a. arr_put h a (length xs + i) (f i)) [0..<n] xs = xs @ map f [0..<n]"
  by (induction n) (auto simp: arr_put_def)

lemma arrayPush_append [lodash_fun]: "arrayPush array values = array @ values"
  using push_loop [of Undefined array "(!) values" "length values"]
  by (simp add: arrayPush_def map_nth)

lemma concat_loop:
  assumes "k \<le> n"
  shows "fold (\<lambda>j (i, r). (i + 1, arr_put h r i (f j))) [0..<k] (length xs, xs @ replicate n h)
    = (length xs + k, xs @ map f [0..<k] @ replicate (n - k) h)"
  using assms
proof (induction k)
  case (Suc k)
  then have "replicate (n - k) h = h # replicate (n - Suc k) h"
    by (metis Suc_diff_Suc Suc_le_lessD replicate_Suc)
  with Suc show ?case by (simp add: arr_put_def list_update_append)
qed simp

lemma arrayConcat_append [lodash_fun]: "arrayConcat array other = array @ other"
  using fill_prefix [of "length array" "length array + length other" Undefined "(!) array"]
    concat_loop [of "length other" "length other" Undefined "(!) other" array]
  by (simp add: arrayConcat_def map_nth)

lemma arrayMap_map: "arrayMap array iteratee = map (\<lambda>i. iteratee (array ! i) i) [0..<length array]"
  by (simp add: arrayMap_def fill_new)

lemma arrayMap_map' [lodash_fun]: "arrayMap array (\<lambda>v _. f v) = map f array"
  unfolding arrayMap_map by (rule nth_equalityI) simp_all

lemma baseTimes_map [lodash_fun]: "baseTimes n iteratee = map iteratee [0..<n]"
  by (simp add: baseTimes_def fill_new)

lemma copyArray_new [lodash_fun]: "copyArray source None = source"
  by (simp add: copyArray_def fill_new map_nth)

lemma foldR_exit:
  "foldR (\<lambda>i (_::unit). if p i then Inl r else Inr ()) is () = (if \<exists>i\<in>set is. p i then Inl r else Inr ())"
  by (induction "is") auto

lemma arrayEvery_iff [lodash_fun]: "arrayEvery array p \<longleftrightarrow> (\<forall>i<length array. p (array ! i) i)"
  unfolding arrayEvery_def foldR_exit by auto

lemma arraySome_iff [lodash_fun]: "arraySome array p \<longleftrightarrow> (\<exists>i<length array. p (array ! i) i)"
  unfolding arraySome_def foldR_exit by auto

lemma arrayIncludesWith_iff [lodash_fun]:
  "arrayIncludesWith array value comparator \<longleftrightarrow> (\<exists>v\<in>set array. comparator value v)"
proof -
  have "(\<exists>i\<in>set [0..<length array]. comparator value (array ! i)) \<longleftrightarrow> (\<exists>v\<in>set array. comparator value v)"
    by (metis atLeast0LessThan in_set_conv_nth lessThan_iff set_upt)
  then show ?thesis unfolding arrayIncludesWith_def foldR_exit by auto
qed

lemma filter_loop:
  "fold (\<lambda>i (k, r). if p i then (k + 1, arr_put h r k (f i)) else (k, r)) is (length r, r)
    = (length r + length (filter p is), r @ map f (filter p is))"
proof (induction "is" arbitrary: r)
  case (Cons i "is")
  then show ?case using Cons.IH [of "r @ [f i]"] by simp
qed simp

lemma arrayFilter_filter:
  "arrayFilter array p = map ((!) array) (filter (\<lambda>i. p (array ! i) i) [0..<length array])"
  using filter_loop [of "\<lambda>i. p (array ! i) i" Undefined "(!) array" "[0..<length array]" "[]"]
  by (simp add: arrayFilter_def Let_def case_prod_beta)

lemma arrayFilter_filter' [lodash_fun]: "arrayFilter array (\<lambda>v _. p v) = filter p array"
proof -
  have "filter p array = filter p (map ((!) array) [0..<length array])" by (simp add: map_nth)
  then show ?thesis unfolding arrayFilter_filter filter_map by (simp add: comp_def)
qed

lemma arrayReduce_fold [lodash_fun]:
  "arrayReduce array (\<lambda>acc v _. f acc v) acc False = fold (\<lambda>v acc. f acc v) array acc"
  by (simp add: arrayReduce_def fold_nth [of "\<lambda>v acc. f acc v"])

lemma arrayReduce_first:
  "arrayReduce (v # array) (\<lambda>acc v _. f acc v) acc True = fold (\<lambda>v acc. f acc v) array v"
  using fold_nth_tail [of "\<lambda>v acc. f acc v" v array v] by (simp add: arrayReduce_def del: upt.simps)

lemma fold_rev_nth: "fold (\<lambda>i. f (xs ! i)) (rev [0..<length xs]) s = fold f (rev xs) s"
  by (simp add: fold_map_index rev_map [symmetric] map_nth)

text \<open>
  Reducing from the right is reducing the reversed array, with or without an initial value, for
  a callback that does not look at the index.
\<close>

lemma reduceRight_reverses:
  "arrayReduceRight array (\<lambda>acc v _. f acc v) acc initAccum
   = arrayReduce (rev array) (\<lambda>acc v _. f acc v) acc initAccum"
proof (cases "initAccum \<and> array \<noteq> []")
  case True
  then obtain xs v where array: "array = xs @ [v]" by (cases array rule: rev_cases) auto
  have "fold (\<lambda>i acc. f acc ((xs @ [v]) ! i)) (rev [0..<length xs]) v
      = fold (\<lambda>i acc. f acc (xs ! i)) (rev [0..<length xs]) v"
    by (rule fold_cong) (simp_all add: nth_append)
  then show ?thesis using True
    by (simp add: arrayReduceRight_def array fold_rev_nth [of "\<lambda>v acc. f acc v"] arrayReduce_first)
next
  case False
  then have "initAccum = False \<or> array = []" by blast
  then show ?thesis
    by (auto simp: arrayReduceRight_def fold_rev_nth [of "\<lambda>v acc. f acc v"] arrayReduce_fold)
      (simp add: arrayReduce_def)
qed

section \<open>What the searches find\<close>

lemma baseIndexOf_search:
  "baseIndexOf array value fromIndex = search (\<lambda>i. array ! i = value) [fromIndex..<length array]"
  by (cases "value = NaNv")
    (auto simp: baseIndexOf_def indexOfNaN_def strict_eq_def arr_at_def Let_def intro!: search_cong)

lemma arrayIncludes_iff [lodash_fun]: "arrayIncludes array value \<longleftrightarrow> value \<in> set array"
proof -
  have "baseIndexOf array value 0 > - 1 \<longleftrightarrow> \<not> search (\<lambda>i. array ! i = value) [0..<length array] < 0"
    unfolding baseIndexOf_search by linarith
  then show ?thesis by (auto simp: arrayIncludes_def search_neg_iff in_set_conv_nth)
qed

end
