(* ===== verification/Lodash_Slice.thy ===== *)
theory Lodash_Slice
  imports Lodash_Array
begin

text \<open>
  The public array functions of lodash that cut, search and fill an array, as wrappers of the
  internal ones of \<open>Lodash_Array\<close>. The lemmas give \<open>baseSlice\<close> and \<open>baseWhile\<close> as \<^const>\<open>take\<close>,
  \<^const>\<open>drop\<close>, \<^const>\<open>takeWhile\<close> and \<^const>\<open>dropWhile\<close>; arrays are shorter than \<open>2 ^ 32\<close>, as the
  language has it.
\<close>

section \<open>The functions\<close>

definition arr_length :: "array option \<Rightarrow> int" where
  "arr_length array = (case array of Some a \<Rightarrow> int (length a) | None \<Rightarrow> 0)"

text \<open>\<open>(array && array.length) ? f(array) : d\<close>.\<close>

definition when_elements :: "array option \<Rightarrow> (array \<Rightarrow> 'b) \<Rightarrow> 'b \<Rightarrow> 'b" where
  "when_elements array f d = (case array of Some a \<Rightarrow> if length a \<noteq> 0 then f a else d | None \<Rightarrow> d)"

text \<open>
  The loop of \<open>chunk\<close>. The function returns before the loop when \<open>size < 1\<close>; the second conjunct
  makes the recursion total.
\<close>

function chunk_loop :: "array \<Rightarrow> int \<Rightarrow> int \<Rightarrow> nat \<Rightarrow> array list \<Rightarrow> array list" where
  "chunk_loop array size' index resIndex result =
     (if index < int (length array) \<and> \<not> size' < 1
      then chunk_loop array size' (index + size') (resIndex + 1)
             (arr_put [] result resIndex (baseSlice array index (index + size')))
      else result)"
  by pat_completeness auto
termination
  by (relation "measure (\<lambda>(array, size', index, _). nat (int (length array) - index))") auto

declare chunk_loop.simps [simp del]

text \<open>The argument \<open>guard\<close> is what \<open>isIterateeCall\<close> answers when a guard is given.\<close>

definition chunk :: "array option \<Rightarrow> jsnum \<Rightarrow> bool option \<Rightarrow> array list" where
  "chunk array size' guard =
     (let size' = (if (case guard of Some b \<Rightarrow> b | None \<Rightarrow> size' = Undef) then 1
                  else max (toInteger size') 0)
      in case array of
           None \<Rightarrow> []
         | Some a \<Rightarrow>
             if length a = 0 \<or> size' < 1 then []
             else chunk_loop a size' 0 0 (replicate (nat (- ((- int (length a)) div size'))) []))"

definition compact :: "array option \<Rightarrow> array" where
  "compact array = (case array of
     None \<Rightarrow> []
   | Some a \<Rightarrow> snd (fold (\<lambda>index (resIndex, result).
         let value = a ! index in
         if truthy value then (resIndex + 1, arr_set result resIndex value)
         else (resIndex, result)) [0..<length a] (0, [])))"

text \<open>The argument \<open>guard\<close> of these functions is only tested for its truth.\<close>

definition drop_js :: "array option \<Rightarrow> jsnum \<Rightarrow> bool \<Rightarrow> array" where
  "drop_js array n guard =
     when_elements array (\<lambda>a.
       let n = (if guard \<or> n = Undef then 1 else toInteger n)
       in baseSlice a (if n < 0 then 0 else n) (int (length a))) []"

definition dropRight :: "array option \<Rightarrow> jsnum \<Rightarrow> bool \<Rightarrow> array" where
  "dropRight array n guard =
     when_elements array (\<lambda>a.
       let n = (if guard \<or> n = Undef then 1 else toInteger n);
           n = int (length a) - n
       in baseSlice a 0 (if n < 0 then 0 else n)) []"

definition dropRightWhile :: "array option \<Rightarrow> (jsval \<Rightarrow> nat \<Rightarrow> bool) \<Rightarrow> array" where
  "dropRightWhile array predicate = when_elements array (\<lambda>a. baseWhile a predicate True True) []"

definition dropWhile_js :: "array option \<Rightarrow> (jsval \<Rightarrow> nat \<Rightarrow> bool) \<Rightarrow> array" where
  "dropWhile_js array predicate = when_elements array (\<lambda>a. baseWhile a predicate True False) []"

text \<open>\<open>fill\<close> called with numbers for its range; the test for a call as an iteratee needs another
  type of argument.\<close>

definition fill :: "array option \<Rightarrow> jsval \<Rightarrow> jsnum \<Rightarrow> jsnum \<Rightarrow> array" where
  "fill array value start end' = when_elements array (\<lambda>a. baseFill a value start end') []"

definition findIndex :: "array option \<Rightarrow> (jsval \<Rightarrow> nat \<Rightarrow> bool) \<Rightarrow> int" where
  "findIndex array predicate = when_elements array (\<lambda>a. baseFindIndex a predicate False) (- 1)"

definition findLastIndex :: "array option \<Rightarrow> (jsval \<Rightarrow> nat \<Rightarrow> bool) \<Rightarrow> int" where
  "findLastIndex array predicate = when_elements array (\<lambda>a. baseFindIndex a predicate True) (- 1)"

definition head :: "array option \<Rightarrow> jsval" where
  "head array = when_elements array (\<lambda>a. a ! 0) Undefined"

definition indexOf :: "array option \<Rightarrow> jsval \<Rightarrow> jsnum \<Rightarrow> int" where
  "indexOf array value fromIndex =
     when_elements array (\<lambda>a.
       let fromIndex = toInteger fromIndex;
           fromIndex = (if fromIndex < 0 then max (int (length a) + fromIndex) 0 else fromIndex)
       in baseIndexOf a value (nat fromIndex)) (- 1)"

definition initial :: "array option \<Rightarrow> array" where
  "initial array = dropRight array (Num 1) False"

definition last_js :: "array option \<Rightarrow> jsval" where
  "last_js array = when_elements array (\<lambda>a. a ! (length a - 1)) Undefined"

definition lastIndexOf :: "array option \<Rightarrow> jsval \<Rightarrow> jsnum \<Rightarrow> int" where
  "lastIndexOf array value fromIndex =
     when_elements array (\<lambda>a.
       let len = int (length a);
           index = (if fromIndex \<noteq> Undef then
               let index = toInteger fromIndex
               in (if index < 0 then max (len + index) 0 else min index (len - 1)) + 1
             else len)
       in if \<not> strict_eq value value then indexOfNaN a (nat index) True
          else search (\<lambda>i. strict_eq (arr_at a (int i)) value) (rev [0..<nat index])) (- 1)"

definition nth_js :: "array option \<Rightarrow> jsnum \<Rightarrow> jsval" where
  "nth_js array n = when_elements array (\<lambda>a. baseNth a (toInteger n)) Undefined"

text \<open>\<open>slice\<close> called with numbers for its range.\<close>

definition slice_js :: "array option \<Rightarrow> jsnum \<Rightarrow> jsnum \<Rightarrow> array" where
  "slice_js array start end' =
     when_elements array (\<lambda>a.
       let start = (if start = Undef then 0 else toInteger start);
           end' = (if end' = Undef then int (length a) else toInteger end')
       in baseSlice a start end') []"

definition tail :: "array option \<Rightarrow> array" where
  "tail array = drop_js array (Num 1) False"

definition take_js :: "array option \<Rightarrow> jsnum \<Rightarrow> bool \<Rightarrow> array" where
  "take_js array n guard =
     when_elements array (\<lambda>a.
       let n = (if guard \<or> n = Undef then 1 else toInteger n)
       in baseSlice a 0 (if n < 0 then 0 else n)) []"

definition takeRight :: "array option \<Rightarrow> jsnum \<Rightarrow> bool \<Rightarrow> array" where
  "takeRight array n guard =
     when_elements array (\<lambda>a.
       let n = (if guard \<or> n = Undef then 1 else toInteger n);
           n = int (length a) - n
       in baseSlice a (if n < 0 then 0 else n) (int (length a))) []"

definition takeRightWhile :: "array option \<Rightarrow> (jsval \<Rightarrow> nat \<Rightarrow> bool) \<Rightarrow> array" where
  "takeRightWhile array predicate = when_elements array (\<lambda>a. baseWhile a predicate False True) []"

definition takeWhile_js :: "array option \<Rightarrow> (jsval \<Rightarrow> nat \<Rightarrow> bool) \<Rightarrow> array" where
  "takeWhile_js array predicate = when_elements array (\<lambda>a. baseWhile a predicate False False) []"

section \<open>Slices\<close>

definition js_array :: "array \<Rightarrow> bool" where
  "js_array a \<longleftrightarrow> int (length a) \<le> MAX_ARRAY_LENGTH"

lemma uint32_id: "0 \<le> x \<Longrightarrow> x \<le> MAX_ARRAY_LENGTH \<Longrightarrow> uint32 x = x"
  by (simp add: uint32_def MAX_ARRAY_LENGTH_def)

text \<open>Where a slice starts and ends: negative positions count from the end.\<close>

definition norm_start :: "int \<Rightarrow> int \<Rightarrow> int" where
  "norm_start len s = (if s < 0 then max (len + s) 0 else s)"

definition norm_end :: "int \<Rightarrow> int \<Rightarrow> int" where
  "norm_end len e = (if e < 0 then e + len else min e len)"

lemma baseSlice_eq:
  assumes "js_array a"
  shows "baseSlice a s e = take (nat (norm_end (int (length a)) e - norm_start (int (length a)) s))
    (drop (nat (norm_start (int (length a)) s)) a)"
proof -
  let ?len = "int (length a)"
  let ?s = "norm_start ?len s" and ?e = "norm_end ?len e"
  have s: "(if s < 0 then (if - s > ?len then 0 else ?len + s) else s) = ?s"
    by (auto simp: norm_start_def)
  have e: "(let e = (if e > ?len then ?len else e) in if e < 0 then e + ?len else e) = ?e"
    by (auto simp: norm_end_def)
  have bounds: "0 \<le> ?s" "?e \<le> ?len" by (auto simp: norm_start_def norm_end_def)
  have slice: "baseSlice a s e = map (\<lambda>i. arr_at a (int i + uint32 ?s))
      [0..<nat (if ?s > ?e then 0 else uint32 (?e - ?s))]"
    unfolding baseSlice_def Let_def s using e by (simp add: fill_new Let_def)
  show ?thesis
  proof (cases "?s < ?e")
    case True
    then have u: "uint32 ?s = ?s" "uint32 (?e - ?s) = ?e - ?s"
      using bounds assms by (auto intro!: uint32_id simp: js_array_def)
    show ?thesis
    proof (rule nth_equalityI)
      show "length (baseSlice a s e) = length (take (nat (?e - ?s)) (drop (nat ?s) a))"
        using True bounds unfolding slice u by auto
      fix i assume "i < length (baseSlice a s e)"
      then have i: "int i < ?e - ?s" using True unfolding slice u by (auto simp: zless_nat_eq_int_zless)
      then have "nat (int i + ?s) = nat ?s + i" using bounds by linarith
      with i show "baseSlice a s e ! i = take (nat (?e - ?s)) (drop (nat ?s) a) ! i"
        using True bounds unfolding slice u by (auto simp: arr_at_def zless_nat_eq_int_zless)
    qed
  next
    case False
    then show ?thesis unfolding slice by (auto simp: uint32_def)
  qed
qed

lemma baseSlice_nat: "js_array a \<Longrightarrow> 0 \<le> s \<Longrightarrow> 0 \<le> e \<Longrightarrow>
    baseSlice a s e = take (nat (e - s)) (drop (nat s) a)"
  by (auto simp: baseSlice_eq norm_start_def norm_end_def min_def)

text \<open>A position found by the loops is where the prefix or suffix of matching values ends.\<close>

lemma search_takeWhile:
  "search (\<lambda>i. \<not> p (a ! i)) [0..<length a]
    = (if length (takeWhile p a) < length a then int (length (takeWhile p a)) else - 1)"
proof (cases "length (takeWhile p a) < length a")
  case True
  then have "\<not> p (a ! length (takeWhile p a))" by (simp add: nth_length_takeWhile)
  moreover have "\<And>j. j < length (takeWhile p a) \<Longrightarrow> p (a ! j)"
    by (metis nth_mem set_takeWhileD takeWhile_nth)
  ultimately show ?thesis using True search_upt [of "\<lambda>i. \<not> p (a ! i)" 0 "length a"] by simp
next
  case False
  then have "takeWhile p a = a" by (metis length_takeWhile_le nat_less_le takeWhile_eq_take take_all_iff)
  then show ?thesis using False by (auto simp: search_none_iff takeWhile_eq_all_conv)
qed

lemma search_takeWhile_rev:
  "search (\<lambda>i. \<not> p (a ! i)) (rev [0..<length a]) = int (length a) - int (length (takeWhile p (rev a))) - 1"
proof (induction a rule: rev_induct)
  case (snoc v a)
  have "search (\<lambda>i. \<not> p ((a @ [v]) ! i)) (rev [0..<length a]) = search (\<lambda>i. \<not> p (a ! i)) (rev [0..<length a])"
    by (rule search_cong) (simp add: nth_append)
  with snoc show ?case by simp
qed simp

lemma baseWhile_eq:
  assumes "js_array a"
  shows "baseWhile a (\<lambda>v _. p v) True False = dropWhile p a"
    and "baseWhile a (\<lambda>v _. p v) False False = takeWhile p a"
    and "baseWhile a (\<lambda>v _. p v) True True = rev (dropWhile p (rev a))"
    and "baseWhile a (\<lambda>v _. p v) False True = rev (takeWhile p (rev a))"
proof -
  let ?k = "length (takeWhile p a)" and ?r = "length (takeWhile p (rev a))"
  have k: "?k \<le> length a" "?r \<le> length a" using length_takeWhile_le [of p "rev a"] by (auto simp: length_takeWhile_le)
  have suffix: "rev (takeWhile p (rev a)) = drop (length a - ?r) a"
    by (subst takeWhile_eq_take) (simp add: take_rev)
  have left: "(if search (\<lambda>i. \<not> p (a ! i)) [0..<length a] = - 1 then int (length a)
      else search (\<lambda>i. \<not> p (a ! i)) [0..<length a]) = int ?k"
    using k unfolding search_takeWhile by auto
  have right: "search (\<lambda>i. \<not> p (a ! i)) (rev [0..<length a]) + 1 = int (length a - ?r)"
    using k unfolding search_takeWhile_rev by (simp add: of_nat_diff)
  show "baseWhile a (\<lambda>v _. p v) True False = dropWhile p a"
    using k left by (simp add: baseWhile_def baseSlice_nat [OF assms] dropWhile_eq_drop)
  show "baseWhile a (\<lambda>v _. p v) False False = takeWhile p a"
    using k left by (simp add: baseWhile_def baseSlice_nat [OF assms] takeWhile_eq_take [symmetric])
  show "baseWhile a (\<lambda>v _. p v) True True = rev (dropWhile p (rev a))"
    using right by (simp add: baseWhile_def baseSlice_nat [OF assms] dropWhile_eq_drop drop_rev)
  show "baseWhile a (\<lambda>v _. p v) False True = rev (takeWhile p (rev a))"
    unfolding suffix using right k
    by (simp add: baseWhile_def baseSlice_nat [OF assms] del: of_nat_diff)
qed

section \<open>Properties\<close>

text \<open>
  \<open>slice\<close> returns the elements from its start up to its end, where negative positions count
  from the end of the array, a start before the first element is the first, and an end past the
  last is the last.
\<close>

lemma slice_elements:
  assumes "js_array a"
  shows "slice_js (Some a) (Num s) (Num e)
    = take (nat (norm_end (int (length a)) e - norm_start (int (length a)) s))
        (drop (nat (norm_start (int (length a)) s)) a)"
  by (simp add: slice_js_def when_elements_def baseSlice_eq [OF assms])

text \<open>
  \<open>take\<close> and \<open>drop\<close> split an array at any number, negative and too large ones included, and so
  do \<open>dropRight\<close> and \<open>takeRight\<close>; \<open>take\<close> and \<open>takeRight\<close> return as many elements as they are asked
  for, or all.
\<close>

lemma take_drop_split:
  assumes "js_array a"
  shows "take_js (Some a) (Num n) False @ drop_js (Some a) (Num n) False = a
    \<and> dropRight (Some a) (Num n) False @ takeRight (Some a) (Num n) False = a
    \<and> length (take_js (Some a) (Num n) False) = nat (min n (int (length a)))
    \<and> length (takeRight (Some a) (Num n) False) = nat (min n (int (length a)))"
proof -
  let ?k = "nat (int (length a) - n)"
  have "take_js (Some a) (Num n) False = take (nat n) a" "drop_js (Some a) (Num n) False = drop (nat n) a"
    by (auto simp: take_js_def drop_js_def when_elements_def baseSlice_nat [OF assms])
  moreover have "dropRight (Some a) (Num n) False = take ?k a" "takeRight (Some a) (Num n) False = drop ?k a"
    by (auto simp: dropRight_def takeRight_def when_elements_def baseSlice_nat [OF assms])
  ultimately show ?thesis by auto
qed

text \<open>
  \<open>takeWhile\<close>, \<open>dropWhile\<close> and their counterparts from the right compute the longest prefix
  or suffix of elements that satisfy the predicate, and the rest.
\<close>

lemma while_functions:
  assumes "js_array a"
  shows "takeWhile_js (Some a) (\<lambda>v _. p v) = takeWhile p a
    \<and> dropWhile_js (Some a) (\<lambda>v _. p v) = dropWhile p a
    \<and> takeRightWhile (Some a) (\<lambda>v _. p v) = rev (takeWhile p (rev a))
    \<and> dropRightWhile (Some a) (\<lambda>v _. p v) = rev (dropWhile p (rev a))"
  by (simp add: takeWhile_js_def dropWhile_js_def takeRightWhile_def dropRightWhile_def
      when_elements_def baseWhile_eq [OF assms])

text \<open>The chunks of a list.\<close>

function chunks :: "nat \<Rightarrow> 'a list \<Rightarrow> 'a list list" where
  "chunks n xs = (if xs = [] \<or> n = 0 then [] else take n xs # chunks n (drop n xs))"
  by pat_completeness auto
termination
  by (relation "measure (\<lambda>(n, xs). length xs)") auto

declare chunks.simps [simp del]

lemma chunks_Nil [simp]: "chunks n [] = []"
  by (simp add: chunks.simps)

lemma concat_chunks: "0 < n \<Longrightarrow> concat (chunks n xs) = xs"
proof (induction n xs rule: chunks.induct)
  case (1 n xs)
  then show ?case by (subst chunks.simps) auto
qed

lemma length_chunks: "0 < n \<Longrightarrow> int (length (chunks n xs)) = - ((- int (length xs)) div int n)"
proof (induction n xs rule: chunks.induct)
  case (1 n xs)
  show ?case
  proof (cases "xs = []")
    case False
    with 1 have IH: "int (length (chunks n (drop n xs))) = - ((- int (length (drop n xs))) div int n)" by simp
    show ?thesis
    proof (cases "length xs < n")
      case True
      then have "(- int (length xs)) div int n = - 1" using False
        by (intro int_div_pos_eq [where r = "int n - int (length xs)"]) auto
      with True False show ?thesis by (simp add: chunks.simps [of n xs])
    next
      case f: False
      have "(- int (length xs)) div int n = (- int (length (drop n xs)) + (- 1) * int n) div int n"
        using f by (simp add: of_nat_diff)
      also have "\<dots> = (- int (length (drop n xs))) div int n - 1"
        using 1(2) by (subst div_mult_self1) auto
      finally show ?thesis using IH False 1(2) by (simp add: chunks.simps [of n xs])
    qed
  qed simp
qed

lemma butlast_chunks: "0 < n \<Longrightarrow> c \<in> set (butlast (chunks n xs)) \<Longrightarrow> length c = n"
proof (induction n xs rule: chunks.induct)
  case (1 n xs)
  show ?case
  proof (cases "drop n xs = []")
    case True
    then have "chunks n (drop n xs) = []" by simp
    with 1(3) show ?thesis by (subst (asm) chunks.simps) (auto split: if_splits)
  next
    case False
    then have ne: "chunks n (drop n xs) \<noteq> []" "xs \<noteq> []" "length (take n xs) = n"
      using 1(2) by (auto simp: chunks.simps [of n "drop n xs"])
    then have "butlast (chunks n xs) = take n xs # butlast (chunks n (drop n xs))"
      using 1(2) by (simp add: chunks.simps [of n xs])
    with 1 ne show ?thesis by auto
  qed
qed

lemma chunk_sizes: "0 < n \<Longrightarrow> c \<in> set (chunks n xs) \<Longrightarrow> c \<noteq> [] \<and> length c \<le> n"
proof (induction n xs rule: chunks.induct)
  case (1 n xs)
  then show ?case by (subst (asm) (2) chunks.simps) (auto split: if_splits)
qed

text \<open>The loop computes the chunks of what is left of the array and writes them in order.\<close>

lemma chunk_loop_eq:
  assumes "js_array a" "0 < n" "k + length (chunks n (drop i a)) = tot"
    "length pre = k"
  shows "chunk_loop a (int n) (int i) k (pre @ replicate (tot - k) []) = pre @ chunks n (drop i a)"
  using assms(3,4)
proof (induction "length a - i" arbitrary: i k pre rule: less_induct)
  case less
  show ?case
  proof (cases "i < length a")
    case True
    let ?c = "take n (drop i a)" and ?rest = "chunks n (drop (i + n) a)"
    have split: "chunks n (drop i a) = ?c # ?rest"
      using True assms(2) by (subst chunks.simps) (simp add: add.commute)
    then have tot: "Suc k + length ?rest = tot" using less.prems(1) by simp
    then have "replicate (tot - k) ([] :: array) = [] # replicate (tot - Suc k) []"
      by (metis Suc_diff_Suc add_Suc_right less_add_Suc1 add_Suc replicate_Suc)
    then have put: "arr_put [] (pre @ replicate (tot - k) []) k ?c
        = (pre @ [?c]) @ replicate (tot - Suc k) []"
      using less.prems(2) by (simp add: arr_put_def list_update_append)
    have "baseSlice a (int i) (int i + int n) = ?c" by (simp add: baseSlice_nat [OF assms(1)])
    then have "chunk_loop a (int n) (int i) k (pre @ replicate (tot - k) [])
        = chunk_loop a (int n) (int (i + n)) (Suc k) ((pre @ [?c]) @ replicate (tot - Suc k) [])"
      using True assms(2) put by (subst chunk_loop.simps) simp
    also have "\<dots> = (pre @ [?c]) @ ?rest"
      using less.hyps [of "i + n" "Suc k" "pre @ [?c]"] True assms(2) tot less.prems(2) by simp
    finally show ?thesis by (simp add: split)
  next
    case False
    then have "chunks n (drop i a) = []" by simp
    with False less.prems show ?thesis by (subst chunk_loop.simps) simp
  qed
qed

lemma chunk_eq:
  assumes "js_array a" "0 < n"
  shows "chunk (Some a) (Num (int n)) None = chunks n a"
proof -
  have "nat (- ((- int (length a)) div int n)) = length (chunks n a)"
    using length_chunks [OF assms(2), of a] by (metis nat_int)
  then show ?thesis
    using chunk_loop_eq [OF assms, of 0 0 "length (chunks n a)" "[]"] assms(2)
    by (simp add: chunk_def Let_def)
qed

text \<open>
  \<open>chunk\<close> splits an array into groups without losing or moving an element: the groups
  concatenate to the array, every group but the last has the requested size, and the last one is
  not empty and not larger.
\<close>

lemma chunk_groups:
  assumes "js_array a" "0 < n"
  shows "concat (chunk (Some a) (Num (int n)) None) = a
    \<and> (\<forall>c\<in>set (butlast (chunk (Some a) (Num (int n)) None)). length c = n)
    \<and> (\<forall>c\<in>set (chunk (Some a) (Num (int n)) None). c \<noteq> [] \<and> length c \<le> n)"
  using concat_chunks [OF assms(2), of a] butlast_chunks [OF assms(2), of _ a]
    chunk_sizes [OF assms(2), of _ a] by (simp add: chunk_eq [OF assms])

lemma indexOf_search:
  "indexOf (Some a) v (Num from) = search (\<lambda>i. a ! i = v) [nat (norm_start (int (length a)) from)..<length a]"
  by (simp add: indexOf_def when_elements_def baseIndexOf_search norm_start_def)

text \<open>The position \<open>lastIndexOf\<close> starts at.\<close>

definition last_start :: "int \<Rightarrow> int \<Rightarrow> int" where
  "last_start len from = (if from < 0 then max (len + from) 0 else min from (len - 1))"

lemma lastIndexOf_search:
  assumes "a \<noteq> []"
  shows "lastIndexOf (Some a) v (Num from)
    = search (\<lambda>i. a ! i = v) (rev [0..<nat (last_start (int (length a)) from + 1)])"
proof -
  let ?n = "nat (last_start (int (length a)) from + 1)"
  have "0 < length a" using assms by simp
  then have "?n \<le> length a" unfolding last_start_def by (auto simp: nat_le_iff max_def Suc_le_eq)
  then have at: "\<And>i. i < ?n \<Longrightarrow> arr_at a (int i) = a ! i" by (simp add: arr_at_def)
  have "search (\<lambda>i. \<not> strict_eq (arr_at a (int i)) (arr_at a (int i))) (rev [0..<?n])
      = search (\<lambda>i. a ! i = NaNv) (rev [0..<?n])"
    by (rule search_cong) (simp add: at)
  moreover have "v \<noteq> NaNv \<Longrightarrow> search (\<lambda>i. strict_eq (arr_at a (int i)) v) (rev [0..<?n])
      = search (\<lambda>i. a ! i = v) (rev [0..<?n])"
    by (rule search_cong) (auto simp: at strict_eq_def)
  ultimately show ?thesis using assms
    by (auto simp: lastIndexOf_def when_elements_def indexOfNaN_def last_start_def Let_def)
qed

text \<open>
  \<open>indexOf\<close> returns the least index at or after its start position where the value is, and
  \<open>lastIndexOf\<close> the greatest at or before its start position, for every value, \<open>NaN\<close> included;
  negative positions count from the end.
\<close>

lemma indexOf_lastIndexOf:
  assumes "a \<noteq> []"
  shows "(indexOf (Some a) v (Num from) = int i \<longleftrightarrow>
      i < length a \<and> norm_start (int (length a)) from \<le> int i \<and> a ! i = v
      \<and> (\<forall>j<i. norm_start (int (length a)) from \<le> int j \<longrightarrow> a ! j \<noteq> v))
    \<and> (lastIndexOf (Some a) v (Num from) = int i \<longleftrightarrow>
      i < length a \<and> int i \<le> last_start (int (length a)) from \<and> a ! i = v
      \<and> (\<forall>j<length a. i < j \<and> int j \<le> last_start (int (length a)) from \<longrightarrow> a ! j \<noteq> v))"
proof -
  let ?n = "last_start (int (length a)) from"
  have "?n < int (length a)" using assms by (auto simp: last_start_def)
  then have n: "\<And>j. j < nat (?n + 1) \<longleftrightarrow> j < length a \<and> int j \<le> ?n" by linarith
  have s: "\<And>j. nat (norm_start (int (length a)) from) \<le> j \<longleftrightarrow> norm_start (int (length a)) from \<le> int j"
    by linarith
  show ?thesis unfolding indexOf_search lastIndexOf_search [OF assms] search_upt search_downt n s by auto
qed

lemma fold_arr_set:
  assumes "m \<le> n" "n \<le> length a"
  shows "fold (\<lambda>i a. arr_set a i v) [m..<n] a = map (\<lambda>i. if m \<le> i \<and> i < n then v else a ! i) [0..<length a]"
  using assms(1) assms(2)
proof (induction n rule: dec_induct)
  case base
  then show ?case by (auto intro!: nth_equalityI)
next
  case (step n)
  then show ?case by (auto simp: arr_put_def less_Suc_eq intro!: nth_equalityI)
qed

text \<open>The end of the range that \<open>fill\<close> writes.\<close>

definition fill_end :: "int \<Rightarrow> jsnum \<Rightarrow> int" where
  "fill_end len e = (case e of Undef \<Rightarrow> len | NaN \<Rightarrow> 0 | Num e \<Rightarrow> norm_end len e)"

text \<open>
  \<open>fill\<close> writes the value to exactly the positions from its start up to its end and keeps every
  other element and the length of the array.
\<close>

lemma fill_positions:
  assumes "js_array a"
  shows "fill (Some a) v s e
    = map (\<lambda>i. if norm_start (int (length a)) (toInteger s) \<le> int i \<and> int i < fill_end (int (length a)) e
               then v else a ! i) [0..<length a]"
proof (cases "a = []")
  case False
  let ?len = "int (length a)"
  let ?s = "norm_start ?len (toInteger s)" and ?e = "fill_end ?len e"
  let ?m = "if ?s > ?e then 0 else toLength ?e"
  have start: "(let s = toInteger s in if s < 0 then (if - s > ?len then 0 else ?len + s) else s) = ?s"
    by (auto simp: norm_start_def Let_def)
  have "(let e = (if e = Undef \<or> (case e of Num e \<Rightarrow> e > ?len | _ \<Rightarrow> False) then ?len else toInteger e)
      in if e < 0 then e + ?len else e) = ?e"
    by (cases e) (auto simp: fill_end_def norm_end_def)
  with start have f: "fill (Some a) v s e = fold (\<lambda>i a. arr_set a i v) [nat ?s..<nat ?m] a"
    using False by (simp add: fill_def when_elements_def baseFill_def Let_def)
  have b: "0 \<le> ?s" "?e \<le> ?len" by (auto simp: norm_start_def fill_end_def norm_end_def split: jsnum.splits)
  show ?thesis
  proof (cases "?s < ?e")
    case True
    with b assms have "?m = ?e" by (simp add: toLength_def baseClamp_def js_array_def)
    then show ?thesis unfolding f using True b by (subst fold_arr_set) (auto simp: nat_le_iff zless_nat_eq_int_zless nat_less_iff)
  next
    case False
    with b have "nat ?m \<le> nat ?s" using assms by (auto simp: toLength_def baseClamp_def js_array_def)
    then show ?thesis unfolding f using False by (auto intro!: nth_equalityI)
  qed
qed (simp add: fill_def when_elements_def)

end
