(* ===== verification/Lodash_Sets.thy ===== *)
theory Lodash_Sets
  imports Lodash_Cache Lodash_Slice
begin

text \<open>
  The array functions of lodash that treat arrays as sets: \<open>uniq\<close>, \<open>difference\<close>,
  \<open>intersection\<close>, \<open>union\<close>, \<open>xor\<close> and \<open>pull\<close> with their variants. The internal functions switch to
  a \<open>SetCache\<close>, or the \<open>Set\<close> of the language, for large arrays; the theorems show that the result
  is that of the plain specification on every path and in every host. An iteratee is optional,
  and so is a comparator.
\<close>

section \<open>Differences\<close>

text \<open>\<open>iteratee ? iteratee(value) : value\<close>.\<close>

definition computed_by :: "(jsval \<Rightarrow> jsval) option \<Rightarrow> jsval \<Rightarrow> jsval" where
  "computed_by iteratee value = (case iteratee of Some f \<Rightarrow> f value | None \<Rightarrow> value)"

text \<open>What the variable \<open>values\<close> of \<open>baseDifference\<close> holds.\<close>

datatype value_table = ValuesArray array | ValuesCache map_cache

definition table_includes :: "js_env \<Rightarrow> value_table \<Rightarrow> jsval \<Rightarrow> (jsval \<Rightarrow> jsval \<Rightarrow> bool) option \<Rightarrow> bool"
where
  "table_includes env values computed comparator = (case values of
     ValuesCache c \<Rightarrow> cacheHas env c computed
   | ValuesArray a \<Rightarrow> (case comparator of
       Some cmp \<Rightarrow> arrayIncludesWith a computed cmp
     | None \<Rightarrow> arrayIncludes a computed))"

text \<open>The body of the loop; \<open>continue outer\<close> skips the value.\<close>

definition baseDifference_step :: "js_env \<Rightarrow> (jsval \<Rightarrow> jsval) option \<Rightarrow>
    (jsval \<Rightarrow> jsval \<Rightarrow> bool) option \<Rightarrow> bool \<Rightarrow> array \<Rightarrow> value_table \<Rightarrow> jsval \<Rightarrow> array \<Rightarrow> array" where
  "baseDifference_step env iteratee comparator isCommon values table value result =
     (let computed = computed_by iteratee value in
      if isCommon \<and> strict_eq computed computed then
        if search (\<lambda>i. strict_eq (values ! i) computed) (rev [0..<length values]) \<noteq> - 1
        then result
        else result @ [value]
      else if \<not> table_includes env table computed comparator then result @ [value]
      else result)"

definition baseDifference :: "js_env \<Rightarrow> array \<Rightarrow> array \<Rightarrow> (jsval \<Rightarrow> jsval) option \<Rightarrow>
    (jsval \<Rightarrow> jsval \<Rightarrow> bool) option \<Rightarrow> array" where
  "baseDifference env array values iteratee comparator =
     (if length array = 0 then []
      else
        let values = (case iteratee of Some f \<Rightarrow> arrayMap values (\<lambda>v _. f v) | None \<Rightarrow> values);
            (isCommon, table) =
              (if comparator \<noteq> None then (False, ValuesArray values)
               else if length values \<ge> LARGE_ARRAY_SIZE then (False, ValuesCache (SetCache env values))
               else (True, ValuesArray values))
        in fold (\<lambda>index. baseDifference_step env iteratee comparator isCommon values table (array ! index))
             [0..<length array] [])"

section \<open>Duplicates\<close>

text \<open>The \<open>Set\<close> of the language: its values in insertion order.\<close>

definition es_add :: "array \<Rightarrow> jsval \<Rightarrow> array" where
  "es_add s v = (if v \<in> set s then s else s @ [v])"

text \<open>\<open>createSet\<close> is \<open>noop\<close> when the host has no working \<open>Set\<close>.\<close>

definition createSet :: "js_env \<Rightarrow> array \<Rightarrow> array option" where
  "createSet env values = (if hasSet env then Some (fold (\<lambda>v s. es_add s v) values []) else None)"

definition setToArray :: "array \<Rightarrow> array" where
  "setToArray s = snd (fold (\<lambda>value (index, result). (index + 1, arr_set result index value)) s
     (0, Array (length s)))"

text \<open>The variable \<open>seen\<close> of \<open>baseUniq\<close>: the array \<open>result\<close> itself, another array, or a cache.\<close>

datatype seen_table = SeenResult | SeenArray array | SeenCache map_cache

definition seen_array :: "array \<Rightarrow> seen_table \<Rightarrow> array" where
  "seen_array result seen = (case seen of SeenResult \<Rightarrow> result | SeenArray a \<Rightarrow> a | SeenCache _ \<Rightarrow> [])"

definition seen_includes :: "js_env \<Rightarrow> array \<Rightarrow> seen_table \<Rightarrow> jsval \<Rightarrow>
    (jsval \<Rightarrow> jsval \<Rightarrow> bool) option \<Rightarrow> bool" where
  "seen_includes env result seen computed comparator = (case seen of
     SeenCache c \<Rightarrow> cacheHas env c computed
   | _ \<Rightarrow> (case comparator of
       Some cmp \<Rightarrow> arrayIncludesWith (seen_array result seen) computed cmp
     | None \<Rightarrow> arrayIncludes (seen_array result seen) computed))"

definition seen_push :: "js_env \<Rightarrow> seen_table \<Rightarrow> jsval \<Rightarrow> seen_table" where
  "seen_push env seen computed = (case seen of
     SeenResult \<Rightarrow> SeenResult
   | SeenArray a \<Rightarrow> SeenArray (a @ [computed])
   | SeenCache c \<Rightarrow> SeenCache (cachePush env c computed))"

definition baseUniq_step :: "js_env \<Rightarrow> (jsval \<Rightarrow> jsval) option \<Rightarrow> (jsval \<Rightarrow> jsval \<Rightarrow> bool) option \<Rightarrow>
    bool \<Rightarrow> jsval \<Rightarrow> array \<times> seen_table \<Rightarrow> array \<times> seen_table" where
  "baseUniq_step env iteratee comparator isCommon value = (\<lambda>(result, seen).
     let computed = computed_by iteratee value in
     if isCommon \<and> strict_eq computed computed then
       let a = seen_array result seen in
       if search (\<lambda>i. strict_eq (a ! i) computed) (rev [0..<length a]) \<noteq> - 1 then (result, seen)
       else (result @ [value], if iteratee \<noteq> None then seen_push env seen computed else seen)
     else if \<not> seen_includes env result seen computed comparator
     then (result @ [value], if seen \<noteq> SeenResult then seen_push env seen computed else seen)
     else (result, seen))"

definition baseUniq :: "js_env \<Rightarrow> array \<Rightarrow> (jsval \<Rightarrow> jsval) option \<Rightarrow>
    (jsval \<Rightarrow> jsval \<Rightarrow> bool) option \<Rightarrow> array" where
  "baseUniq env array iteratee comparator =
     (let loop = (\<lambda>isCommon seen.
            fst (fold (\<lambda>index. baseUniq_step env iteratee comparator isCommon (array ! index))
              [0..<length array] ([], seen)))
      in if comparator \<noteq> None then loop False SeenResult
         else if length array \<ge> LARGE_ARRAY_SIZE then
           (case (if iteratee \<noteq> None then None else createSet env array) of
              Some s \<Rightarrow> setToArray s
            | None \<Rightarrow> loop False (SeenCache (SetCache env [])))
         else loop True (if iteratee \<noteq> None then SeenArray [] else SeenResult))"

section \<open>Intersections\<close>

text \<open>The first loop, from the right: the caches of the arrays and the least length.\<close>

definition intersection_caches :: "js_env \<Rightarrow> array list \<Rightarrow> (jsval \<Rightarrow> jsval) option \<Rightarrow> bool \<Rightarrow>
    map_cache option list \<times> nat option" where
  "intersection_caches env arrays iteratee hasComparator =
     fold (\<lambda>othIndex (caches, maxLength).
        let array = arrays ! othIndex;
            array = (case iteratee of
                Some f \<Rightarrow> if othIndex \<noteq> 0 then arrayMap array (\<lambda>v _. f v) else array
              | None \<Rightarrow> array);
            maxLength = (case maxLength of None \<Rightarrow> length array | Some m \<Rightarrow> min (length array) m)
        in (caches[othIndex :=
              (if \<not> hasComparator \<and> (iteratee \<noteq> None \<or> (length (arrays ! 0) \<ge> 120 \<and> length array \<ge> 120))
               then Some (SetCache env (if othIndex \<noteq> 0 then array else []))
               else None)],
            Some maxLength))
       (rev [0..<length arrays]) (replicate (length arrays) None, None)"

definition in_array :: "js_env \<Rightarrow> (jsval \<Rightarrow> jsval \<Rightarrow> bool) option \<Rightarrow> map_cache option \<Rightarrow> array \<Rightarrow>
    jsval \<Rightarrow> bool" where
  "in_array env comparator cache array computed = (case cache of
     Some c \<Rightarrow> cacheHas env c computed
   | None \<Rightarrow> (case comparator of
       Some cmp \<Rightarrow> arrayIncludesWith array computed cmp
     | None \<Rightarrow> arrayIncludes array computed))"

text \<open>
  \<open>baseIntersection\<close>; reading \<open>arrays[0].length\<close> raises when there is no array. The loop over the
  first array also ends when the result has \<open>maxLength\<close> elements.
\<close>

definition baseIntersection :: "js_env \<Rightarrow> array list \<Rightarrow> (jsval \<Rightarrow> jsval) option \<Rightarrow>
    (jsval \<Rightarrow> jsval \<Rightarrow> bool) option \<Rightarrow> js_error + array" where
  "baseIntersection env arrays iteratee comparator =
     (if arrays = [] then Inl TypeError
      else
        let (caches, maxLength) = intersection_caches env arrays iteratee (comparator \<noteq> None);
            array = arrays ! 0;
            step = (\<lambda>index (result, seen).
              if \<not> length result < the maxLength then Inl result
              else
                let value = array ! index; computed = computed_by iteratee value in
                if \<not> in_array env comparator seen result computed then
                  if \<exists>othIndex\<in>set (rev [1..<length arrays]).
                       \<not> in_array env comparator (caches ! othIndex) (arrays ! othIndex) computed
                  then Inr (result, seen)
                  else Inr (result @ [value], map_option (\<lambda>c. cachePush env c computed) seen)
                else Inr (result, seen))
        in Inr (case foldR step [0..<length array] ([], caches ! 0) of
             Inl result \<Rightarrow> result | Inr (result, seen) \<Rightarrow> result))"

section \<open>Removing in place\<close>

text \<open>\<open>splice.call(array, i, 1)\<close>.\<close>

definition splice1 :: "array \<Rightarrow> nat \<Rightarrow> array" where
  "splice1 array i = take i array @ drop (Suc i) array"

definition pull_index :: "array \<Rightarrow> jsval \<Rightarrow> nat \<Rightarrow> (jsval \<Rightarrow> jsval \<Rightarrow> bool) option \<Rightarrow> int" where
  "pull_index seen computed fromIndex comparator = (case comparator of
     Some cmp \<Rightarrow> baseIndexOfWith seen computed fromIndex cmp
   | None \<Rightarrow> baseIndexOf seen computed fromIndex)"

text \<open>
  The inner loop of \<open>basePullAll\<close> on the arrays \<open>array\<close> and \<open>seen\<close>, which are one array when there
  is no iteratee: the second component is \<open>None\<close> then.
\<close>

lemma pull_index_bound:
  "pull_index seen computed fromIndex comparator > - 1 \<Longrightarrow>
   nat (pull_index seen computed fromIndex comparator) < length seen"
proof -
  have "nat (search p [m..<n]) < n" if "search p [m..<n] > - 1" for p m n
    using search_found [of p "[m..<n]"] that by auto
  then show "pull_index seen computed fromIndex comparator > - 1 \<Longrightarrow>
      nat (pull_index seen computed fromIndex comparator) < length seen"
    by (auto simp: pull_index_def baseIndexOf_search baseIndexOfWith_def split: option.splits)
qed

lemma length_splice1: "i < length xs \<Longrightarrow> length (splice1 xs i) < length xs"
  by (simp add: splice1_def)

function pull_loop :: "jsval \<Rightarrow> (jsval \<Rightarrow> jsval \<Rightarrow> bool) option \<Rightarrow> nat \<Rightarrow> array \<Rightarrow> array option \<Rightarrow>
    array \<times> array option" where
  "pull_loop computed comparator fromIndex array seen =
     (let found = pull_index (case seen of Some s \<Rightarrow> s | None \<Rightarrow> array) computed fromIndex comparator in
      if found > - 1
      then pull_loop computed comparator (nat found) (splice1 array (nat found))
             (map_option (\<lambda>s. splice1 s (nat found)) seen)
      else (array, seen))"
  by pat_completeness auto
termination
  by (relation "measure (\<lambda>(_, _, _, array, seen). case seen of Some s \<Rightarrow> length s | None \<Rightarrow> length array)")
    (auto split: option.splits intro!: length_splice1 dest: pull_index_bound)

declare pull_loop.simps [simp del]

text \<open>The argument \<open>values\<close> is another array, or the very array that is spliced while \<open>values[index]\<close>
  is read; what \<open>values\<close> holds when \<open>array\<close> is as given.\<close>

datatype pull_values = OtherArray array | SameArray

fun current_values :: "pull_values \<Rightarrow> array \<Rightarrow> array" where
  "current_values (OtherArray vs) array = vs"
| "current_values SameArray array = array"

definition basePullAll :: "array \<Rightarrow> pull_values \<Rightarrow> (jsval \<Rightarrow> jsval) option \<Rightarrow>
    (jsval \<Rightarrow> jsval \<Rightarrow> bool) option \<Rightarrow> array" where
  "basePullAll array values iteratee comparator =
     (let length' = length (current_values values array);
          seen = map_option (\<lambda>f. arrayMap array (\<lambda>v _. f v)) iteratee in
      fst (fold (\<lambda>index (array, seen).
          let value = arr_at (current_values values array) (int index); computed = computed_by iteratee value
          in pull_loop computed comparator 0 array seen) [0..<length'] (array, seen)))"

section \<open>Symmetric difference\<close>

definition baseXor :: "js_env \<Rightarrow> array list \<Rightarrow> (jsval \<Rightarrow> jsval) option \<Rightarrow>
    (jsval \<Rightarrow> jsval \<Rightarrow> bool) option \<Rightarrow> array" where
  "baseXor env arrays iteratee comparator =
     (let result = fold (\<lambda>index result. case result of
            Some r \<Rightarrow> Some (arrayPush
              (baseDifference env r (arrays ! index) iteratee comparator)
              (baseDifference env (arrays ! index) r iteratee comparator))
          | None \<Rightarrow> Some (arrays ! index)) [0..<length arrays] None
      in case result of
           Some r \<Rightarrow> if length r \<noteq> 0 then baseUniq env r iteratee comparator else []
         | None \<Rightarrow> [])"

section \<open>Public functions\<close>

definition uniq :: "js_env \<Rightarrow> array option \<Rightarrow> array" where
  "uniq env array = when_elements array (\<lambda>a. baseUniq env a None None) []"

definition uniqBy :: "js_env \<Rightarrow> array option \<Rightarrow> (jsval \<Rightarrow> jsval) \<Rightarrow> array" where
  "uniqBy env array iteratee = when_elements array (\<lambda>a. baseUniq env a (Some iteratee) None) []"

definition uniqWith :: "js_env \<Rightarrow> array option \<Rightarrow> (jsval \<Rightarrow> jsval \<Rightarrow> bool) \<Rightarrow> array" where
  "uniqWith env array comparator = when_elements array (\<lambda>a. baseUniq env a None (Some comparator)) []"

definition pullAll :: "array option \<Rightarrow> pull_values option \<Rightarrow> array option" where
  "pullAll array values = (case (array, values) of
     (Some a, Some v) \<Rightarrow>
       if length a \<noteq> 0 \<and> length (current_values v a) \<noteq> 0 then Some (basePullAll a v None None) else Some a
   | _ \<Rightarrow> array)"

definition pullAllBy :: "array option \<Rightarrow> pull_values option \<Rightarrow> (jsval \<Rightarrow> jsval) \<Rightarrow> array option" where
  "pullAllBy array values iteratee = (case (array, values) of
     (Some a, Some v) \<Rightarrow>
       if length a \<noteq> 0 \<and> length (current_values v a) \<noteq> 0 then Some (basePullAll a v (Some iteratee) None) else Some a
   | _ \<Rightarrow> array)"

definition pullAllWith :: "array option \<Rightarrow> pull_values option \<Rightarrow> (jsval \<Rightarrow> jsval \<Rightarrow> bool) \<Rightarrow> array option"
where
  "pullAllWith array values comparator = (case (array, values) of
     (Some a, Some v) \<Rightarrow>
       if length a \<noteq> 0 \<and> length (current_values v a) \<noteq> 0 then Some (basePullAll a v None (Some comparator)) else Some a
   | _ \<Rightarrow> array)"

text \<open>\<open>without\<close> is wrapped by \<open>rest\<close>: its values are its remaining arguments. The first argument
  is no array-like object when it is \<open>None\<close>.\<close>

definition without :: "js_env \<Rightarrow> array option \<Rightarrow> array \<Rightarrow> array" where
  "without env array values = (case array of
     Some a \<Rightarrow> baseDifference env a values None None
   | None \<Rightarrow> [])"

section \<open>Specifications\<close>

text \<open>The first element for each key that is not yet known.\<close>

fun firsts :: "(jsval \<Rightarrow> jsval) \<Rightarrow> jsval set \<Rightarrow> array \<Rightarrow> array" where
  "firsts f S [] = []"
| "firsts f S (v # vs) = (if f v \<in> S then firsts f S vs else v # firsts f (insert (f v) S) vs)"

lemma firsts_keys: "f ` set (firsts f S vs) = f ` set vs - S"
  by (induction vs arbitrary: S) auto

lemma firsts_distinct: "distinct (map f (firsts f S vs))"
proof (induction vs arbitrary: S)
  case (Cons v vs)
  have "f v \<notin> f ` set (firsts f (insert (f v) S) vs)" by (simp add: firsts_keys)
  with Cons show ?case by simp
qed simp

lemma firsts_subseq: "subseq (firsts f S vs) vs"
  by (induction vs arbitrary: S) auto

lemma firsts_known: "f ` set vs \<subseteq> S \<Longrightarrow> firsts f S vs = []"
  by (induction vs) auto

lemma firsts_append: "firsts f S (xs @ ys) = firsts f S xs @ firsts f (S \<union> f ` set xs) ys"
proof (induction xs arbitrary: S)
  case (Cons x xs)
  have "insert (f x) S \<union> f ` set xs = S \<union> f ` set (x # xs)" by auto
  moreover have "f x \<in> S \<Longrightarrow> S \<union> f ` set xs = S \<union> f ` set (x # xs)" by auto
  ultimately show ?case using Cons by (metis append_Cons firsts.simps(2))
qed simp

lemma firsts_id: "firsts (\<lambda>v. v) {} vs = rev (remdups (rev vs))"
proof (induction vs rule: rev_induct)
  case (snoc v vs)
  then show ?case by (auto simp: firsts_append)
qed simp

lemma computed_by_None [simp]: "computed_by None v = v"
  by (simp add: computed_by_def)

lemma computed_by_Some [simp]: "computed_by (Some f) v = f v"
  by (simp add: computed_by_def)

lemma computed_by_None': "computed_by None = (\<lambda>v. v)"
  by (simp add: fun_eq_iff)

lemma computed_by_Some': "computed_by (Some f) = f"
  by (simp add: fun_eq_iff)

lemma mapped_values:
  "(case iteratee of Some f \<Rightarrow> arrayMap values (\<lambda>v _. f v) | None \<Rightarrow> values) = map (computed_by iteratee) values"
  by (cases iteratee) (simp_all add: lodash_fun computed_by_None' fun_eq_iff computed_by_def)

lemma scan_mem:
  "v \<noteq> NaNv \<Longrightarrow> search (\<lambda>i. strict_eq (a ! i) v) (rev [0..<length a]) \<noteq> - 1 \<longleftrightarrow> v \<in> set a"
  by (auto simp: search_none_iff strict_eq_def in_set_conv_nth)

lemma scan_map: "v \<noteq> NaNv \<Longrightarrow>
    search (\<lambda>i. strict_eq (map f a ! i) v) (rev [0..<length a]) \<noteq> - 1 \<longleftrightarrow> v \<in> f ` set a"
  using scan_mem [of v "map f a"] by simp

lemma SetCache_members: "env_ok env \<Longrightarrow> cacheHas env (SetCache env values) v \<longleftrightarrow> v \<in> set values"
  unfolding SetCache_fold by (rule setcache.member_of [OF set_ok_empty])

lemma SetCache_ok: "env_ok env \<Longrightarrow> set_ok env (SetCache env values)"
  unfolding SetCache_fold by (rule setcache.wf_fold [OF set_ok_empty])

section \<open>Difference\<close>

lemma fold_keep: "fold (\<lambda>v r. if p v then r @ [v] else r) vs r = r @ filter p vs"
  by (induction vs arbitrary: r) auto

lemma baseDifference_fold:
  "baseDifference env array values iteratee comparator =
     (let values = map (computed_by iteratee) values;
          (isCommon, table) =
              (if comparator \<noteq> None then (False, ValuesArray values)
               else if length values \<ge> LARGE_ARRAY_SIZE then (False, ValuesCache (SetCache env values))
               else (True, ValuesArray values))
      in fold (baseDifference_step env iteratee comparator isCommon values table) array [])"
  unfolding baseDifference_def mapped_values by (auto simp: fold_nth)

lemma baseDifference_filter:
  assumes "env_ok env"
  shows "baseDifference env array values iteratee None
    = filter (\<lambda>v. computed_by iteratee v \<notin> computed_by iteratee ` set values) array"
proof -
  let ?f = "computed_by iteratee"
  have "baseDifference_step env iteratee None True (map ?f values) (ValuesArray (map ?f values))
      = (\<lambda>v r. if ?f v \<notin> ?f ` set values then r @ [v] else r)"
    by (auto simp: fun_eq_iff baseDifference_step_def scan_map table_includes_def lodash_fun Let_def)
  moreover have "baseDifference_step env iteratee None False (map ?f values) (ValuesCache (SetCache env (map ?f values)))
      = (\<lambda>v r. if ?f v \<notin> ?f ` set values then r @ [v] else r)"
    by (auto simp: fun_eq_iff baseDifference_step_def table_includes_def SetCache_members [OF assms] Let_def)
  ultimately show ?thesis by (simp add: baseDifference_fold fold_keep Let_def)
qed

lemma baseDifference_with:
  "baseDifference env array values iteratee (Some cmp)
    = filter (\<lambda>v. \<not> (\<exists>w\<in>set values. cmp (computed_by iteratee v) (computed_by iteratee w))) array"
proof -
  let ?f = "computed_by iteratee"
  have "baseDifference_step env iteratee (Some cmp) False (map ?f values) (ValuesArray (map ?f values))
      = (\<lambda>v r. if \<not> (\<exists>w\<in>set values. cmp (?f v) (?f w)) then r @ [v] else r)"
    by (auto simp: fun_eq_iff baseDifference_step_def table_includes_def lodash_fun Let_def)
  then show ?thesis by (simp add: baseDifference_fold fold_keep Let_def)
qed

text \<open>
  C27: \<open>baseDifference\<close>, behind \<open>difference\<close>, \<open>differenceBy\<close> and \<open>without\<close>, keeps exactly the elements
  whose key is not the key of one of the values, in order and with their duplicates. It holds on
  the path with a \<open>SetCache\<close> for 200 values and more as on the other one, and in every host.
\<close>

theorem difference_elements:
  assumes "env_ok env"
  shows "baseDifference env array values iteratee None
    = filter (\<lambda>v. computed_by iteratee v \<notin> computed_by iteratee ` set values) array"
  by (rule baseDifference_filter [OF assms])

theorem difference_elements_witness:
  "baseDifference legacy_env [NaNv, Number 1, Null, Number 1] (NaNv # replicate 300 Null) None None
    = [Number 1, Number 1]"
  using difference_elements [of legacy_env "[NaNv, Number 1, Null, Number 1]" "NaNv # replicate 300 Null" None]
  by (simp add: env_ok_def legacy_env_def HASH_UNDEFINED_def)

section \<open>Duplicates\<close>

text \<open>The table \<open>seen\<close> represents the set of keys of the result.\<close>

definition seen_rep :: "js_env \<Rightarrow> (jsval \<Rightarrow> jsval) option \<Rightarrow> bool \<Rightarrow> array \<Rightarrow> seen_table \<Rightarrow> jsval set \<Rightarrow> bool"
where
  "seen_rep env iteratee isCommon result seen S \<longleftrightarrow> (case seen of
     SeenResult \<Rightarrow> iteratee = None \<and> set result = S
   | SeenArray a \<Rightarrow> iteratee \<noteq> None \<and> set a = S
   | SeenCache c \<Rightarrow> \<not> isCommon \<and> set_ok env c \<and> (\<forall>v. cacheHas env c v \<longleftrightarrow> v \<in> S))"

lemma baseUniq_step_eq:
  assumes "seen_rep env iteratee isCommon result seen S"
  shows "\<exists>seen'. baseUniq_step env iteratee None isCommon v (result, seen)
      = (if computed_by iteratee v \<in> S then (result, seen) else (result @ [v], seen'))
    \<and> seen_rep env iteratee isCommon (result @ [v]) seen' (insert (computed_by iteratee v) S)"
proof (cases seen)
  case SeenResult
  then show ?thesis using assms
    by (intro exI [of _ SeenResult])
      (auto simp: seen_rep_def baseUniq_step_def scan_mem seen_array_def seen_includes_def seen_push_def
        lodash_fun Let_def)
next
  case (SeenArray a)
  then show ?thesis using assms
    by (intro exI [of _ "SeenArray (a @ [computed_by iteratee v])"])
      (auto simp: seen_rep_def baseUniq_step_def scan_mem seen_array_def seen_includes_def seen_push_def
        lodash_fun Let_def)
next
  case (SeenCache c)
  then show ?thesis using assms
    by (intro exI [of _ "SeenCache (cachePush env c (computed_by iteratee v))"])
      (auto simp: seen_rep_def baseUniq_step_def seen_includes_def seen_push_def
        setcache.member_add setcache.wf_add Let_def)
qed

lemma baseUniq_loop:
  assumes "seen_rep env iteratee isCommon result seen S"
  shows "fst (fold (baseUniq_step env iteratee None isCommon) vs (result, seen))
    = result @ firsts (computed_by iteratee) S vs"
  using assms
proof (induction vs arbitrary: result seen S)
  case (Cons v vs)
  from baseUniq_step_eq [OF Cons.prems, of v] obtain seen' where
    "baseUniq_step env iteratee None isCommon v (result, seen)
      = (if computed_by iteratee v \<in> S then (result, seen) else (result @ [v], seen'))"
    "seen_rep env iteratee isCommon (result @ [v]) seen' (insert (computed_by iteratee v) S)"
    by blast
  with Cons.IH [OF Cons.prems] Cons.IH [of "result @ [v]" seen'] show ?case by auto
qed simp

lemma fold_es_add: "fold (\<lambda>v s. es_add s v) vs s = s @ firsts (\<lambda>v. v) (set s) vs"
  by (induction vs arbitrary: s) (auto simp: es_add_def insert_commute)

lemma setToArray_id: "setToArray s = s"
proof -
  have "fold (\<lambda>value (index, result). (index + 1, arr_set result index value)) s (0, Array (length s))
      = (length s, s)"
    using concat_loop [of "length s" "length s" Undefined "(!) s" "[]"]
      fold_nth [of "\<lambda>value (index, result). (index + 1, arr_set result index value)" s]
    by (simp add: map_nth)
  then show ?thesis unfolding setToArray_def by simp
qed

lemma baseUniq_firsts:
  assumes "env_ok env"
  shows "baseUniq env array iteratee None = firsts (computed_by iteratee) {} array"
proof -
  have "seen_rep env iteratee False [] (SeenCache (SetCache env [])) {}"
    by (simp add: seen_rep_def SetCache_members [OF assms] SetCache_ok [OF assms])
  moreover have "seen_rep env iteratee True [] (if iteratee \<noteq> None then SeenArray [] else SeenResult) {}"
    by (simp add: seen_rep_def)
  ultimately show ?thesis
    unfolding baseUniq_def fold_nth Let_def
    by (auto simp: baseUniq_loop createSet_def fold_es_add setToArray_id computed_by_None')
qed

lemma firsts_nth:
  "firsts f {} a = map ((!) a) (filter (\<lambda>i. \<forall>j<i. f (a ! j) \<noteq> f (a ! i)) [0..<length a])"
proof (induction a rule: rev_induct)
  case (snoc x xs)
  have "map ((!) (xs @ [x])) (filter (\<lambda>i. \<forall>j<i. f ((xs @ [x]) ! j) \<noteq> f ((xs @ [x]) ! i)) [0..<length xs])
    = map ((!) xs) (filter (\<lambda>i. \<forall>j<i. f (xs ! j) \<noteq> f (xs ! i)) [0..<length xs])"
    by (auto simp: nth_append intro!: map_cong filter_cong)
  moreover have "(\<forall>j<length xs. f ((xs @ [x]) ! j) \<noteq> f x) \<longleftrightarrow> f x \<notin> f ` set xs"
    by (simp add: nth_append) (metis image_iff in_set_conv_nth)
  ultimately show ?case by (simp add: firsts_append snoc)
qed simp

text \<open>
  C26: \<open>uniqBy\<close> keeps, of the elements with the same key, exactly the first: the result consists of
  the elements for whose key no earlier position has that key, in their order. Hence it is a
  subsequence of the array, its keys are distinct, and they are the keys of the array. The short
  path, the path with a \<open>SetCache\<close> for long arrays, and in \<open>uniq\<close> the path with the \<open>Set\<close> of the
  language all compute it; without an iteratee it is the array without later duplicates.
\<close>

theorem uniq_first_occurrences:
  assumes "env_ok env"
  shows "uniqBy env (Some a) f =
      map ((!) a) (filter (\<lambda>i. \<forall>j<i. f (a ! j) \<noteq> f (a ! i)) [0..<length a])
    \<and> distinct (map f (uniqBy env (Some a) f)) \<and> f ` set (uniqBy env (Some a) f) = f ` set a
    \<and> subseq (uniqBy env (Some a) f) a \<and> uniq env (Some a) = rev (remdups (rev a))"
proof -
  have "uniqBy env (Some a) f = firsts f {} a" "uniq env (Some a) = firsts (\<lambda>v. v) {} a"
    by (auto simp: uniqBy_def uniq_def when_elements_def baseUniq_firsts [OF assms] computed_by_None' computed_by_Some')
  then show ?thesis by (simp add: firsts_distinct firsts_keys firsts_subseq firsts_id firsts_nth [symmetric])
qed

theorem uniq_first_occurrences_witness:
  "uniq modern_env (Some (NaNv # replicate 300 Null @ [NaNv])) = [NaNv, Null]"
proof -
  have "env_ok modern_env" by (simp add: env_ok_def modern_env_def HASH_UNDEFINED_def)
  moreover have "rev (remdups (rev (NaNv # replicate 300 Null @ [NaNv]))) = [NaNv, Null]" by code_simp
  ultimately show ?thesis using uniq_first_occurrences [of modern_env "NaNv # replicate 300 Null @ [NaNv]" "\<lambda>v. v"]
    by simp
qed

section \<open>Pulling values out of an array\<close>

text \<open>What a value of the array is compared with.\<close>

definition pulled :: "(jsval \<Rightarrow> jsval \<Rightarrow> bool) option \<Rightarrow> jsval \<Rightarrow> jsval \<Rightarrow> bool" where
  "pulled comparator computed v = (case comparator of Some cmp \<Rightarrow> cmp v computed | None \<Rightarrow> v = computed)"

lemma pull_index_search:
  "pull_index seen computed fromIndex comparator
    = search (\<lambda>i. pulled comparator computed (seen ! i)) [fromIndex..<length seen]"
  by (cases comparator) (simp_all add: pull_index_def pulled_def baseIndexOf_search baseIndexOfWith_def)

lemma splice1_map: "splice1 (map f xs) i = map f (splice1 xs i)"
  by (simp add: splice1_def take_map drop_map)

lemma splice1_filter:
  assumes "i < length xs" "\<not> p (xs ! i)"
  shows "filter p (splice1 xs i) = filter p xs"
proof -
  have "filter p xs = filter p (take i xs @ xs ! i # drop (Suc i) xs)"
    using id_take_nth_drop [OF assms(1)] by metis
  with assms(2) show ?thesis by (simp add: splice1_def)
qed

lemma splice1_nth: "j < i \<Longrightarrow> i < length xs \<Longrightarrow> splice1 xs i ! j = xs ! j"
  by (simp add: splice1_def nth_append)

text \<open>The second array holds the keys of the first all along.\<close>

lemma pull_loop_eq:
  assumes "seen = map_option (\<lambda>f. map f array) iteratee"
    and "\<And>i. i < fromIndex \<Longrightarrow> i < length array \<Longrightarrow> \<not> pulled cmp computed (computed_by iteratee (array ! i))"
  shows "pull_loop computed cmp fromIndex array seen
    = (filter (\<lambda>v. \<not> pulled cmp computed (computed_by iteratee v)) array,
       map_option (\<lambda>f. map f (filter (\<lambda>v. \<not> pulled cmp computed (computed_by iteratee v)) array)) iteratee)"
  using assms
proof (induction computed cmp fromIndex array seen rule: pull_loop.induct)
  case (1 computed cmp fromIndex array seen)
  let ?p = "\<lambda>v. pulled cmp computed (computed_by iteratee v)"
  have keys: "(case seen of Some s \<Rightarrow> s | None \<Rightarrow> array) = map (computed_by iteratee) array"
    using 1(2) by (cases iteratee) (simp_all add: computed_by_None' computed_by_Some')
  define found where "found = pull_index (map (computed_by iteratee) array) computed fromIndex cmp"
  have "search (\<lambda>i. pulled cmp computed (map (computed_by iteratee) array ! i)) [fromIndex..<length array]
      = search (\<lambda>i. ?p (array ! i)) [fromIndex..<length array]"
    by (rule search_cong) simp
  then have found: "found = search (\<lambda>i. ?p (array ! i)) [fromIndex..<length array]"
    by (simp add: found_def pull_index_search)
  have unfold: "pull_loop computed cmp fromIndex array seen = (if found > - 1
      then pull_loop computed cmp (nat found) (splice1 array (nat found)) (map_option (\<lambda>s. splice1 s (nat found)) seen)
      else (array, seen))"
    by (subst pull_loop.simps) (simp add: keys found_def Let_def)
  show ?case
  proof (rule search_cases [of "\<lambda>i. ?p (array ! i)" "[fromIndex..<length array]"])
    assume none: "search (\<lambda>i. ?p (array ! i)) [fromIndex..<length array] = - 1"
      "\<And>i. i \<in> set [fromIndex..<length array] \<Longrightarrow> \<not> ?p (array ! i)"
    then have "\<not> ?p v" if "v \<in> set array" for v
      using that 1(3) none(2) by (metis atLeastLessThan_iff in_set_conv_nth not_le set_upt)
    then have "filter (\<lambda>v. \<not> ?p v) array = array" by (simp add: filter_id_conv)
    with unfold found none(1) 1(2) show ?thesis by simp
  next
    fix i
    assume i: "search (\<lambda>i. ?p (array ! i)) [fromIndex..<length array] = int i"
      "i \<in> set [fromIndex..<length array]" "?p (array ! i)"
    then have least: "\<And>j. j < i \<Longrightarrow> \<not> ?p (array ! j)" and len: "i < length array"
      using search_upt [of "\<lambda>i. ?p (array ! i)" fromIndex "length array" i] 1(3)
      by (auto, metis (no_types, lifting) leI less_trans)
    have seen: "map_option (\<lambda>s. splice1 s i) seen = map_option (\<lambda>f. map f (splice1 array i)) iteratee"
      using 1(2) by (cases iteratee) (simp_all add: splice1_map)
    have "pull_loop computed cmp (nat found) (splice1 array (nat found)) (map_option (\<lambda>s. splice1 s (nat found)) seen)
        = (filter (\<lambda>v. \<not> ?p v) (splice1 array i), map_option (\<lambda>f. map f (filter (\<lambda>v. \<not> ?p v) (splice1 array i))) iteratee)"
      using 1(1) [of found] found i(1) seen least len splice1_nth [OF _ len] keys found_def by simp
    then show ?thesis using unfold found i len splice1_filter [of i array "\<lambda>v. \<not> ?p v"] by simp
  qed
qed

lemma fold_arr_at:
  "fold (\<lambda>i. g (arr_at xs (int i))) [0..<length xs] s = fold (\<lambda>i. g (xs ! i)) [0..<length xs] s"
  by (rule fold_cong) (auto simp: arr_at_def)

lemma basePullAll_filter:
  "basePullAll array (OtherArray values) iteratee cmp
    = filter (\<lambda>v. \<not> (\<exists>w\<in>set values. pulled cmp (computed_by iteratee w) (computed_by iteratee v))) array"
proof -
  have "fold (\<lambda>value (array, seen). pull_loop (computed_by iteratee value) cmp 0 array seen) values
      (array, map_option (\<lambda>f. map f array) iteratee)
    = (filter (\<lambda>v. \<not> (\<exists>w\<in>set values. pulled cmp (computed_by iteratee w) (computed_by iteratee v))) array,
       map_option (\<lambda>f. map f (filter (\<lambda>v. \<not> (\<exists>w\<in>set values.
         pulled cmp (computed_by iteratee w) (computed_by iteratee v))) array)) iteratee)" for array
  proof (induction "values" arbitrary: array)
    case (Cons w ws)
    have "filter (\<lambda>v. \<not> (\<exists>x\<in>set ws. pulled cmp (computed_by iteratee x) (computed_by iteratee v)))
        (filter (\<lambda>v. \<not> pulled cmp (computed_by iteratee w) (computed_by iteratee v)) array)
      = filter (\<lambda>v. \<not> (\<exists>x\<in>set (w # ws). pulled cmp (computed_by iteratee x) (computed_by iteratee v))) array"
      by (auto intro: filter_cong)
    then show ?case using Cons by (simp add: pull_loop_eq [OF refl, where fromIndex = 0])
  qed (cases iteratee; simp)
  then show ?thesis
    unfolding basePullAll_def Let_def current_values.simps
      fold_arr_at [of "\<lambda>value (array, seen). pull_loop (computed_by iteratee value) cmp 0 array seen"]
      fold_nth [of "\<lambda>value (array, seen). pull_loop (computed_by iteratee value) cmp 0 array seen"]
    by (cases iteratee) (simp_all add: lodash_fun)
qed

text \<open>
  C31: when the values to pull are another array than the one they are pulled from (as they always
  are in \<open>pull\<close>, which collects its arguments), pulling in place, with a second array of keys that
  is spliced along, leaves what \<open>baseDifference\<close> builds as a new array, on all its paths; so do
  \<open>pullAll\<close> and \<open>pullAllBy\<close>, also for empty arrays.
\<close>

theorem pull_is_difference:
  assumes "env_ok env"
  shows "basePullAll a (OtherArray v) iteratee None = baseDifference env a v iteratee None \<and>
    pullAll (Some a) (Some (OtherArray v)) = Some (baseDifference env a v None None) \<and>
    pullAllBy (Some a) (Some (OtherArray v)) f = Some (baseDifference env a v (Some f) None)"
proof -
  have eq: "basePullAll a (OtherArray v) it None = baseDifference env a v it None" for it
    unfolding basePullAll_filter baseDifference_filter [OF assms] pulled_def
    by (rule filter_cong) auto
  have "baseDifference env a v it None = a" if "a = [] \<or> v = []" for it
    using that by (auto simp: baseDifference_filter [OF assms])
  then show ?thesis by (auto simp: eq pullAll_def pullAllBy_def)
qed

theorem pull_is_difference_witness:
  "basePullAll [NaNv, Null, NaNv] (OtherArray [NaNv]) None None
     = baseDifference legacy_env [NaNv, Null, NaNv] [NaNv] None None"
  using pull_is_difference [of legacy_env "[NaNv, Null, NaNv]" "[NaNv]" None "\<lambda>v. v"]
  by (simp add: env_ok_def legacy_env_def HASH_UNDEFINED_def)

text \<open>An array pulled from itself is not emptied: the values move while they are read.\<close>

lemma pull_same_array:
  "basePullAll [Number 1, Number 2, Number 3] SameArray None None = [Number 2]"
  by (simp add: basePullAll_def upt_rec pull_loop.simps pull_index_search pulled_def search_def arr_at_def splice1_def
      computed_by_None')

section \<open>Symmetric difference\<close>

lemma xor_fold:
  assumes "env_ok env"
  shows "\<exists>r. fold (\<lambda>array result. case result of
        Some r \<Rightarrow> Some (arrayPush (baseDifference env r array iteratee None) (baseDifference env array r iteratee None))
      | None \<Rightarrow> Some array) arrays (Some r0) = Some r
    \<and> (\<forall>k. k \<in> computed_by iteratee ` set r \<longleftrightarrow>
        (k \<in> computed_by iteratee ` set r0) \<noteq> odd (length (filter (\<lambda>a. k \<in> computed_by iteratee ` set a) arrays)))"
proof (induction arrays arbitrary: r0)
  case (Cons a arrays)
  let ?f = "computed_by iteratee"
  let ?r = "arrayPush (baseDifference env r0 a iteratee None) (baseDifference env a r0 iteratee None)"
  have "k \<in> ?f ` set ?r \<longleftrightarrow> (k \<in> ?f ` set r0) \<noteq> (k \<in> ?f ` set a)" for k
    by (auto simp: lodash_fun baseDifference_filter [OF assms])
  with Cons.IH [of ?r] show ?case by (auto simp: image_iff)
qed simp

text \<open>
  C32: \<open>xor\<close> of any number of arrays returns elements with distinct keys, and a key occurs in the
  result exactly when an odd number of the arrays has it.
\<close>

theorem xor_odd:
  assumes "env_ok env"
  shows "distinct (map (computed_by iteratee) (baseXor env arrays iteratee None))
    \<and> (k \<in> computed_by iteratee ` set (baseXor env arrays iteratee None) \<longleftrightarrow>
        odd (length (filter (\<lambda>a. k \<in> computed_by iteratee ` set a) arrays)))"
proof (cases arrays)
  case (Cons a as)
  let ?f = "computed_by iteratee"
  let ?step = "\<lambda>array result. case result of
        Some r \<Rightarrow> Some (arrayPush (baseDifference env r array iteratee None) (baseDifference env array r iteratee None))
      | None \<Rightarrow> Some array"
  obtain r where r: "fold ?step as (Some a) = Some r"
    "\<And>k. k \<in> ?f ` set r \<longleftrightarrow> (k \<in> ?f ` set a) \<noteq> odd (length (filter (\<lambda>a. k \<in> ?f ` set a) as))"
    using xor_fold [OF assms, of iteratee as a] by blast
  have "baseXor env arrays iteratee None = firsts ?f {} r"
    unfolding baseXor_def Let_def fold_nth [of ?step] using r(1)
    by (simp add: Cons baseUniq_firsts [OF assms])
  then show ?thesis using r(2) [of k] by (auto simp: Cons firsts_distinct firsts_keys)
qed (simp add: baseXor_def)

theorem xor_odd_witness:
  "set (baseXor legacy_env [[Null, NaNv], [NaNv, Number 1], [Number 1, NaNv]] None None) = {Null, NaNv}"
proof -
  have "env_ok legacy_env" by (simp add: env_ok_def legacy_env_def HASH_UNDEFINED_def)
  then have "k \<in> set (baseXor legacy_env [[Null, NaNv], [NaNv, Number 1], [Number 1, NaNv]] None None)
      \<longleftrightarrow> k = Null \<or> k = NaNv" for k
    using xor_odd [of legacy_env None "[[Null, NaNv], [NaNv, Number 1], [Number 1, NaNv]]" k]
    by (auto simp: computed_by_None' split: if_splits)
  then show ?thesis by auto
qed

section \<open>Intersection\<close>

lemma fold_pair: "fold (\<lambda>i (c, m). (F i c, H i m)) is (c, m) = (fold F is c, fold H is m)"
  by (induction "is" arbitrary: c m) auto

lemma fold_update_all: "fold (\<lambda>i c. c[i := g i]) (rev [0..<n]) (replicate n z) = map g [0..<n]"
proof -
  have "fold (\<lambda>i c. c[i := g i]) (rev [0..<k]) c = map g [0..<k] @ drop k c" if "k \<le> length c" for k c
    using that
  proof (induction k arbitrary: c)
    case (Suc k)
    have "drop k (c[k := g k]) = g k # drop (Suc k) c"
      using Suc.prems by (simp add: drop_update_swap Cons_nth_drop_Suc [symmetric])
    with Suc show ?case by simp
  qed simp
  from this [of n "replicate n z"] show ?thesis by simp
qed

lemma fold_min_length:
  assumes "is \<noteq> []"
  shows "\<exists>k\<in>set is. fold (\<lambda>i m. Some (case m of None \<Rightarrow> l i | Some m \<Rightarrow> min (l i) m)) is m0 = Some (l k)
    \<or> m0 \<noteq> None \<and> fold (\<lambda>i m. Some (case m of None \<Rightarrow> l i | Some m \<Rightarrow> min (l i) m)) is m0 = m0"
  using assms
proof (induction "is" arbitrary: m0)
  case (Cons i "is")
  let ?m = "Some (case m0 of None \<Rightarrow> l i | Some m \<Rightarrow> min (l i) m)"
  have m: "?m = Some (l i) \<or> m0 \<noteq> None \<and> ?m = m0" by (auto simp: min_def split: option.splits)
  show ?case
  proof (cases "is = []")
    case False
    from Cons.IH [OF this, of ?m] m show ?thesis by auto
  qed (use m in auto)
qed simp

text \<open>What the first loop of \<open>baseIntersection\<close> leaves.\<close>

lemma intersection_caches_eq:
  assumes "arrays \<noteq> []"
  shows "\<exists>k<length arrays. intersection_caches env arrays iteratee False =
    (map (\<lambda>i. if iteratee \<noteq> None \<or> (length (arrays ! 0) \<ge> 120 \<and> length (arrays ! i) \<ge> 120)
         then Some (SetCache env (if i \<noteq> 0 then map (computed_by iteratee) (arrays ! i) else []))
         else None) [0..<length arrays], Some (length (arrays ! k)))"
proof -
  let ?l = "\<lambda>i. length (arrays ! i)"
  let ?g = "\<lambda>i. if iteratee \<noteq> None \<or> (?l 0 \<ge> 120 \<and> ?l i \<ge> 120)
         then Some (SetCache env (if i \<noteq> 0 then map (computed_by iteratee) (arrays ! i) else [])) else None"
  let ?H = "\<lambda>i m. Some (case m of None \<Rightarrow> ?l i | Some m \<Rightarrow> min (?l i) m)"
  have m: "(case iteratee of Some f \<Rightarrow> if i \<noteq> 0 then arrayMap (arrays ! i) (\<lambda>v _. f v) else arrays ! i | None \<Rightarrow> arrays ! i)
      = (if i \<noteq> 0 then map (computed_by iteratee) (arrays ! i) else arrays ! i)" for i
    by (cases iteratee) (simp_all add: lodash_fun computed_by_None' computed_by_Some')
  have "intersection_caches env arrays iteratee False
      = fold (\<lambda>i (c, m). (c[i := ?g i], ?H i m)) (rev [0..<length arrays]) (replicate (length arrays) None, None)"
    unfolding intersection_caches_def m Let_def
    by (intro fold_cong refl) (auto simp: fun_eq_iff split: option.splits)
  then have "intersection_caches env arrays iteratee False
      = (map ?g [0..<length arrays], fold ?H (rev [0..<length arrays]) None)"
    by (simp add: fold_pair fold_update_all)
  moreover obtain k where "k \<in> set (rev [0..<length arrays])" "fold ?H (rev [0..<length arrays]) None = Some (?l k)"
    using fold_min_length [of "rev [0..<length arrays]" ?l None] assms by auto
  ultimately show ?thesis by auto
qed

text \<open>
  The loop over the first array, with the early end: \<open>others\<close> tells the keys that all other arrays
  have, and \<open>B\<close> is an array whose length is the bound.
\<close>

lemma intersection_loop:
  fixes f :: "jsval \<Rightarrow> jsval"
  assumes step: "\<And>v r s. step v (r, s) =
      (if \<not> length r < length B then Inl r
       else if \<not> inr r s (f v) then if \<not> others (f v) then Inr (r, s) else Inr (r @ [v], push s (f v))
       else Inr (r, s))"
    and rep: "\<And>r s v k. ok s \<Longrightarrow> (\<And>k. inr r s k \<longleftrightarrow> k \<in> f ` set r) \<Longrightarrow>
      ok (push s (f v)) \<and> (inr (r @ [v]) (push s (f v)) k \<longleftrightarrow> k \<in> f ` set (r @ [v]))"
    and bound: "\<And>v. v \<in> set xs \<Longrightarrow> others (f v) \<Longrightarrow> f v \<in> f ` set B"
    and "ok s" "\<And>k. inr r s k \<longleftrightarrow> k \<in> f ` set r" "distinct (map f r)" "f ` set r \<subseteq> f ` set B"
  shows "(case foldR step xs (r, s) of Inl r \<Rightarrow> r | Inr (r, s) \<Rightarrow> r)
    = r @ firsts f (f ` set r) (filter (\<lambda>v. others (f v)) xs)"
  using assms(3-)
proof (induction xs arbitrary: r s)
  case (Cons v xs)
  show ?case
  proof (cases "length r < length B")
    case False
    have "card (f ` set r) = length r" using Cons.prems(4) by (metis distinct_card length_map set_map)
    moreover have "card (f ` set B) \<le> length B" by (metis card_image_le card_length finite_set le_trans)
    moreover have "card (f ` set r) \<le> card (f ` set B)" using Cons.prems(5) by (intro card_mono) simp_all
    ultimately have "f ` set r = f ` set B"
      using Cons.prems(5) False by (intro card_subset_eq) simp_all
    then have "f ` set (filter (\<lambda>v. others (f v)) (v # xs)) \<subseteq> f ` set r" using Cons.prems(1) by auto
    then have "firsts f (f ` set r) (filter (\<lambda>v. others (f v)) (v # xs)) = []" by (rule firsts_known)
    with False show ?thesis by (simp add: step)
  next
    case True
    have IH: "(case foldR step xs (r', s') of Inl r \<Rightarrow> r | Inr (r, s) \<Rightarrow> r)
        = r' @ firsts f (f ` set r') (filter (\<lambda>v. others (f v)) xs)"
      if "ok s'" "\<And>k. inr r' s' k \<longleftrightarrow> k \<in> f ` set r'" "distinct (map f r')" "f ` set r' \<subseteq> f ` set B" for r' s'
      using Cons.IH [OF _ that] Cons.prems(1) by simp
    show ?thesis
    proof (cases "f v \<notin> f ` set r \<and> others (f v)")
      case new: True
      then have "(case foldR step xs (r @ [v], push s (f v)) of Inl r \<Rightarrow> r | Inr (r, s) \<Rightarrow> r)
          = (r @ [v]) @ firsts f (f ` set (r @ [v])) (filter (\<lambda>v. others (f v)) xs)"
        using rep [OF Cons.prems(2,3), of v] Cons.prems(1,4,5) by (intro IH) auto
      with new True show ?thesis by (simp add: step Cons.prems(3))
    next
      case False
      then have "step v (r, s) = Inr (r, s)" using True by (auto simp: step Cons.prems(3))
      with False IH [OF Cons.prems(2,3,4,5)] show ?thesis by auto
    qed
  qed
qed simp

text \<open>
  C25: \<open>baseIntersection\<close> of one or more arrays returns the elements of the first array whose key is
  a key of every other array, each key once and the first element for it: with caches or without,
  and although the loop ends as soon as the result is as long as the shortest array.
\<close>

theorem intersection_elements:
  assumes "env_ok env"
  shows "baseIntersection env (a # others) iteratee None
    = Inr (firsts (computed_by iteratee) {}
        (filter (\<lambda>v. \<forall>b\<in>set others. computed_by iteratee v \<in> computed_by iteratee ` set b) a))"
proof -
  let ?f = "computed_by iteratee" and ?arrays = "a # others"
  obtain k where k: "k < length ?arrays" "intersection_caches env ?arrays iteratee False =
    (map (\<lambda>i. if iteratee \<noteq> None \<or> (length (?arrays ! 0) \<ge> 120 \<and> length (?arrays ! i) \<ge> 120)
         then Some (SetCache env (if i \<noteq> 0 then map ?f (?arrays ! i) else []))
         else None) [0..<length ?arrays], Some (length (?arrays ! k)))"
    using intersection_caches_eq [of ?arrays env iteratee] by blast
  define caches where "caches = fst (intersection_caches env ?arrays iteratee False)"
  define B where "B = ?arrays ! k"
  have caches: "intersection_caches env ?arrays iteratee False = (caches, Some (length B))"
    using k(2) by (simp add: caches_def B_def)
  have cache: "caches ! i = (if iteratee \<noteq> None \<or> (length (?arrays ! 0) \<ge> 120 \<and> length (?arrays ! i) \<ge> 120)
      then Some (SetCache env (if i \<noteq> 0 then map ?f (?arrays ! i) else [])) else None)" if "i < length ?arrays" for i
    using that unfolding caches_def k(2) fst_conv by (subst nth_map) (simp_all del: upt.simps)
  let ?others = "\<lambda>c. \<forall>i\<in>set (rev [1..<length ?arrays]). in_array env None (caches ! i) (?arrays ! i) c"
  let ?step = "\<lambda>v (r, s). if \<not> length r < length B then Inl r
       else if \<not> in_array env None s r (?f v) then
         if \<exists>i\<in>set (rev [1..<length ?arrays]). \<not> in_array env None (caches ! i) (?arrays ! i) (?f v)
         then Inr (r, s) else Inr (r @ [v], map_option (\<lambda>c. cachePush env c (?f v)) s)
       else Inr (r, s)"
  have base: "baseIntersection env ?arrays iteratee None
      = Inr (case foldR ?step a ([], caches ! 0) of Inl r \<Rightarrow> r | Inr (r, s) \<Rightarrow> r)"
    unfolding baseIntersection_def foldR_nth [of ?step a, symmetric] Let_def nth_Cons_0
    by (simp add: caches del: upt.simps)
  have member: "in_array env None (caches ! i) (?arrays ! i) (?f v) \<longleftrightarrow> ?f v \<in> ?f ` set (?arrays ! i)"
    if "0 < i" "i < length ?arrays" for i v
    using that cache [of i] by (auto simp: in_array_def SetCache_members [OF assms] lodash_fun computed_by_None')
  then have others: "?others (?f v) \<longleftrightarrow> (\<forall>b\<in>set others. ?f v \<in> ?f ` set b)" for v
  proof -
    have "set (rev [1..<length ?arrays]) = {i. 0 < i \<and> i < length ?arrays}" unfolding set_rev set_upt by auto
    then have "?others (?f v) \<longleftrightarrow> (\<forall>i. 0 < i \<and> i < length ?arrays \<longrightarrow> ?f v \<in> ?f ` set (?arrays ! i))"
      using member by blast
    also have "\<dots> \<longleftrightarrow> (\<forall>i<length others. ?f v \<in> ?f ` set (others ! i))"
      by (auto simp: nth_Cons split: nat.splits)
    finally show ?thesis by (simp add: all_set_conv_all_nth)
  qed
  have "(case foldR ?step a ([], caches ! 0) of Inl r \<Rightarrow> r | Inr (r, s) \<Rightarrow> r)
      = [] @ firsts ?f (?f ` set []) (filter (\<lambda>v. ?others (?f v)) a)"
  proof (rule intersection_loop [where B = B and inr = "\<lambda>r s. in_array env None s r"
        and push = "\<lambda>s c. map_option (\<lambda>m. cachePush env m c) s"
        and ok = "\<lambda>s. case s of Some c \<Rightarrow> set_ok env c | None \<Rightarrow> iteratee = None"])
    show "case caches ! 0 of Some c \<Rightarrow> set_ok env c | None \<Rightarrow> iteratee = None"
      using cache [of 0] SetCache_ok [OF assms] by auto
    show "in_array env None (caches ! 0) [] c \<longleftrightarrow> c \<in> ?f ` set []" for c
      using cache [of 0] by (simp add: in_array_def SetCache_members [OF assms] lodash_fun)
    show "?f v \<in> ?f ` set B" if "v \<in> set a" "?others (?f v)" for v
      using that k(1) others [of v] unfolding B_def by (cases k) auto
  qed (auto simp: in_array_def lodash_fun setcache.wf_add setcache.member_add computed_by_None' split: option.splits)
  then show ?thesis unfolding base others by simp
qed

theorem intersection_elements_witness:
  "baseIntersection modern_env [[NaNv, Null, NaNv, Number 1], [Number 1, NaNv]] None None = Inr [NaNv, Number 1]"
proof -
  have "env_ok modern_env" by (simp add: env_ok_def modern_env_def HASH_UNDEFINED_def)
  then show ?thesis using intersection_elements [of modern_env "[NaNv, Null, NaNv, Number 1]" "[[Number 1, NaNv]]" None]
    by (simp add: computed_by_None')
qed

end
