(* ===== verification/Lodash_Sorted.thy ===== *)
theory Lodash_Sorted
  imports Lodash_Sets
begin

text \<open>
  The functions of lodash on sorted arrays: the binary searches \<open>baseSortedIndex\<close> and
  \<open>baseSortedIndexBy\<close> with the public functions on them, and \<open>sortedUniq\<close>. The comparison
  operators of the language are modelled on primitive values; \<open>prim\<close> is the primitive value an
  object converts to and \<open>strnum\<close> the number a string converts to, which both are parameters:
  the first runs code of the object, the second is the grammar of numeric literals.
\<close>

section \<open>Comparison operators\<close>

record conversions =
  prim :: "nat \<Rightarrow> jsval"
  strnum :: "string \<Rightarrow> jsnum"

fun to_primitive :: "conversions \<Rightarrow> jsval \<Rightarrow> jsval" where
  "to_primitive cv (Ref r) = prim cv r"
| "to_primitive cv v = v"

fun to_number :: "conversions \<Rightarrow> jsval \<Rightarrow> jsnum" where
  "to_number cv Undefined = NaN"
| "to_number cv Null = Num 0"
| "to_number cv (Boolean b) = Num (if b then 1 else 0)"
| "to_number cv NaNv = NaN"
| "to_number cv (Number i) = Num i"
| "to_number cv (String s) = strnum cv s"
| "to_number cv (Ref r) = NaN"

fun str_less :: "string \<Rightarrow> string \<Rightarrow> bool" where
  "str_less xs [] = False"
| "str_less [] (y # ys) = True"
| "str_less (x # xs) (y # ys) = (code_of x < code_of y \<or> x = y \<and> str_less xs ys)"

text \<open>\<open>a < b\<close> and \<open>a <= b\<close>.\<close>

definition js_lt :: "conversions \<Rightarrow> jsval \<Rightarrow> jsval \<Rightarrow> bool" where
  "js_lt cv a b = (case (to_primitive cv a, to_primitive cv b) of
     (String s, String t) \<Rightarrow> str_less s t
   | (x, y) \<Rightarrow> (case (to_number cv x, to_number cv y) of (Num m, Num n) \<Rightarrow> m < n | _ \<Rightarrow> False))"

definition js_le :: "conversions \<Rightarrow> jsval \<Rightarrow> jsval \<Rightarrow> bool" where
  "js_le cv a b = (case (to_primitive cv a, to_primitive cv b) of
     (String s, String t) \<Rightarrow> \<not> str_less t s
   | (x, y) \<Rightarrow> (case (to_number cv x, to_number cv y) of (Num m, Num n) \<Rightarrow> m \<le> n | _ \<Rightarrow> False))"

section \<open>The functions\<close>

definition MAX_ARRAY_INDEX :: nat where
  "MAX_ARRAY_INDEX = 4294967294"

definition HALF_MAX_ARRAY_LENGTH :: nat where
  "HALF_MAX_ARRAY_LENGTH = 2147483647"

text \<open>
  The condition under which the search moves its lower end, with the variables \<open>valIsNaN\<close>,
  \<open>valIsNull\<close> and \<open>valIsUndef\<close> of the source.
\<close>

definition setLow :: "conversions \<Rightarrow> jsval \<Rightarrow> bool \<Rightarrow> jsval \<Rightarrow> bool" where
  "setLow cv value retHighest computed =
     (let valIsNaN = \<not> strict_eq value value;
          valIsNull = strict_eq value Null;
          valIsUndef = strict_eq value Undefined;
          isDef = \<not> strict_eq computed Undefined;
          isReflexive = strict_eq computed computed
      in if valIsNaN then isReflexive \<or> retHighest
         else if valIsNull then isReflexive \<and> isDef \<and> (retHighest \<or> \<not> nullish computed)
         else if valIsUndef then isReflexive \<and> (retHighest \<or> isDef)
         else if nullish computed then False
         else if retHighest then js_le cv computed value else js_lt cv computed value)"

function sortedIndexBy_loop :: "(nat \<Rightarrow> bool) \<Rightarrow> nat \<Rightarrow> nat \<Rightarrow> nat" where
  "sortedIndexBy_loop low_at low high =
     (if low < high then
        let mid = (low + high) div 2 in
        if low_at mid then sortedIndexBy_loop low_at (mid + 1) high
        else sortedIndexBy_loop low_at low mid
      else high)"
  by pat_completeness auto
termination
  by (relation "measure (\<lambda>(_, low, high). high - low)") auto

declare sortedIndexBy_loop.simps [simp del, code]

definition baseSortedIndexBy :: "conversions \<Rightarrow> array option \<Rightarrow> jsval \<Rightarrow> (jsval \<Rightarrow> jsval) \<Rightarrow> bool \<Rightarrow> nat"
where
  "baseSortedIndexBy cv array value iteratee retHighest =
     (let value = iteratee value;
          a = (case array of Some a \<Rightarrow> a | None \<Rightarrow> []);
          high = sortedIndexBy_loop (\<lambda>mid. setLow cv value retHighest (iteratee (a ! mid))) 0 (length a)
      in min high MAX_ARRAY_INDEX)"

text \<open>
  The loop of \<open>baseSortedIndex\<close> takes the middle by \<open>(low + high) >>> 1\<close>, which wraps around at 32
  bits; not to return is the value \<open>None\<close>.
\<close>

partial_function (option) sortedIndex_loop :: "(nat \<Rightarrow> bool) \<Rightarrow> nat \<Rightarrow> nat \<Rightarrow> nat option" where
  "sortedIndex_loop low_at low high =
     (if low < high then
        if low_at (nat (uint32 (int (low + high))) div 2)
        then sortedIndex_loop low_at (nat (uint32 (int (low + high))) div 2 + 1) high
        else sortedIndex_loop low_at low (nat (uint32 (int (low + high))) div 2)
      else Some high)"

definition baseSortedIndex :: "conversions \<Rightarrow> array option \<Rightarrow> jsval \<Rightarrow> bool \<Rightarrow> nat option" where
  "baseSortedIndex cv array value retHighest =
     (let a = (case array of Some a \<Rightarrow> a | None \<Rightarrow> []) in
      if typeof value = TNumber \<and> strict_eq value value \<and> length a \<le> HALF_MAX_ARRAY_LENGTH
      then sortedIndex_loop (\<lambda>mid. let computed = a ! mid in
             (if retHighest then js_le cv computed value else js_lt cv computed value)
             \<and> \<not> strict_eq computed Null) 0 (length a)
      else Some (baseSortedIndexBy cv array value (\<lambda>v. v) retHighest))"

definition baseSortedUniqBy :: "array \<Rightarrow> (jsval \<Rightarrow> jsval) option \<Rightarrow> array" where
  "baseSortedUniqBy array iteratee =
     (let value = arr_at array 0;
          computed = computed_by iteratee value
      in (\<lambda>(seen, resIndex, result). result)
           (fold (\<lambda>index (seen, resIndex, result).
              let value = array ! index; computed = computed_by iteratee value in
              if \<not> eq computed seen then (computed, resIndex + 1, arr_set result resIndex value)
              else (seen, resIndex, result)) [1..<length array] (computed, 1, [value])))"

definition baseSortedUniq :: "array \<Rightarrow> array" where
  "baseSortedUniq array = baseSortedUniqBy array None"

definition sortedIndex :: "conversions \<Rightarrow> array option \<Rightarrow> jsval \<Rightarrow> nat option" where
  "sortedIndex cv array value = baseSortedIndex cv array value False"

definition sortedIndexBy :: "conversions \<Rightarrow> array option \<Rightarrow> jsval \<Rightarrow> (jsval \<Rightarrow> jsval) \<Rightarrow> nat" where
  "sortedIndexBy cv array value iteratee = baseSortedIndexBy cv array value iteratee False"

definition sortedIndexOf :: "conversions \<Rightarrow> array option \<Rightarrow> jsval \<Rightarrow> int option" where
  "sortedIndexOf cv array value =
     when_elements array (\<lambda>a.
       map_option (\<lambda>index. if index < length a \<and> eq (a ! index) value then int index else - 1)
         (baseSortedIndex cv array value False)) (Some (- 1))"

definition sortedLastIndex :: "conversions \<Rightarrow> array option \<Rightarrow> jsval \<Rightarrow> nat option" where
  "sortedLastIndex cv array value = baseSortedIndex cv array value True"

definition sortedLastIndexBy :: "conversions \<Rightarrow> array option \<Rightarrow> jsval \<Rightarrow> (jsval \<Rightarrow> jsval) \<Rightarrow> nat" where
  "sortedLastIndexBy cv array value iteratee = baseSortedIndexBy cv array value iteratee True"

definition sortedLastIndexOf :: "conversions \<Rightarrow> array option \<Rightarrow> jsval \<Rightarrow> int option" where
  "sortedLastIndexOf cv array value =
     when_elements array (\<lambda>a.
       map_option (\<lambda>high. let index = int high - 1 in
           if eq (arr_at a index) value then index else - 1)
         (baseSortedIndex cv array value True)) (Some (- 1))"

definition sortedUniq :: "array option \<Rightarrow> array" where
  "sortedUniq array = when_elements array baseSortedUniq []"

definition sortedUniqBy :: "array option \<Rightarrow> (jsval \<Rightarrow> jsval) \<Rightarrow> array" where
  "sortedUniqBy array iteratee = when_elements array (\<lambda>a. baseSortedUniqBy a (Some iteratee)) []"

section \<open>Binary search\<close>

text \<open>A predicate that holds up to some point and not from there on.\<close>

definition falling :: "(nat \<Rightarrow> bool) \<Rightarrow> nat \<Rightarrow> bool" where
  "falling p n \<longleftrightarrow> (\<forall>i j. i \<le> j \<longrightarrow> j < n \<longrightarrow> p j \<longrightarrow> p i)"

lemma sortedIndexBy_loop_bounds:
  "low \<le> high \<Longrightarrow> low \<le> sortedIndexBy_loop p low high \<and> sortedIndexBy_loop p low high \<le> high"
proof (induction p low high rule: sortedIndexBy_loop.induct)
  case (1 p low high)
  show ?case
  proof (cases "low < high")
    case True
    let ?mid = "(low + high) div 2"
    have "low \<le> ?mid" "?mid < high" using True by auto
    with 1 True show ?thesis by (subst (1 2) sortedIndexBy_loop.simps) (auto simp: Let_def)
  qed (use 1 in \<open>simp add: sortedIndexBy_loop.simps\<close>)
qed

lemma sortedIndexBy_loop_boundary:
  assumes "falling p n" "low \<le> high" "high \<le> n"
    "\<And>i. i < low \<Longrightarrow> p i" "\<And>i. high \<le> i \<Longrightarrow> i < n \<Longrightarrow> \<not> p i"
  shows "(\<forall>i. i < sortedIndexBy_loop p low high \<longrightarrow> p i) \<and>
    (\<forall>i. sortedIndexBy_loop p low high \<le> i \<longrightarrow> i < n \<longrightarrow> \<not> p i)"
  using assms
proof (induction p low high rule: sortedIndexBy_loop.induct)
  case (1 p low high)
  show ?case
  proof (cases "low < high")
    case True
    let ?mid = "(low + high) div 2"
    have mid: "low \<le> ?mid" "?mid < high" using True by auto
    show ?thesis
    proof (cases "p ?mid")
      case yes: True
      then have "\<And>i. i < ?mid + 1 \<Longrightarrow> p i"
        using 1(3,5) mid unfolding falling_def by (metis less_Suc_eq_le Suc_eq_plus1 less_le_trans)
      with 1(1) [OF True refl yes] 1(3-) yes True mid show ?thesis
        by (subst (1 2) sortedIndexBy_loop.simps) (simp add: Let_def)
    next
      case no: False
      then have "\<And>i. ?mid \<le> i \<Longrightarrow> i < n \<Longrightarrow> \<not> p i" using 1(3) by (auto simp: falling_def)
      with 1(2) [OF True refl no] 1(3-) no True mid show ?thesis
        by (subst (1 2) sortedIndexBy_loop.simps) (simp add: Let_def)
    qed
  next
    case False
    with 1(3-) show ?thesis by (subst (1 2) sortedIndexBy_loop.simps) auto
  qed
qed

text \<open>Within half the array length limit the middle does not wrap, and the two loops agree.\<close>

lemma sortedIndex_loop_eq:
  "high \<le> HALF_MAX_ARRAY_LENGTH \<Longrightarrow> sortedIndex_loop p low high = Some (sortedIndexBy_loop p low high)"
proof (induction p low high rule: sortedIndexBy_loop.induct)
  case (1 p low high)
  show ?case
  proof (cases "low < high")
    case True
    have "int (low + high) \<le> MAX_ARRAY_LENGTH"
      using True 1(3) by (simp add: HALF_MAX_ARRAY_LENGTH_def MAX_ARRAY_LENGTH_def)
    then have "nat (uint32 (int (low + high))) = low + high" by (subst uint32_id) simp_all
    with 1 True show ?thesis
      by (subst sortedIndexBy_loop.simps, subst sortedIndex_loop.simps) (auto simp: Let_def)
  qed (subst sortedIndexBy_loop.simps, subst sortedIndex_loop.simps, simp)
qed

text \<open>The test of the fast path is the general one for a number.\<close>

lemma setLow_number:
  assumes "typeof value = TNumber" "strict_eq value value"
  shows "setLow cv value retHighest computed \<longleftrightarrow>
    (if retHighest then js_le cv computed value else js_lt cv computed value) \<and> \<not> strict_eq computed Null"
proof -
  obtain n where "value = Number n" using assms by (cases "value") auto
  then show ?thesis
    by (cases computed) (auto simp: setLow_def Let_def strict_eq_def nullish_def js_lt_def js_le_def)
qed

lemma baseSortedIndex_eq:
  assumes "js_array (case array of Some a \<Rightarrow> a | None \<Rightarrow> [])"
  shows "baseSortedIndex cv array value retHighest = Some (baseSortedIndexBy cv array value (\<lambda>v. v) retHighest)"
proof -
  let ?a = "case array of Some a \<Rightarrow> a | None \<Rightarrow> []"
  show ?thesis
  proof (cases "typeof value = TNumber \<and> strict_eq value value \<and> length ?a \<le> HALF_MAX_ARRAY_LENGTH")
    case True
    let ?p = "\<lambda>mid. setLow cv value retHighest (?a ! mid)"
    have "sortedIndexBy_loop ?p 0 (length ?a) \<le> MAX_ARRAY_INDEX"
      using sortedIndexBy_loop_bounds [of 0 "length ?a" ?p] True
      by (simp add: HALF_MAX_ARRAY_LENGTH_def MAX_ARRAY_INDEX_def)
    with True show ?thesis
      by (simp add: baseSortedIndex_def baseSortedIndexBy_def setLow_number sortedIndex_loop_eq Let_def)
  qed (auto simp: baseSortedIndex_def Let_def)
qed

text \<open>
  The binary search of \<open>sortedIndex\<close> and \<open>sortedLastIndex\<close> always returns, and its fast path for
  numbers, which takes the middle with a 32-bit shift and tests less, finds the same position as
  the general search with the identity, for every array and every value.
\<close>

lemma sortedIndex_fast_path:
  assumes "js_array a"
  shows "baseSortedIndex cv (Some a) value retHighest
    = Some (baseSortedIndexBy cv (Some a) value (\<lambda>v. v) retHighest)"
  using baseSortedIndex_eq [of "Some a"] assms by simp

text \<open>Where the search ends in an array for which the test changes once.\<close>

lemma baseSortedIndexBy_boundary:
  assumes "length a \<le> MAX_ARRAY_INDEX"
    and "falling (\<lambda>i. setLow cv (f value) retHighest (f (a ! i))) (length a)"
  shows "baseSortedIndexBy cv (Some a) value f retHighest \<le> length a
    \<and> (\<forall>i. i < baseSortedIndexBy cv (Some a) value f retHighest \<longrightarrow> setLow cv (f value) retHighest (f (a ! i)))
    \<and> (\<forall>i. baseSortedIndexBy cv (Some a) value f retHighest \<le> i \<longrightarrow> i < length a
        \<longrightarrow> \<not> setLow cv (f value) retHighest (f (a ! i)))"
proof -
  let ?p = "\<lambda>i. setLow cv (f value) retHighest (f (a ! i))"
  have "sortedIndexBy_loop ?p 0 (length a) \<le> length a" using sortedIndexBy_loop_bounds [of 0 "length a" ?p] by simp
  moreover from this have eq: "baseSortedIndexBy cv (Some a) value f retHighest = sortedIndexBy_loop ?p 0 (length a)"
    using assms(1) by (simp add: baseSortedIndexBy_def)
  moreover have "(\<forall>i. i < sortedIndexBy_loop ?p 0 (length a) \<longrightarrow> ?p i)
      \<and> (\<forall>i. sortedIndexBy_loop ?p 0 (length a) \<le> i \<longrightarrow> i < length a \<longrightarrow> \<not> ?p i)"
    by (rule sortedIndexBy_loop_boundary [OF assms(2)]) simp_all
  ultimately show ?thesis unfolding eq by blast
qed

definition setLow_num :: "int \<Rightarrow> bool \<Rightarrow> int \<Rightarrow> bool" where
  "setLow_num x retHighest n = (if retHighest then n \<le> x else n < x)"

lemma setLow_Number [simp]: "setLow cv (Number x) retHighest (Number n) = setLow_num x retHighest n"
  by (simp add: setLow_def strict_eq_def nullish_def js_lt_def js_le_def setLow_num_def)

lemma sortedIndex_numbers:
  assumes "sorted ns" "length ns \<le> MAX_ARRAY_INDEX" "a = map Number ns"
  obtains r where "baseSortedIndex cv (Some a) (Number x) retHighest = Some r" "r \<le> length ns"
    "\<And>i. i < r \<Longrightarrow> setLow_num x retHighest (ns ! i)"
    "\<And>i. r \<le> i \<Longrightarrow> i < length ns \<Longrightarrow> \<not> setLow_num x retHighest (ns ! i)"
proof -
  let ?r = "baseSortedIndexBy cv (Some a) (Number x) (\<lambda>v. v) retHighest"
  have at: "\<And>i. i < length ns \<Longrightarrow> setLow cv (Number x) retHighest (a ! i) = setLow_num x retHighest (ns ! i)"
    by (simp add: assms(3))
  have "falling (\<lambda>i. setLow cv (Number x) retHighest (a ! i)) (length a)"
    using assms(1) unfolding falling_def
    by (auto simp: at assms(3) setLow_num_def sorted_iff_nth_mono intro: le_less_trans order_trans)
  then have b: "?r \<le> length ns" "\<And>i. i < ?r \<Longrightarrow> setLow cv (Number x) retHighest (a ! i)"
    "\<And>i. ?r \<le> i \<Longrightarrow> i < length ns \<Longrightarrow> \<not> setLow cv (Number x) retHighest (a ! i)"
    using baseSortedIndexBy_boundary [of a cv "\<lambda>v. v" "Number x" retHighest] assms(2,3) by auto
  have "js_array a" using assms(2,3) by (simp add: js_array_def MAX_ARRAY_LENGTH_def MAX_ARRAY_INDEX_def)
  then have "baseSortedIndex cv (Some a) (Number x) retHighest = Some ?r" using baseSortedIndex_eq [of "Some a"] by simp
  with b at that [of ?r] show thesis by (metis less_le_trans)
qed

text \<open>
  On a sorted array of numbers, \<open>sortedIndex\<close> returns the position before which all elements are
  smaller and from which on none is, and inserting the number there keeps the array sorted.
\<close>

lemma sortedIndex_position:
  assumes "sorted ns" "length ns \<le> MAX_ARRAY_INDEX"
  shows "\<exists>r\<le>length ns. sortedIndex cv (Some (map Number ns)) (Number x) = Some r
    \<and> (\<forall>i<length ns. ns ! i < x \<longleftrightarrow> i < r) \<and> sorted (take r ns @ x # drop r ns)"
proof -
  obtain r where r: "sortedIndex cv (Some (map Number ns)) (Number x) = Some r" "r \<le> length ns"
    "\<And>i. i < r \<Longrightarrow> ns ! i < x" "\<And>i. r \<le> i \<Longrightarrow> i < length ns \<Longrightarrow> \<not> ns ! i < x"
    unfolding sortedIndex_def by (rule sortedIndex_numbers [OF assms refl, of cv x False]) (simp add: setLow_num_def)
  have "\<And>y. y \<in> set (take r ns) \<Longrightarrow> y < x" using r(2,3) by (auto simp: in_set_conv_nth)
  moreover have "\<And>y. y \<in> set (drop r ns) \<Longrightarrow> x \<le> y"
    using r(2,4) by (auto simp: in_set_conv_nth not_less)
  moreover have "sorted (take r ns @ drop r ns)" using assms(1) by simp
  ultimately have "sorted (take r ns @ x # drop r ns)"
    unfolding sorted_append by (auto simp del: append_take_drop_id intro: less_imp_le)
  with r show ?thesis by (metis not_le)
qed

lemma indexOf_from_start: "indexOf (Some a) v (Num 0) = search (\<lambda>i. a ! i = v) [0..<length a]"
  by (simp add: indexOf_search norm_start_def)

lemma lastIndexOf_from_end:
  "lastIndexOf (Some a) v Undef = search (\<lambda>i. a ! i = v) (rev [0..<length a])"
proof -
  have "search (\<lambda>i. strict_eq (arr_at a (int i)) v) (rev [0..<length a]) = search (\<lambda>i. a ! i = v) (rev [0..<length a])"
    if "v \<noteq> NaNv" using that by (intro search_cong) (auto simp: arr_at_def strict_eq_def)
  moreover have "search (\<lambda>i. arr_at a (int i) = NaNv) (rev [0..<length a]) = search (\<lambda>i. a ! i = NaNv) (rev [0..<length a])"
    by (intro search_cong) (auto simp: arr_at_def)
  ultimately show ?thesis by (auto simp: lastIndexOf_def when_elements_def indexOfNaN_def Let_def)
qed

text \<open>
  C30: On a sorted array of numbers the binary searches agree with the linear ones: \<open>sortedIndexOf\<close>
  returns what \<open>indexOf\<close> returns, and \<open>sortedLastIndexOf\<close> what \<open>lastIndexOf\<close> returns.
\<close>

theorem sortedIndexOf_linear:
  assumes "sorted ns" "length ns \<le> MAX_ARRAY_INDEX"
  shows "sortedIndexOf cv (Some (map Number ns)) (Number x) = Some (indexOf (Some (map Number ns)) (Number x) (Num 0))
    \<and> sortedLastIndexOf cv (Some (map Number ns)) (Number x) = Some (lastIndexOf (Some (map Number ns)) (Number x) Undef)"
proof
  let ?a = "map Number ns"
  have first: "indexOf (Some ?a) (Number x) (Num 0) = search (\<lambda>i. ns ! i = x) [0..<length ns]"
    unfolding indexOf_from_start length_map by (intro search_cong) simp
  have final: "lastIndexOf (Some ?a) (Number x) Undef = search (\<lambda>i. ns ! i = x) (rev [0..<length ns])"
    unfolding lastIndexOf_from_end length_map by (intro search_cong) simp
  obtain r where r: "baseSortedIndex cv (Some ?a) (Number x) False = Some r" "r \<le> length ns"
    "\<And>i. i < r \<Longrightarrow> ns ! i < x" "\<And>i. r \<le> i \<Longrightarrow> i < length ns \<Longrightarrow> \<not> ns ! i < x"
    by (rule sortedIndex_numbers [OF assms refl, of cv x False]) (simp add: setLow_num_def)
  have "search (\<lambda>i. ns ! i = x) [0..<length ns] = (if r < length ns \<and> ns ! r = x then int r else - 1)"
  proof (cases "r < length ns \<and> ns ! r = x")
    case True
    then have "search (\<lambda>i. ns ! i = x) [0..<length ns] = int r" unfolding search_upt by (auto dest: r(3))
    with True show ?thesis by simp
  next
    case False
    have "ns ! i \<noteq> x" if "i < length ns" for i
      using r(3) [of i] r(4) [of r] False that sorted_nth_mono [OF assms(1), of r i] by (cases "i < r") auto
    then show ?thesis unfolding if_not_P [OF False] search_none_iff by simp
  qed
  then show "sortedIndexOf cv (Some ?a) (Number x) = Some (indexOf (Some ?a) (Number x) (Num 0))"
    by (auto simp: sortedIndexOf_def when_elements_def r(1) first)
  obtain h where h: "baseSortedIndex cv (Some ?a) (Number x) True = Some h" "h \<le> length ns"
    "\<And>i. i < h \<Longrightarrow> ns ! i \<le> x" "\<And>i. h \<le> i \<Longrightarrow> i < length ns \<Longrightarrow> \<not> ns ! i \<le> x"
    by (rule sortedIndex_numbers [OF assms refl, of cv x True]) (simp add: setLow_num_def)
  have last: "search (\<lambda>i. ns ! i = x) (rev [0..<length ns]) = (if h \<noteq> 0 \<and> ns ! (h - 1) = x then int (h - 1) else - 1)"
  proof (cases "h \<noteq> 0 \<and> ns ! (h - 1) = x")
    case True
    then have "search (\<lambda>i. ns ! i = x) (rev [0..<length ns]) = int (h - 1)"
      unfolding search_downt using h(2) by (auto dest: h(4) [rotated])
    with True show ?thesis by simp
  next
    case False
    have "ns ! i \<noteq> x" if "i < length ns" for i
    proof (cases "i < h")
      case True
      then have "ns ! i \<le> ns ! (h - 1)" using h(2) by (intro sorted_nth_mono [OF assms(1)]) linarith+
      with True h(3) [of "h - 1"] False show ?thesis by auto
    qed (use h(4) [of i] that in auto)
    then show ?thesis unfolding if_not_P [OF False] search_none_iff by simp
  qed
  have at: "arr_at ?a (int h - 1) = (if h \<noteq> 0 then Number (ns ! (h - 1)) else Undefined)"
    using h(2) by (auto simp: arr_at_def nat_diff_distrib)
  show "sortedLastIndexOf cv (Some ?a) (Number x) = Some (lastIndexOf (Some ?a) (Number x) Undef)"
  proof (cases "ns = []")
    case False
    then show ?thesis
      by (simp add: sortedLastIndexOf_def when_elements_def h(1) final last at Let_def of_nat_diff)
  qed (simp add: sortedLastIndexOf_def lastIndexOf_def when_elements_def)
qed

theorem sortedIndexOf_linear_witness:
  "sortedIndexOf \<lparr>prim = (\<lambda>_. Undefined), strnum = (\<lambda>_. NaN)\<rparr> (Some (map Number [4, 5, 5, 5, 6])) (Number 5) = Some 1
   \<and> sortedLastIndexOf \<lparr>prim = (\<lambda>_. Undefined), strnum = (\<lambda>_. NaN)\<rparr> (Some (map Number [4, 5, 5, 5, 6])) (Number 5) = Some 3"
  using sortedIndexOf_linear [of "[4, 5, 5, 5, 6]" "\<lparr>prim = (\<lambda>_. Undefined), strnum = (\<lambda>_. NaN)\<rparr>" 5]
  by (simp add: MAX_ARRAY_INDEX_def indexOf_from_start lastIndexOf_from_end upt_rec)

section \<open>Duplicates in sorted arrays\<close>

fun adjacent :: "(jsval \<Rightarrow> jsval) \<Rightarrow> jsval \<Rightarrow> array \<Rightarrow> array" where
  "adjacent f seen [] = []"
| "adjacent f seen (v # vs) = (if f v = seen then adjacent f seen vs else v # adjacent f (f v) vs)"

lemma sortedUniq_loop:
  "(\<lambda>(seen, resIndex, result). result)
     (fold (\<lambda>value (seen, resIndex, result).
        let computed = f value in
        if \<not> eq computed seen then (computed, resIndex + 1, arr_set result resIndex value)
        else (seen, resIndex, result)) vs (seen, length r, r)) = r @ adjacent f seen vs"
proof (induction vs arbitrary: seen r)
  case (Cons v vs)
  then show ?case using Cons.IH [of "f v" "r @ [v]"] by (auto simp: Let_def)
qed simp

lemma baseSortedUniqBy_Cons:
  "baseSortedUniqBy (v # vs) iteratee = v # adjacent (computed_by iteratee) (computed_by iteratee v) vs"
proof -
  let ?f = "computed_by iteratee"
  let ?step = "\<lambda>value (seen, resIndex, result).
        let computed = ?f value in
        if \<not> eq computed seen then (computed, resIndex + 1, arr_set result resIndex value)
        else (seen, resIndex, result)"
  have "fold (\<lambda>i. ?step ((v # vs) ! i)) [1..<length (v # vs)] (?f v, 1, [v]) = fold ?step vs (?f v, 1, [v])"
    by (rule fold_nth_tail)
  then show ?thesis using sortedUniq_loop [of ?f vs "?f v" "[v]"]
    unfolding baseSortedUniqBy_def Let_def by (simp add: arr_at_def)
qed

lemma adjacent_firsts:
  assumes "map f vs = map Number ns" "sorted (n # ns)" "Number n \<in> S" "\<And>k. k \<in> S \<Longrightarrow> \<exists>m\<le>n. k = Number m"
  shows "adjacent f (Number n) vs = firsts f S vs"
  using assms
proof (induction vs arbitrary: n ns S)
  case (Cons v vs)
  then obtain m ms where ns: "ns = m # ms" "f v = Number m" "map f vs = map Number ms" "n \<le> m" by (cases ns) auto
  show ?case
  proof (cases "m = n")
    case True
    with Cons.IH [of ms n S] Cons.prems ns show ?thesis by auto
  next
    case False
    then have "Number m \<notin> S" using Cons.prems(4) [of "Number m"] ns(4) by auto
    moreover have "adjacent f (Number m) vs = firsts f (insert (Number m) S) vs"
    proof (rule Cons.IH [OF ns(3)])
      show "sorted (m # ms)" using Cons.prems(2) ns(1) by simp
      show "\<exists>m'\<le>m. k = Number m'" if "k \<in> insert (Number m) S" for k
        using that Cons.prems(4) [of k] ns(4) by force
    qed simp
    ultimately show ?thesis using False ns(2) by simp
  qed
qed simp

text \<open>
  On an array that is sorted by the numbers the iteratee computes, \<open>sortedUniqBy\<close>, which only
  compares neighbours, returns what \<open>uniqBy\<close> returns.
\<close>

lemma sortedUniq_is_uniq:
  assumes "env_ok env" "map f a = map Number ns" "sorted ns"
  shows "sortedUniqBy (Some a) f = uniqBy env (Some a) f"
proof (cases a)
  case (Cons v vs)
  then obtain m ms where "ns = m # ms" "f v = Number m" "map f vs = map Number ms" using assms(2) by (cases ns) auto
  with assms(3) adjacent_firsts [of f vs ms m "{Number m}"] Cons show ?thesis
    by (simp add: sortedUniqBy_def uniqBy_def when_elements_def baseSortedUniqBy_Cons baseUniq_firsts [OF assms(1)]
        computed_by_Some')
qed (simp add: sortedUniqBy_def uniqBy_def when_elements_def)

end
