(* ===== verification/Lodash_Debounce.thy ===== *)
theory Lodash_Debounce
  imports Js_Value "HOL-Library.Sublist"
begin

text \<open>
  \<open>debounce\<close> and \<open>throttle\<close> of lodash as a state machine. The variables of the closure are a
  record, together with the timers that are pending in the host and a log of the invocations of the
  wrapped function. The inner functions are translated one by one; the events are a call of the
  debounced function, the expiry of a timer, \<open>cancel\<close> and \<open>flush\<close>, each at a time that \<open>now()\<close>
  reports. The wrapped function is a parameter that does not call the debounced function itself.
\<close>

section \<open>Options\<close>

record config =
  wait :: int
  leading :: bool
  maxing :: bool
  maxWait :: int
  trailing :: bool

text \<open>The properties of the argument \<open>options\<close> that are present.\<close>

record options =
  opt_leading :: "bool option"
  opt_maxWait :: "jsnum option"
  opt_trailing :: "bool option"

text \<open>\<open>toNumber(x) || 0\<close>.\<close>

fun number_or_0 :: "jsnum \<Rightarrow> int" where
  "number_or_0 (Num i) = i"
| "number_or_0 _ = 0"

definition debounce :: "('a option \<Rightarrow> 'r) option \<Rightarrow> jsnum \<Rightarrow> options option \<Rightarrow> js_error + config" where
  "debounce func wait' opts =
     (if func = None then Inl TypeError
      else
        let w = number_or_0 wait';
            cfg = \<lparr>wait = w, leading = False, maxing = False, maxWait = 0, trailing = True\<rparr>
        in Inr (case opts of
             None \<Rightarrow> cfg
           | Some o' \<Rightarrow> cfg\<lparr>
               leading := (opt_leading o' = Some True),
               maxing := (opt_maxWait o' \<noteq> None),
               maxWait := (case opt_maxWait o' of Some m \<Rightarrow> max (number_or_0 m) w | None \<Rightarrow> 0),
               trailing := (case opt_trailing o' of Some b \<Rightarrow> b | None \<Rightarrow> True)\<rparr>))"

definition throttle :: "('a option \<Rightarrow> 'r) option \<Rightarrow> jsnum \<Rightarrow> options option \<Rightarrow> js_error + config" where
  "throttle func wait' opts =
     (if func = None then Inl TypeError
      else
        let (lead, trail) = (case opts of
            None \<Rightarrow> (True, True)
          | Some o' \<Rightarrow> (case opt_leading o' of Some b \<Rightarrow> b | None \<Rightarrow> True,
                       case opt_trailing o' of Some b \<Rightarrow> b | None \<Rightarrow> True))
        in debounce func wait'
             (Some \<lparr>opt_leading = Some lead, opt_maxWait = Some wait', opt_trailing = Some trail\<rparr>))"

section \<open>The closure\<close>

text \<open>
  The arguments of a call together with its \<open>this\<close> are one value of type \<open>'a\<close>; \<open>None\<close> is
  \<open>undefined\<close>. The last three fields belong to the host: the pending timers with the time they are
  due, the next timer id, and the invocations of the function with their times.
\<close>

record ('a, 'r) closure =
  lastArgs :: "'a option"
  result :: "'r option"
  timerId :: "nat option"
  lastCallTime :: int
  lastInvokeTime :: int
  timers :: "(nat \<times> int) list"
  fresh :: nat
  calls :: "(int \<times> 'a option) list"

definition init :: "('a, 'r) closure" where
  "init = \<lparr>lastArgs = None, result = None, timerId = None, lastCallTime = 0, lastInvokeTime = 0,
     timers = [], fresh = 1, calls = []\<rparr>"

text \<open>\<open>timerId = setTimeout(timerExpired, delay)\<close> at a time, and \<open>clearTimeout(timerId)\<close>.\<close>

definition set_timer :: "int \<Rightarrow> int \<Rightarrow> ('a, 'r) closure \<Rightarrow> ('a, 'r) closure" where
  "set_timer time delay s =
     s\<lparr>timerId := Some (fresh s), timers := timers s @ [(fresh s, time + delay)], fresh := fresh s + 1\<rparr>"

definition clear_timer :: "('a, 'r) closure \<Rightarrow> ('a, 'r) closure" where
  "clear_timer s = s\<lparr>timers := filter (\<lambda>(i, _). Some i \<noteq> timerId s) (timers s)\<rparr>"

definition invokeFunc :: "('a option \<Rightarrow> 'r) \<Rightarrow> int \<Rightarrow> ('a, 'r) closure \<Rightarrow> ('a, 'r) closure" where
  "invokeFunc func time s =
     (let args = lastArgs s in
      s\<lparr>lastArgs := None, lastInvokeTime := time, result := Some (func args), calls := calls s @ [(time, args)]\<rparr>)"

definition leadingEdge :: "config \<Rightarrow> ('a option \<Rightarrow> 'r) \<Rightarrow> int \<Rightarrow> ('a, 'r) closure \<Rightarrow> ('a, 'r) closure" where
  "leadingEdge cfg func time s =
     (let s = s\<lparr>lastInvokeTime := time\<rparr>;
          s = set_timer time (wait cfg) s
      in if leading cfg then invokeFunc func time s else s)"

definition remainingWait :: "config \<Rightarrow> int \<Rightarrow> ('a, 'r) closure \<Rightarrow> int" where
  "remainingWait cfg time s =
     (let timeSinceLastCall = time - lastCallTime s;
          timeSinceLastInvoke = time - lastInvokeTime s;
          res = wait cfg - timeSinceLastCall
      in if maxing cfg then min res (maxWait cfg - timeSinceLastInvoke) else res)"

definition shouldInvoke :: "config \<Rightarrow> int \<Rightarrow> ('a, 'r) closure \<Rightarrow> bool" where
  "shouldInvoke cfg time s =
     (let timeSinceLastCall = time - lastCallTime s;
          timeSinceLastInvoke = time - lastInvokeTime s
      in lastCallTime s = 0 \<or> timeSinceLastCall \<ge> wait cfg \<or> timeSinceLastCall < 0
         \<or> (maxing cfg \<and> timeSinceLastInvoke \<ge> maxWait cfg))"

definition trailingEdge :: "config \<Rightarrow> ('a option \<Rightarrow> 'r) \<Rightarrow> int \<Rightarrow> ('a, 'r) closure \<Rightarrow> ('a, 'r) closure" where
  "trailingEdge cfg func time s =
     (let s = (clear_timer s)\<lparr>timerId := None\<rparr>
      in if trailing cfg \<and> lastArgs s \<noteq> None then invokeFunc func time s
         else s\<lparr>lastArgs := None\<rparr>)"

definition timerExpired :: "config \<Rightarrow> ('a option \<Rightarrow> 'r) \<Rightarrow> int \<Rightarrow> ('a, 'r) closure \<Rightarrow> ('a, 'r) closure" where
  "timerExpired cfg func time s =
     (if shouldInvoke cfg time s then trailingEdge cfg func time s
      else set_timer time (remainingWait cfg time s) s)"

definition cancel :: "('a, 'r) closure \<Rightarrow> ('a, 'r) closure" where
  "cancel s =
     (let s = (if timerId s \<noteq> None then clear_timer s else s)
      in s\<lparr>lastCallTime := 0, lastInvokeTime := 0, lastArgs := None, timerId := None\<rparr>)"

definition flush :: "config \<Rightarrow> ('a option \<Rightarrow> 'r) \<Rightarrow> int \<Rightarrow> ('a, 'r) closure \<Rightarrow> ('a, 'r) closure" where
  "flush cfg func time s = (if timerId s = None then s else trailingEdge cfg func time s)"

definition debounced :: "config \<Rightarrow> ('a option \<Rightarrow> 'r) \<Rightarrow> int \<Rightarrow> 'a \<Rightarrow> ('a, 'r) closure \<Rightarrow> ('a, 'r) closure" where
  "debounced cfg func time args s =
     (let isInvoking = shouldInvoke cfg time s;
          s = s\<lparr>lastArgs := Some args, lastCallTime := time\<rparr>
      in if isInvoking \<and> timerId s = None then leadingEdge cfg func (lastCallTime s) s
         else if isInvoking \<and> maxing cfg then
           invokeFunc func (lastCallTime s) (set_timer time (wait cfg) (clear_timer s))
         else if timerId s = None then set_timer time (wait cfg) s
         else s)"

section \<open>Events\<close>

datatype 'a event = Call 'a | Fire | Cancel | Flush

text \<open>A timer fires when it is due or later, and is no longer pending then.\<close>

inductive deb_step :: "config \<Rightarrow> ('a option \<Rightarrow> 'r) \<Rightarrow> int \<Rightarrow> 'a event \<Rightarrow>
    ('a, 'r) closure \<Rightarrow> ('a, 'r) closure \<Rightarrow> bool" for cfg func where
  call: "deb_step cfg func t (Call a) s (debounced cfg func t a s)"
| fire: "timers s = xs @ (i, due) # ys \<Longrightarrow> due \<le> t \<Longrightarrow>
    deb_step cfg func t Fire s (timerExpired cfg func t (s\<lparr>timers := xs @ ys\<rparr>))"
| cancel: "deb_step cfg func t Cancel s (cancel s)"
| flush: "deb_step cfg func t Flush s (flush cfg func t s)"

inductive_cases deb_stepE: "deb_step cfg func t e s s'"

text \<open>The states that a sequence of events leads to.\<close>

inductive deb_run :: "config \<Rightarrow> ('a option \<Rightarrow> 'r) \<Rightarrow> (int \<times> 'a event) list \<Rightarrow> ('a, 'r) closure \<Rightarrow> bool"
  for cfg func where
  start: "deb_run cfg func [] init"
| step: "deb_run cfg func es s \<Longrightarrow> deb_step cfg func t e s s' \<Longrightarrow> deb_run cfg func (es @ [(t, e)]) s'"

section \<open>Invariants\<close>

text \<open>
  The closure and the host agree: there is a pending timer exactly when \<open>timerId\<close> is set, it is
  that one and no other, and arguments only wait for it.
\<close>

definition deb_ok :: "('a, 'r) closure \<Rightarrow> bool" where
  "deb_ok s \<longleftrightarrow> (case timerId s of
     None \<Rightarrow> timers s = [] \<and> lastArgs s = None
   | Some i \<Rightarrow> \<exists>due. timers s = [(i, due)])"

lemmas deb_defs = debounced_def timerExpired_def cancel_def flush_def trailingEdge_def leadingEdge_def
  invokeFunc_def set_timer_def clear_timer_def Let_def

lemma deb_ok_init: "deb_ok init"
  by (simp add: deb_ok_def init_def)

lemma deb_ok_cases:
  assumes "deb_ok s"
  obtains "timerId s = None" "timers s = []" "lastArgs s = None"
  | i due where "timerId s = Some i" "timers s = [(i, due)]"
  using assms by (cases "timerId s") (auto simp: deb_ok_def)

lemma deb_ok_debounced: "deb_ok s \<Longrightarrow> deb_ok (debounced cfg func t a s)"
  by (erule deb_ok_cases) (auto simp: deb_defs deb_ok_def)

lemma deb_ok_fired:
  "deb_ok s \<Longrightarrow> timers s = xs @ (i, due) # ys \<Longrightarrow> deb_ok (timerExpired cfg func t (s\<lparr>timers := xs @ ys\<rparr>))"
  by (erule deb_ok_cases) (auto simp: deb_defs deb_ok_def Cons_eq_append_conv)

lemma deb_ok_cancel: "deb_ok s \<Longrightarrow> deb_ok (cancel s)"
  by (erule deb_ok_cases) (auto simp: deb_defs deb_ok_def)

lemma deb_ok_flush: "deb_ok s \<Longrightarrow> deb_ok (flush cfg func t s)"
  by (erule deb_ok_cases) (auto simp: deb_defs deb_ok_def)

lemma deb_ok_step: "deb_step cfg func t e s s' \<Longrightarrow> deb_ok s \<Longrightarrow> deb_ok s'"
  by (induction rule: deb_step.induct) (auto intro: deb_ok_debounced deb_ok_fired deb_ok_cancel deb_ok_flush)

lemma deb_ok_run: "deb_run cfg func es s \<Longrightarrow> deb_ok s"
  by (induction rule: deb_run.induct) (auto intro: deb_ok_init deb_ok_step)

text \<open>
  C22: In every state a debounced function can reach, whatever the options and however the clock
  moves, at most one timer is pending, \<open>timerId\<close> names it, and arguments of a call that wait to be
  used have their timer: no call is forgotten and no timer leaks.
\<close>

theorem debounce_timers:
  assumes "deb_run cfg func es s"
  shows "case timerId s of None \<Rightarrow> timers s = [] \<and> lastArgs s = None | Some i \<Rightarrow> \<exists>due. timers s = [(i, due)]"
  using deb_ok_run [OF assms] by (simp add: deb_ok_def)

theorem debounce_timers_witness:
  "case timerId (debounced \<lparr>wait = 100, leading = False, maxing = False, maxWait = 0, trailing = True\<rparr>
      (\<lambda>a. a) 5 ''x'' init) of
     None \<Rightarrow> False
   | Some i \<Rightarrow> \<exists>due. timers (debounced \<lparr>wait = 100, leading = False, maxing = False, maxWait = 0, trailing = True\<rparr>
      (\<lambda>a. a) 5 ''x'' init) = [(i, due)]"
proof -
  let ?cfg = "\<lparr>wait = 100, leading = False, maxing = False, maxWait = 0, trailing = True\<rparr>"
  have "deb_run ?cfg (\<lambda>a. a) ([] @ [(5, Call ''x'')]) (debounced ?cfg (\<lambda>a. a) 5 ''x'' init)"
    by (rule deb_run.step [OF deb_run.start deb_step.call])
  from debounce_timers [OF this] show ?thesis by (simp add: deb_defs shouldInvoke_def init_def)
qed

text \<open>The arguments of the calls among some events.\<close>

fun call_args :: "(int \<times> 'a event) list \<Rightarrow> 'a list" where
  "call_args [] = []"
| "call_args ((t, Call a) # es) = a # call_args es"
| "call_args ((t, _) # es) = call_args es"

lemma call_args_append: "call_args (es @ es') = call_args es @ call_args es'"
  by (induction es rule: call_args.induct) auto

text \<open>What an operation does to the waiting arguments and the log: nothing, dropping the
  arguments, or using them.\<close>

definition uses_args :: "('a, 'r) closure \<Rightarrow> ('a, 'r) closure \<Rightarrow> bool" where
  "uses_args s s' \<longleftrightarrow>
     (lastArgs s' = lastArgs s \<or> lastArgs s' = None) \<and> calls s' = calls s
   \<or> (\<exists>t a. lastArgs s = Some a \<and> lastArgs s' = None \<and> calls s' = calls s @ [(t, Some a)])"

lemma uses_args_timerExpired: "uses_args s (timerExpired cfg func t (s\<lparr>timers := ts\<rparr>))"
  by (auto simp: uses_args_def deb_defs)

lemma uses_args_cancel: "uses_args s (cancel s)"
  by (simp add: uses_args_def deb_defs)

lemma uses_args_flush: "uses_args s (flush cfg func t s)"
  by (auto simp: uses_args_def deb_defs)

lemma uses_args_debounced: "uses_args (s\<lparr>lastArgs := Some a\<rparr>) (debounced cfg func t a s)"
  by (auto simp: uses_args_def deb_defs)

definition log_ok :: "'a list \<Rightarrow> ('a, 'r) closure \<Rightarrow> bool" where
  "log_ok as s \<longleftrightarrow> (case lastArgs s of
     Some a \<Rightarrow> \<exists>pre. as = pre @ [a] \<and> subseq (map snd (calls s)) (map Some pre)
   | None \<Rightarrow> subseq (map snd (calls s)) (map Some as))"

lemma log_ok_subseq: "log_ok as s \<Longrightarrow> subseq (map snd (calls s)) (map Some as)"
  by (auto simp: log_ok_def split: option.splits)

lemma log_ok_uses:
  assumes "log_ok as s" "uses_args s s'"
  shows "log_ok as s'"
proof -
  from assms(2) consider "lastArgs s' = lastArgs s" "calls s' = calls s"
    | "lastArgs s' = None" "calls s' = calls s"
    | t a where "lastArgs s = Some a" "lastArgs s' = None" "calls s' = calls s @ [(t, Some a)]"
    by (auto simp: uses_args_def)
  then show ?thesis
  proof cases
    case 2
    with log_ok_subseq [OF assms(1)] show ?thesis by (simp add: log_ok_def)
  next
    case 3
    with assms(1) obtain pre where "as = pre @ [a]" "subseq (map snd (calls s)) (map Some pre)"
      by (auto simp: log_ok_def)
    with 3 show ?thesis by (auto simp: log_ok_def intro: list_emb_append_mono)
  qed (use assms(1) in \<open>auto simp: log_ok_def split: option.splits\<close>)
qed

lemma log_ok_call: "log_ok as s \<Longrightarrow> log_ok (as @ [a]) (s\<lparr>lastArgs := Some a\<rparr>)"
  using log_ok_subseq [of as s] by (simp add: log_ok_def)

lemma log_ok_run: "deb_run cfg func es s \<Longrightarrow> log_ok (call_args es) s"
proof (induction rule: deb_run.induct)
  case start
  show ?case by (simp add: log_ok_def init_def)
next
  case (step es s t e s')
  from step(2) show ?case
  proof (cases rule: deb_step.cases)
    case (call a)
    then show ?thesis
      using log_ok_uses [OF log_ok_call [OF step(3)] uses_args_debounced] by (simp add: call_args_append)
  qed (use step(3) in \<open>auto simp: call_args_append intro: log_ok_uses uses_args_timerExpired
      uses_args_cancel uses_args_flush\<close>)
qed

text \<open>
  C24: A debounced function passes on calls and invents none: the arguments of the invocations of
  the wrapped function are, in order, a subsequence of the arguments of the calls, so each call
  causes at most one invocation and later calls never run before earlier ones.
\<close>

theorem debounce_invocations:
  assumes "deb_run cfg func es s"
  shows "subseq (map snd (calls s)) (map Some (call_args es)) \<and> length (calls s) \<le> length (call_args es)"
proof -
  have "subseq (map snd (calls s)) (map Some (call_args es))"
    by (rule log_ok_subseq [OF log_ok_run [OF assms]])
  then show ?thesis using list_emb_length by fastforce
qed

theorem debounce_invocations_witness:
  "map snd (calls (debounced \<lparr>wait = 100, leading = True, maxing = False, maxWait = 0, trailing = True\<rparr>
      (\<lambda>a. a) 5 ''x'' init)) = [Some ''x'']
   \<and> length (calls (debounced \<lparr>wait = 100, leading = True, maxing = False, maxWait = 0, trailing = True\<rparr>
      (\<lambda>a. a) 5 ''x'' init)) \<le> 1"
proof -
  let ?cfg = "\<lparr>wait = 100, leading = True, maxing = False, maxWait = 0, trailing = True\<rparr>"
  have "deb_run ?cfg (\<lambda>a. a) ([] @ [(5, Call ''x'')]) (debounced ?cfg (\<lambda>a. a) 5 ''x'' init)"
    by (rule deb_run.step [OF deb_run.start deb_step.call])
  from debounce_invocations [OF this] show ?thesis by (simp add: deb_defs shouldInvoke_def init_def)
qed

section \<open>Waiting calls are served\<close>

text \<open>Successive timers fire, each of them late by the given number of milliseconds.\<close>

primrec fire_late :: "config \<Rightarrow> ('a option \<Rightarrow> 'r) \<Rightarrow> int list \<Rightarrow> ('a, 'r) closure \<Rightarrow> ('a, 'r) closure" where
  "fire_late cfg func [] s = s"
| "fire_late cfg func (d # ds) s = (case timers s of
     [] \<Rightarrow> s
   | (i, due) # ts \<Rightarrow> fire_late cfg func ds (timerExpired cfg func (due + d) (s\<lparr>timers := ts\<rparr>)))"

lemma time_tests_timers [simp]:
  "shouldInvoke cfg t (s\<lparr>timers := ts\<rparr>) = shouldInvoke cfg t s"
  "remainingWait cfg t (s\<lparr>timers := ts\<rparr>) = remainingWait cfg t s"
  by (simp_all add: shouldInvoke_def remainingWait_def)

lemma remainingWait_due:
  "t + remainingWait cfg t s \<le> t' \<Longrightarrow> shouldInvoke cfg t' s"
  by (auto simp: shouldInvoke_def remainingWait_def Let_def min_def split: if_splits)

text \<open>The arguments of the call \<open>a\<close> wait, or it has been the last one to run.\<close>

definition serves :: "(int \<times> 'a option) list \<Rightarrow> ('a option \<Rightarrow> 'r) \<Rightarrow> 'a \<Rightarrow> ('a, 'r) closure \<Rightarrow> bool" where
  "serves cs func a s \<longleftrightarrow>
     lastArgs s = None \<and> result s = Some (func (Some a)) \<and> (\<exists>t. calls s = cs @ [(t, Some a)])"

lemma serves_call:
  "serves (calls s) func a (debounced cfg func t a s) \<or>
   lastArgs (debounced cfg func t a s) = Some a \<and> calls (debounced cfg func t a s) = calls s"
  by (auto simp: serves_def deb_defs)

lemma serves_trailing:
  assumes "serves cs func a s \<or> lastArgs s = Some a \<and> calls s = cs" "trailing cfg"
  shows "serves cs func a (trailingEdge cfg func t s)"
  using assms by (auto simp: serves_def deb_defs)

text \<open>Two timers are enough: the second one, however late, is due when the wait is over.\<close>

lemma fire_two:
  assumes "deb_ok s" "timers s = [(i, due)]" "0 \<le> d2"
  obtains "fire_late cfg func [d1, d2] s = trailingEdge cfg func (due + d1) (s\<lparr>timers := []\<rparr>)"
  | t u where "fire_late cfg func [d1, d2] s = trailingEdge cfg func t u" "timers u = []"
      "lastArgs u = lastArgs s" "calls u = calls s" "result u = result s"
proof (cases "shouldInvoke cfg (due + d1) s")
  case True
  then have "timerExpired cfg func (due + d1) (s\<lparr>timers := []\<rparr>) = trailingEdge cfg func (due + d1) (s\<lparr>timers := []\<rparr>)"
    by (simp add: timerExpired_def)
  moreover have "timers (trailingEdge cfg func (due + d1) (s\<lparr>timers := []\<rparr>)) = []" by (simp add: deb_defs)
  ultimately show ?thesis using that(1) assms(2) by simp
next
  case False
  let ?t = "due + d1"
  let ?u = "set_timer ?t (remainingWait cfg ?t s) (s\<lparr>timers := []\<rparr>)"
  let ?t' = "?t + remainingWait cfg ?t s + d2"
  have "shouldInvoke cfg ?t' s" by (rule remainingWait_due [of ?t]) (simp add: assms(3))
  then have "shouldInvoke cfg ?t' (?u\<lparr>timers := []\<rparr>)" by (simp add: shouldInvoke_def set_timer_def)
  then have "timerExpired cfg func ?t' (?u\<lparr>timers := []\<rparr>) = trailingEdge cfg func ?t' (?u\<lparr>timers := []\<rparr>)"
    unfolding timerExpired_def by (simp only: if_True)
  moreover have "timerExpired cfg func ?t (s\<lparr>timers := []\<rparr>) = ?u" using False by (simp add: timerExpired_def)
  ultimately have "fire_late cfg func [d1, d2] s = trailingEdge cfg func ?t' (?u\<lparr>timers := []\<rparr>)"
    using assms(2) by (simp add: set_timer_def)
  then show ?thesis by (rule that(2)) (simp_all add: set_timer_def)
qed

text \<open>
  C23: with a trailing edge, the last call is served with its own arguments. After any events, let
  the debounced function be called with \<open>a\<close>, and let no further call, flush or cancel follow: once
  the pending timer and the one that it may start have fired, each at the time it is due or any
  time later, the wrapped function has run exactly once more, with the arguments \<open>a\<close>, whose result
  is kept, and no timer and no arguments are left.
\<close>

theorem debounce_serves_last_call:
  assumes "deb_run cfg func es s" "trailing cfg" "0 \<le> d1" "0 \<le> d2"
  shows "\<exists>t' s'. s' = fire_late cfg func [d1, d2] (debounced cfg func t a s)
    \<and> calls s' = calls s @ [(t', Some a)] \<and> result s' = Some (func (Some a))
    \<and> lastArgs s' = None \<and> timers s' = [] \<and> timerId s' = None"
proof -
  let ?c = "debounced cfg func t a s"
  let ?s' = "fire_late cfg func [d1, d2] ?c"
  have ok: "deb_ok ?c" by (rule deb_ok_debounced [OF deb_ok_run [OF assms(1)]])
  have waits: "serves (calls s) func a ?c \<or> lastArgs ?c = Some a \<and> calls ?c = calls s" by (rule serves_call)
  have "timerId ?c \<noteq> None" using deb_ok_run [OF assms(1)] by (auto simp: deb_defs)
  with ok obtain i due where tm: "timers ?c = [(i, due)]" by (auto elim: deb_ok_cases)
  obtain t' u where u: "?s' = trailingEdge cfg func t' u" "timers u = []" "lastArgs u = lastArgs ?c"
    "calls u = calls ?c" "result u = result ?c"
    by (rule fire_two [OF ok tm assms(4), of cfg func d1]) auto
  have "serves (calls s) func a u \<or> lastArgs u = Some a \<and> calls u = calls s"
    using waits u by (simp add: serves_def)
  from serves_trailing [OF this assms(2)] have "serves (calls s) func a ?s'" unfolding u(1) .
  moreover have "timers ?s' = []" "timerId ?s' = None" unfolding u(1) using u(2) by (simp_all add: deb_defs)
  ultimately show ?thesis by (auto simp: serves_def)
qed

theorem debounce_serves_last_call_witness:
  "calls (fire_late \<lparr>wait = 100, leading = False, maxing = False, maxWait = 0, trailing = True\<rparr> (\<lambda>a. a) [3, 7]
     (debounced \<lparr>wait = 100, leading = False, maxing = False, maxWait = 0, trailing = True\<rparr> (\<lambda>a. a) 45 ''y''
       (debounced \<lparr>wait = 100, leading = False, maxing = False, maxWait = 0, trailing = True\<rparr> (\<lambda>a. a) 5 ''x'' init)))
   = [(152, Some ''y'')]"
proof -
  let ?cfg = "\<lparr>wait = 100, leading = False, maxing = False, maxWait = 0, trailing = True\<rparr>"
  let ?s = "debounced ?cfg (\<lambda>a. a) 5 ''x'' init"
  have "deb_run ?cfg (\<lambda>a. a) ([] @ [(5, Call ''x'')]) ?s"
    by (rule deb_run.step [OF deb_run.start deb_step.call])
  from debounce_serves_last_call [OF this, of 3 7 45 "''y''"] show ?thesis
    by (auto simp: deb_defs shouldInvoke_def remainingWait_def init_def)
qed

section \<open>The rate of a throttled function\<close>

text \<open>
  A function throttled to one invocation every 100 ms can run twice within 50 ms: after a call at
  time 1000, which runs at once, and one at 1050, which the timer runs at 1100, a call at 1150 runs
  at once again, because the test looks at the time since the last call and not since the last
  invocation.
\<close>

lemma throttle_runs_twice:
  "\<exists>cfg s. throttle (Some (\<lambda>a :: string option. a)) (Num 100) None = Inr cfg
    \<and> deb_run cfg (\<lambda>a :: string option. a) [(1000, Call ''a''), (1050, Call ''b''), (1100, Fire), (1150, Call ''c'')] s
    \<and> calls s = [(1000, Some ''a''), (1100, Some ''b''), (1150, Some ''c'')]"
proof -
  let ?cfg = "\<lparr>wait = 100, leading = True, maxing = True, maxWait = 100, trailing = True\<rparr>"
  let ?f = "\<lambda>a :: string option. a"
  let ?s1 = "debounced ?cfg ?f 1000 ''a'' init"
  let ?s2 = "debounced ?cfg ?f 1050 ''b'' ?s1"
  let ?s3 = "timerExpired ?cfg ?f 1100 (?s2\<lparr>timers := [] @ []\<rparr>)"
  let ?s4 = "debounced ?cfg ?f 1150 ''c'' ?s3"
  note eval = deb_defs shouldInvoke_def remainingWait_def init_def
  have "deb_run ?cfg ?f ((([] @ [(1000, Call ''a'')]) @ [(1050, Call ''b'')]) @ [(1100, Fire)]) ?s3"
    by (rule deb_run.step [OF deb_run.step [OF deb_run.step [OF deb_run.start deb_step.call] deb_step.call]
          deb_step.fire [where i = 1 and due = 1100]]) (simp_all add: eval)
  then have "deb_run ?cfg ?f [(1000, Call ''a''), (1050, Call ''b''), (1100, Fire), (1150, Call ''c'')] ?s4"
    using deb_run.step [OF _ deb_step.call] by fastforce
  moreover have "calls ?s4 = [(1000, Some ''a''), (1100, Some ''b''), (1150, Some ''c'')]" by (simp add: eval)
  moreover have "throttle (Some ?f) (Num 100) None = Inr ?cfg" by (simp add: throttle_def debounce_def)
  ultimately show ?thesis by blast
qed

end
