(* ===== verification/Lodash_Function.thy ===== *)
theory Lodash_Function
  imports Lodash_Cache
begin

text \<open>
  The function wrappers of lodash with state: \<open>after\<close>, \<open>before\<close>, \<open>once\<close> and \<open>memoize\<close>. Each wrapper
  is a state record and a call that maps the arguments and the state to the returned value, the
  new state and the arguments the wrapped function was invoked with, if it was. The wrapped
  function is a parameter whose value depends on its arguments; it may throw in \<open>memoize\<close>, and
  returns in the other wrappers.
\<close>

section \<open>after, before, once\<close>

text \<open>The argument \<open>func\<close> is \<open>None\<close> when it is no function.\<close>

definition after :: "jsnum \<Rightarrow> ('a \<Rightarrow> jsval) option \<Rightarrow> js_error + int" where
  "after n func =
     (if func = None then Inl TypeError else Inr (case n of Num i \<Rightarrow> i | _ \<Rightarrow> 0))"

definition after_call :: "('a \<Rightarrow> jsval) \<Rightarrow> 'a \<Rightarrow> int \<Rightarrow> jsval \<times> int \<times> 'a option" where
  "after_call func args n =
     (let n = n - 1 in if n < 1 then (func args, n, Some args) else (Undefined, n, None))"

record before_state =
  before_n :: int
  before_result :: jsval
  func_kept :: bool

definition before :: "jsnum \<Rightarrow> ('a \<Rightarrow> jsval) option \<Rightarrow> js_error + before_state" where
  "before n func =
     (if func = None then Inl TypeError
      else Inr \<lparr>before_n = (case n of Num i \<Rightarrow> i | _ \<Rightarrow> 0), before_result = Undefined, func_kept = True\<rparr>)"

text \<open>\<open>func\<close> is set to \<open>undefined\<close> when it is not needed any more; calling it then would raise.\<close>

definition before_call :: "('a \<Rightarrow> jsval) \<Rightarrow> 'a \<Rightarrow> before_state \<Rightarrow>
    js_error + jsval \<times> before_state \<times> 'a option" where
  "before_call func args s =
     (let n = before_n s - 1;
          s = s\<lparr>before_n := n\<rparr>
      in if n > 0 \<and> \<not> func_kept s then Inl TypeError
         else
           let (s, invoked) = (if n > 0 then (s\<lparr>before_result := func args\<rparr>, Some args) else (s, None));
               s = (if n \<le> 1 then s\<lparr>func_kept := False\<rparr> else s)
           in Inr (before_result s, s, invoked))"

definition once :: "('a \<Rightarrow> jsval) option \<Rightarrow> js_error + before_state" where
  "once func = before (Num 2) func"

text \<open>A sequence of calls: the returned values and the invocations.\<close>

fun after_calls :: "('a \<Rightarrow> jsval) \<Rightarrow> 'a list \<Rightarrow> int \<Rightarrow> jsval list \<times> 'a list" where
  "after_calls func [] n = ([], [])"
| "after_calls func (args # rest) n =
     (let (r, n, inv) = after_call func args n; (rs, invs) = after_calls func rest n
      in (r # rs, (case inv of Some a \<Rightarrow> a # invs | None \<Rightarrow> invs)))"

fun before_calls :: "('a \<Rightarrow> jsval) \<Rightarrow> 'a list \<Rightarrow> before_state \<Rightarrow> js_error + jsval list \<times> 'a list" where
  "before_calls func [] s = Inr ([], [])"
| "before_calls func (args # rest) s =
     bindR (before_call func args s) (\<lambda>(r, s, inv).
       bindR (before_calls func rest s) (\<lambda>(rs, invs).
         Inr (r # rs, (case inv of Some a \<Rightarrow> a # invs | None \<Rightarrow> invs))))"

lemma after_calls_eq: "after_calls func as n =
    (replicate (min (nat (n - 1)) (length as)) Undefined @ map func (drop (nat (n - 1)) as), drop (nat (n - 1)) as)"
proof (induction as arbitrary: n)
  case (Cons a "as")
  show ?case
  proof (cases "n - 1 < 1")
    case True
    then have "nat (n - 1) = 0" "nat (n - 1 - 1) = 0" by auto
    with True Cons [of "n - 1"] show ?thesis by (simp add: after_call_def)
  next
    case False
    then have "nat (n - 1) = Suc (nat (n - 1 - 1))" by auto
    with False Cons [of "n - 1"] show ?thesis by (simp add: after_call_def)
  qed
qed simp

text \<open>
  A function wrapped by \<open>after(n, func)\<close> returns \<open>undefined\<close> for its first \<open>n - 1\<close> calls and from
  the \<open>n\<close>-th call on invokes \<open>func\<close> on every call.
\<close>

lemma after_invocations:
  "\<exists>n0. after (Num n) (Some func) = Inr n0 \<and> after_calls func as n0 =
    (replicate (min (nat (n - 1)) (length as)) Undefined @ map func (drop (nat (n - 1)) as), drop (nat (n - 1)) as)"
  by (simp add: after_def after_calls_eq)

lemma before_calls_done:
  "before_n s \<le> 1 \<Longrightarrow> before_calls func as s = Inr (map (\<lambda>_. before_result s) as, [])"
proof (induction as arbitrary: s)
  case (Cons a "as")
  let ?s = "s\<lparr>before_n := before_n s - 1, func_kept := False\<rparr>"
  have "before_call func a s = Inr (before_result s, ?s, None)" using Cons.prems by (simp add: before_call_def)
  with Cons.IH [of ?s] Cons.prems show ?case by simp
qed simp

text \<open>
  A function wrapped by \<open>once\<close> invokes \<open>func\<close> on the first call only, every call returns the
  result of that invocation, and no call raises although the reference to \<open>func\<close> is given up.
\<close>

lemma once_invokes_once:
  "\<exists>s. once (Some func) = Inr s \<and>
    before_calls func (a # as) s = Inr (map (\<lambda>_. func a) (a # as), [a])"
proof -
  let ?s = "\<lparr>before_n = 2, before_result = Undefined, func_kept = True\<rparr>"
  have "before_call func a ?s = Inr (func a, \<lparr>before_n = 1, before_result = func a, func_kept = False\<rparr>, Some a)"
    by (simp add: before_call_def)
  then have "before_calls func (a # as) ?s = Inr (map (\<lambda>_. func a) (a # as), [a])"
    using before_calls_done [of "\<lparr>before_n = 1, before_result = func a, func_kept = False\<rparr>" func as] by simp
  then show ?thesis by (simp add: once_def before_def)
qed

section \<open>memoize\<close>

text \<open>The memoized function may throw: it is a function to a sum type, whose exception the wrapper
  passes on before it reaches the cache. The resolver, when there is one, is a function that does
  not throw. The record logs the arguments of all invocations.\<close>

record memo =
  memo_cache :: map_cache
  invocations :: "jsval list list"

definition memoize :: "js_env \<Rightarrow> (jsval list \<Rightarrow> js_error + jsval) option \<Rightarrow> js_error + memo" where
  "memoize env func =
     (if func = None then Inl TypeError
      else Inr \<lparr>memo_cache = MapCache env [], invocations = []\<rparr>)"

definition memo_key :: "(jsval list \<Rightarrow> jsval) option \<Rightarrow> jsval list \<Rightarrow> jsval" where
  "memo_key resolver args = (case resolver of
     Some r \<Rightarrow> r args
   | None \<Rightarrow> (case args of [] \<Rightarrow> Undefined | a # _ \<Rightarrow> a))"

definition memoized :: "js_env \<Rightarrow> (jsval list \<Rightarrow> js_error + jsval) \<Rightarrow> (jsval list \<Rightarrow> jsval) option \<Rightarrow>
    jsval list \<Rightarrow> memo \<Rightarrow> (js_error + jsval) \<times> memo" where
  "memoized env func resolver args m =
     (let key = memo_key resolver args; cache = memo_cache m in
      if mapHas env cache key then (Inr (mapGet env cache key), m)
      else
        let m = m\<lparr>invocations := invocations m @ [args]\<rparr>
        in case func args of
             Inl e \<Rightarrow> (Inl e, m)
           | Inr res \<Rightarrow> (Inr res, m\<lparr>memo_cache := mapSet env cache key res\<rparr>))"

fun memo_calls :: "js_env \<Rightarrow> (jsval list \<Rightarrow> js_error + jsval) \<Rightarrow> (jsval list \<Rightarrow> jsval) option \<Rightarrow>
    jsval list list \<Rightarrow> memo \<Rightarrow> (js_error + jsval) list \<times> memo" where
  "memo_calls env func resolver [] m = ([], m)"
| "memo_calls env func resolver (args # rest) m =
     (let (r, m) = memoized env func resolver args m;
          (rs, m) = memo_calls env func resolver rest m
      in (r # rs, m))"

text \<open>An invocation that throws leaves the cache as it is, so the next call with the key invokes the
  function again.\<close>

lemma memoized_throws:
  assumes "func args = Inl e" "\<not> mapHas env (memo_cache m) (memo_key resolver args)"
  shows "memo_calls env func resolver [args, args] m =
    ([Inl e, Inl e], m\<lparr>invocations := invocations m @ [args, args]\<rparr>)"
  using assms by (simp add: memoized_def)

text \<open>The first call with a key decides.\<close>

definition first_with :: "('a \<Rightarrow> 'k) \<Rightarrow> 'k \<Rightarrow> 'a list \<Rightarrow> 'a option" where
  "first_with key k as = find (\<lambda>a. key a = k) as"

lemma first_with_simps [simp]:
  "first_with key k [] = None"
  "first_with key k (a # as) = (if key a = k then Some a else first_with key k as)"
  by (simp_all add: first_with_def)

lemma first_with_append:
  "first_with key k (as @ bs) = (case first_with key k as of Some a \<Rightarrow> Some a | None \<Rightarrow> first_with key k bs)"
  by (induction as) auto

text \<open>
  The invariant after the calls \<open>pre\<close>: the cache maps a key to the value for the first arguments
  with the key, and the invocations are those first arguments.
\<close>

definition memo_ok :: "js_env \<Rightarrow> (jsval list \<Rightarrow> js_error + jsval) \<Rightarrow> (jsval list \<Rightarrow> jsval) option \<Rightarrow>
    jsval list list \<Rightarrow> memo \<Rightarrow> bool" where
  "memo_ok env func resolver pre m \<longleftrightarrow>
     map_ok env (memo_cache m)
   \<and> (\<forall>k. map_option Inr (map_lookup env (memo_cache m) k) = map_option func (first_with (memo_key resolver) k pre))
   \<and> distinct (map (memo_key resolver) (invocations m))
   \<and> memo_key resolver ` set (invocations m) = memo_key resolver ` set pre"

lemma first_with_None: "first_with key k as = None \<longleftrightarrow> k \<notin> key ` set as"
  by (auto simp: first_with_def find_None_iff)

lemma memoized_ok:
  assumes "memo_ok env func resolver pre m" "func args = Inr r" "r \<noteq> HASH_UNDEFINED"
  shows "fst (memoized env func resolver args m)
      = func (the (first_with (memo_key resolver) (memo_key resolver args) (pre @ [args])))
    \<and> memo_ok env func resolver (pre @ [args]) (snd (memoized env func resolver args m))"
proof -
  let ?key = "memo_key resolver" and ?c = "memo_cache m"
  let ?k = "?key args"
  have ok: "map_ok env ?c" and look: "\<And>k. map_option Inr (map_lookup env ?c k) = map_option func (first_with ?key k pre)"
    and dist: "distinct (map ?key (invocations m))" and keys: "?key ` set (invocations m) = ?key ` set pre"
    using assms(1) by (auto simp: memo_ok_def)
  have store: "storable r" using assms(3) by (simp add: storable_def)
  show ?thesis
  proof (cases "first_with ?key ?k pre")
    case None
    then have fresh: "?k \<notin> ?key ` set pre" by (simp add: first_with_None)
    have "map_lookup env ?c ?k = None" using look [of ?k] None by simp
    then have "\<not> mapHas env ?c ?k" by (simp add: mapHas_lookup [OF ok])
    moreover have "map_option Inr (map_lookup env (mapSet env ?c ?k r) k) = map_option func (first_with ?key k (pre @ [args]))" for k
      using None look [of k] assms(2) by (auto simp: mapSet_lookup [OF ok store] first_with_append split: option.splits)
    ultimately show ?thesis using None fresh dist keys mapSet_lookup(1) [OF ok store] assms(2)
      by (auto simp: memoized_def memo_ok_def first_with_append Let_def)
  next
    case (Some a)
    then have old: "?k \<in> ?key ` set pre" using first_with_None [of ?key ?k pre] by simp
    obtain v where v: "map_lookup env ?c ?k = Some v" "func a = Inr v" using look [of ?k] Some by auto
    then have "mapHas env ?c ?k" "Inr (mapGet env ?c ?k) = func a"
      by (simp_all add: mapHas_lookup [OF ok] mapGet_lookup [OF ok])
    moreover have "map_option Inr (map_lookup env ?c k) = map_option func (first_with ?key k (pre @ [args]))" for k
      using Some by (auto simp: look first_with_append split: option.splits)
    ultimately show ?thesis using Some ok dist keys old
      by (auto simp: memoized_def memo_ok_def first_with_append)
  qed
qed

lemma memo_calls_ok:
  assumes "memo_ok env func resolver pre m" "\<forall>args\<in>set argss. \<exists>r. func args = Inr r \<and> r \<noteq> HASH_UNDEFINED"
  shows "fst (memo_calls env func resolver argss m)
      = map (\<lambda>args. func (the (first_with (memo_key resolver) (memo_key resolver args) (pre @ argss)))) argss
    \<and> memo_ok env func resolver (pre @ argss) (snd (memo_calls env func resolver argss m))"
  using assms
proof (induction argss arbitrary: pre m)
  case (Cons args rest)
  obtain r m' where step: "memoized env func resolver args m = (r, m')" by fastforce
  have r: "r = func (the (first_with (memo_key resolver) (memo_key resolver args) (pre @ [args])))"
    "memo_ok env func resolver (pre @ [args]) m'"
    using memoized_ok [OF Cons.prems(1), of args] Cons.prems(2) step by fastforce+
  have "first_with (memo_key resolver) (memo_key resolver args) (pre @ args # rest)
      = first_with (memo_key resolver) (memo_key resolver args) (pre @ [args])"
    by (auto simp: first_with_append split: option.splits)
  with r Cons.IH [OF r(2)] Cons.prems(2) step show ?case by (simp add: case_prod_beta)
qed simp

text \<open>
  C29: A memoized function returns, for every call of a sequence, what the function returns for the
  first arguments of the sequence with the same key; the function is invoked once for each key
  and never for a key that is known. The invocations must return, with a value that is not the
  marker string of the cache (a function that throws is invoked again, see \<open>memoized_throws\<close>).
\<close>

theorem memoize_once_per_key:
  assumes "\<forall>args\<in>set argss. \<exists>r. func args = Inr r \<and> r \<noteq> HASH_UNDEFINED"
  shows "\<exists>m0. memoize env (Some func) = Inr m0
    \<and> fst (memo_calls env func resolver argss m0)
        = map (\<lambda>args. func (the (first_with (memo_key resolver) (memo_key resolver args) argss))) argss
    \<and> distinct (map (memo_key resolver) (invocations (snd (memo_calls env func resolver argss m0))))
    \<and> memo_key resolver ` set (invocations (snd (memo_calls env func resolver argss m0))) = memo_key resolver ` set argss"
proof -
  let ?m0 = "\<lparr>memo_cache = MapCache env [], invocations = []\<rparr>"
  have "memo_ok env func resolver [] ?m0"
    by (simp add: memo_ok_def MapCache_empty mapClear_lookup)
  from memo_calls_ok [OF this assms] show ?thesis by (simp add: memoize_def memo_ok_def)
qed

theorem memoize_once_per_key_witness:
  "\<exists>m0. memoize modern_env (Some (\<lambda>args. Inr (Number (int (length args))))) = Inr m0
    \<and> fst (memo_calls modern_env (\<lambda>args. Inr (Number (int (length args)))) None
          [[NaNv], [Null, Null], [NaNv, NaNv]] m0) = [Inr (Number 1), Inr (Number 2), Inr (Number 1)]"
  using memoize_once_per_key [of "[[NaNv], [Null, Null], [NaNv, NaNv]]" "\<lambda>args. Inr (Number (int (length args)))" modern_env None]
  by (auto simp: HASH_UNDEFINED_def memo_key_def simp del: memo_calls.simps)

end
