(* ===== verification/Lodash_Number.thy ===== *)
theory Lodash_Number
  imports Lodash_Slice
begin

text \<open>
  The functions of lodash on numbers and ranges, \<open>clamp\<close>, \<open>inRange\<close>, \<open>range\<close>, \<open>rangeRight\<close> and
  \<open>times\<close>, and \<open>repeat\<close> with its exponentiation by squaring. Numeric arguments are \<^typ>\<open>jsnum\<close>.
\<close>

section \<open>Clamping and ranges\<close>

text \<open>\<open>toNumber\<close> of a number or \<open>undefined\<close>, and \<open>x === x ? x : 0\<close> and \<open>x || 0\<close> after it.\<close>

fun toNumber :: "jsnum \<Rightarrow> jsnum" where
  "toNumber Undef = NaN"
| "toNumber NaN = NaN"
| "toNumber (Num i) = Num i"

definition or_0 :: "jsnum \<Rightarrow> int" where
  "or_0 x = (case x of Num i \<Rightarrow> i | _ \<Rightarrow> 0)"

definition clamp :: "jsnum \<Rightarrow> jsnum \<Rightarrow> jsnum \<Rightarrow> jsnum" where
  "clamp number lower' upper' =
     (let (lower', upper') = (if upper' = Undef then (Undef, lower') else (lower', upper'));
          upper' = (if upper' \<noteq> Undef then Num (or_0 (toNumber upper')) else upper');
          lower' = (if lower' \<noteq> Undef then Num (or_0 (toNumber lower')) else lower')
      in baseClamp (toNumber number) lower' upper')"

definition baseInRange :: "jsnum \<Rightarrow> int \<Rightarrow> int \<Rightarrow> bool" where
  "baseInRange number start end' \<longleftrightarrow>
     jge number (Num (min start end')) \<and> (case number of Num n \<Rightarrow> n < max start end' | _ \<Rightarrow> False)"

definition inRange :: "jsnum \<Rightarrow> jsnum \<Rightarrow> jsnum \<Rightarrow> bool" where
  "inRange number start end' =
     (let start = or_0 (toNumber start);
          (start, end') = (if end' = Undef then (0, start) else (start, or_0 (toNumber end')));
          number = toNumber number
      in baseInRange number start end')"

text \<open>The constructor \<open>Array(n)\<close> raises for a length that no array can have.\<close>

definition new_array :: "int \<Rightarrow> js_error + array" where
  "new_array n = (if n > MAX_ARRAY_LENGTH then Inl RangeError else Inr (Array (nat n)))"

text \<open>The loop counts \<open>length\<close> down, so that its index is the position from the right.\<close>

definition baseRange :: "int \<Rightarrow> int \<Rightarrow> int \<Rightarrow> bool \<Rightarrow> js_error + array" where
  "baseRange start end' step fromRight =
     (let len = max (- ((- (end' - start)) div (if step \<noteq> 0 then step else 1))) 0
      in bindR (new_array len) (\<lambda>res.
           Inr ((\<lambda>(index, start, res). res)
             (fold (\<lambda>l (index, start, res).
                (index + 1, start + step, arr_set res (if fromRight then l else index) (Number start)))
               (rev [0..<nat len]) (0, start, res)))))"

text \<open>\<open>createRange\<close>, called with numbers.\<close>

definition createRange :: "bool \<Rightarrow> jsnum \<Rightarrow> jsnum \<Rightarrow> jsnum \<Rightarrow> js_error + array" where
  "createRange fromRight start end' step =
     (let start = or_0 (toNumber start);
          (start, end') = (if end' = Undef then (0, start) else (start, or_0 (toNumber end')));
          step = (if step = Undef then (if start < end' then 1 else - 1) else or_0 (toNumber step))
      in baseRange start end' step fromRight)"

definition range_js :: "jsnum \<Rightarrow> jsnum \<Rightarrow> jsnum \<Rightarrow> js_error + array" where
  "range_js = createRange False"

definition rangeRight :: "jsnum \<Rightarrow> jsnum \<Rightarrow> jsnum \<Rightarrow> js_error + array" where
  "rangeRight = createRange True"

section \<open>Repeating\<close>

definition MAX_SAFE_INTEGER :: int where
  "MAX_SAFE_INTEGER = 9007199254740991"

text \<open>The loop tests its condition after the body, with \<open>n\<close> halved.\<close>

function repeat_loop :: "js_string \<Rightarrow> nat \<Rightarrow> js_string \<Rightarrow> js_string" where
  "repeat_loop str n res =
     (let res = (if n mod 2 \<noteq> 0 then res @ str else res);
          n = n div 2
      in if n \<noteq> 0 then repeat_loop (str @ str) n res else res)"
  by pat_completeness auto
termination
  by (relation "measure (\<lambda>(_, n, _). n)") auto

declare repeat_loop.simps [simp del, code]

definition baseRepeat :: "js_string \<Rightarrow> int \<Rightarrow> js_string" where
  "baseRepeat str n =
     (if str = [] \<or> n < 1 \<or> n > MAX_SAFE_INTEGER then [] else repeat_loop str (nat n) [])"

text \<open>The argument \<open>guard\<close> is what \<open>isIterateeCall\<close> answers when a guard is given.\<close>

definition repeat_js :: "js_string \<Rightarrow> jsnum \<Rightarrow> bool option \<Rightarrow> js_string" where
  "repeat_js str n guard =
     (let n = (if (case guard of Some b \<Rightarrow> b | None \<Rightarrow> n = Undef) then 1 else toInteger n)
      in baseRepeat str n)"

section \<open>Properties\<close>

text \<open>
  \<open>clamp\<close> returns the number itself when it lies between the bounds and the nearest bound
  otherwise; a missing lower bound does not restrict, and \<open>NaN\<close> stays \<open>NaN\<close>.
\<close>

lemma clamp_nearest:
  assumes "lo \<le> hi"
  shows "clamp (Num x) (Num lo) (Num hi) = Num (max lo (min x hi))
    \<and> clamp (Num x) (Num hi) Undef = Num (min x hi) \<and> clamp NaN (Num lo) (Num hi) = NaN"
  using assms by (auto simp: clamp_def baseClamp_def or_0_def Let_def min_def max_def)

text \<open>The numbers of a range and how many there are.\<close>

definition range_count :: "int \<Rightarrow> int \<Rightarrow> int \<Rightarrow> nat" where
  "range_count s e k = nat (- ((s - e) div (if k \<noteq> 0 then k else 1)))"

lemma range_loop:
  assumes "n \<le> m"
  shows "fold (\<lambda>l (index, start, res). (index + 1, start + k, arr_set res (if False then l else index) (Number start)))
      (rev [0..<n]) (m - n, s + int (m - n) * k, map (\<lambda>i. Number (s + int i * k)) [0..<m - n] @ Array n)
    = (m, s + int m * k, map (\<lambda>i. Number (s + int i * k)) [0..<m])"
  using assms
proof (induction n)
  case (Suc n)
  then have d: "m - n = Suc (m - Suc n)" by simp
  have "arr_set (map (\<lambda>i. Number (s + int i * k)) [0..<m - Suc n] @ Array (Suc n)) (m - Suc n) (Number (s + int (m - Suc n) * k))
      = map (\<lambda>i. Number (s + int i * k)) [0..<m - n] @ Array n"
    unfolding d by (simp add: arr_put_def list_update_append)
  moreover have "s + int (m - Suc n) * k + k = s + int (m - n) * k" unfolding d by (simp add: algebra_simps)
  ultimately show ?case using Suc d by (simp add: algebra_simps)
qed simp

lemma rangeRight_loop:
  "fold (\<lambda>l (index, start, res). (index + 1, start + k, arr_set res (if True then l else index) (Number start)))
      (rev [0..<n]) (j, t, Array n @ ys)
    = (j + n, t + int n * k, rev (map (\<lambda>i. Number (t + int i * k)) [0..<n]) @ ys)"
proof (induction n arbitrary: j t ys)
  case (Suc n)
  have "arr_set (Array (Suc n) @ ys) n (Number t) = Array n @ Number t # ys"
    unfolding replicate_Suc replicate_append_same [symmetric] by (simp add: arr_put_def list_update_append)
  then have "fold (\<lambda>l (index, start, res). (index + 1, start + k, arr_set res (if True then l else index) (Number start)))
      (rev [0..<Suc n]) (j, t, Array (Suc n) @ ys)
    = (j + Suc n, t + k + int n * k, rev (map (\<lambda>i. Number (t + k + int i * k)) [0..<n]) @ Number t # ys)"
    using Suc [of "Suc j" "t + k" "Number t # ys"] by simp
  moreover have "map (\<lambda>i. Number (t + int i * k)) [0..<Suc n] = Number t # map (\<lambda>i. Number (t + k + int i * k)) [0..<n]"
    unfolding upt_conv_Cons [OF zero_less_Suc] map_Suc_upt [symmetric] by (simp add: algebra_simps)
  ultimately show ?case by (simp add: algebra_simps del: upt.simps upt_Suc)
qed simp

lemma baseRange_eq:
  assumes "int (range_count s e k) \<le> MAX_ARRAY_LENGTH"
  shows "baseRange s e k False = Inr (map (\<lambda>i. Number (s + int i * k)) [0..<range_count s e k])"
    and "baseRange s e k True = Inr (rev (map (\<lambda>i. Number (s + int i * k)) [0..<range_count s e k]))"
proof -
  let ?n = "range_count s e k"
  have len: "max (- ((- (e - s)) div (if k \<noteq> 0 then k else 1))) 0 = int ?n" by (simp add: range_count_def)
  have new: "new_array (int ?n) = Inr (Array ?n)" using assms by (simp add: new_array_def)
  show "baseRange s e k False = Inr (map (\<lambda>i. Number (s + int i * k)) [0..<?n])"
    unfolding baseRange_def len Let_def new using range_loop [of ?n ?n k s] by simp
  show "baseRange s e k True = Inr (rev (map (\<lambda>i. Number (s + int i * k)) [0..<?n]))"
    unfolding baseRange_def len Let_def new using rangeRight_loop [of k ?n 0 s "[]"] by simp
qed

lemma div_less_iff: "0 < k \<Longrightarrow> a div k < b \<longleftrightarrow> a < b * k" for a b k :: int
proof -
  assume k: "0 < k"
  have "b * k div k \<le> a div k" if "b * k \<le> a" using that k by (rule zdiv_mono1)
  moreover have "b * k \<le> a" if "b \<le> a div k"
  proof -
    have "b * k \<le> a div k * k" using that k by simp
    also have "\<dots> \<le> a" using k pos_mod_sign [OF k, of a] div_mult_mod_eq [of a k] by linarith
    finally show ?thesis .
  qed
  ultimately show ?thesis using k by (simp add: not_le [symmetric]) blast
qed

lemma range_count_less: "0 < k \<Longrightarrow> i < range_count s e k \<longleftrightarrow> s + int i * k < e"
proof -
  assume k: "0 < k"
  have "i < range_count s e k \<longleftrightarrow> (s - e) div k < - int i" using k by (auto simp: range_count_def)
  also have "\<dots> \<longleftrightarrow> s - e < (- int i) * k" using k by (rule div_less_iff)
  finally show ?thesis by (simp add: algebra_simps)
qed

text \<open>
  \<open>range(s, e, k)\<close> with a positive step lists, in ascending order, exactly the numbers from \<open>s\<close>
  below \<open>e\<close> that are a multiple of \<open>k\<close> away from \<open>s\<close>, and \<open>rangeRight\<close> the same in descending order.
\<close>

lemma range_numbers:
  assumes "0 < k" "int (range_count s e k) \<le> MAX_ARRAY_LENGTH"
  shows "\<exists>ns. range_js (Num s) (Num e) (Num k) = Inr (map Number ns)
    \<and> rangeRight (Num s) (Num e) (Num k) = Inr (rev (map Number ns))
    \<and> sorted ns \<and> distinct ns \<and> set ns = {x. s \<le> x \<and> x < e \<and> k dvd x - s}"
proof -
  let ?n = "range_count s e k"
  let ?ns = "map (\<lambda>i. s + int i * k) [0..<?n]"
  have "map (\<lambda>i. Number (s + int i * k)) [0..<?n] = map Number ?ns" by simp
  then have "range_js (Num s) (Num e) (Num k) = Inr (map Number ?ns)"
    "rangeRight (Num s) (Num e) (Num k) = Inr (rev (map Number ?ns))"
    using baseRange_eq [OF assms(2)] by (simp_all add: range_js_def rangeRight_def createRange_def or_0_def)
  moreover have "sorted ?ns" using assms(1) by (auto simp: sorted_iff_nth_mono intro: mult_right_mono)
  moreover have "distinct ?ns" using assms(1) by (auto simp: distinct_map inj_on_def)
  moreover have "set ?ns = {x. s \<le> x \<and> x < e \<and> k dvd x - s}"
  proof (intro set_eqI iffI)
    fix x assume "x \<in> set ?ns"
    then obtain i where "x = s + int i * k" "i < ?n" unfolding set_map set_upt image_iff by (metis atLeastLessThan_iff)
    with assms(1) range_count_less [OF assms(1), of i s e] show "x \<in> {x. s \<le> x \<and> x < e \<and> k dvd x - s}" by simp
  next
    fix x assume "x \<in> {x. s \<le> x \<and> x < e \<and> k dvd x - s}"
    then obtain q where "x - s = k * q" "s \<le> x" "x < e" by (auto simp: dvd_def)
    then have x: "x = s + k * q" "s \<le> x" "x < e" by linarith+
    then have "0 \<le> q" using assms(1) by (simp add: zero_le_mult_iff)
    then have "x = s + int (nat q) * k" "nat q < ?n" using x range_count_less [OF assms(1)] by (simp_all add: mult.commute)
    then show "x \<in> set ?ns" unfolding set_map set_upt by (intro image_eqI [where x = "nat q"]) simp_all
  qed
  ultimately show ?thesis by blast
qed

lemma repeat_loop_eq: "repeat_loop str n res = res @ concat (replicate n str)"
proof (induction str n res rule: repeat_loop.induct)
  case (1 str n res)
  have double: "concat (replicate m (str @ str)) = concat (replicate (2 * m) str)" for m by (induction m) auto
  have swap: "str @ concat (replicate m str) = concat (replicate (Suc m) str)" for m by simp
  have n: "n = (if n mod 2 \<noteq> 0 then Suc (2 * (n div 2)) else 2 * (n div 2))" by presburger
  show ?case
  proof (cases "n div 2 = 0")
    case True
    then have "n = 0 \<or> n = 1" by auto
    then show ?thesis by (subst repeat_loop.simps) auto
  next
    case False
    then have "repeat_loop str n res = (if n mod 2 \<noteq> 0 then res @ str else res) @ concat (replicate (2 * (n div 2)) str)"
      using 1 [OF refl refl] by (subst repeat_loop.simps) (simp add: Let_def double)
    also have "\<dots> = res @ concat (replicate n str)" by (subst (3) n) auto
    finally show ?thesis .
  qed
qed

text \<open>
  \<open>repeat\<close>, which doubles the string while it halves the count, ends and returns the string
  repeated the requested number of times; a negative count gives the empty string.
\<close>

lemma repeat_copies:
  assumes "n \<le> MAX_SAFE_INTEGER"
  shows "repeat_js str (Num n) None = concat (replicate (nat n) str)"
  using assms by (auto simp: repeat_js_def baseRepeat_def repeat_loop_eq Let_def)

end
