(* ===== verification/Lodash_Object.thy ===== *)
theory Lodash_Object
  imports Lodash_Slice "HOL-Library.Extended_Nat"
begin

text \<open>
  The functions of lodash that build objects from arrays, \<open>groupBy\<close>, \<open>countBy\<close>, \<open>keyBy\<close>,
  \<open>partition\<close>, \<open>fromPairs\<close> and \<open>zipObject\<close>, and those that flatten nested arrays. An object is the
  map of its own properties; writing the property \<open>__proto__\<close> changes the prototype and makes no
  own property.
\<close>

section \<open>Objects\<close>

type_synonym 'v object = "string \<rightharpoonup> 'v"

definition obj_put :: "'v object \<Rightarrow> string \<Rightarrow> 'v \<Rightarrow> 'v object" where
  "obj_put object key v = (if key = ''__proto__'' then object else object(key \<mapsto> v))"

text \<open>\<open>assignValue\<close>; \<open>proto\<close> holds the properties the object inherits.\<close>

definition assignValue :: "jsval object \<Rightarrow> jsval object \<Rightarrow> jsval \<Rightarrow> jsval \<Rightarrow> jsval object" where
  "assignValue proto object key v =
     (let k = toPropertyKey key;
          objValue = (case object k of Some w \<Rightarrow> w | None \<Rightarrow>
            (case proto k of Some w \<Rightarrow> w | None \<Rightarrow> Undefined))
      in if \<not> (object k \<noteq> None \<and> eq objValue v)
            \<or> (strict_eq v Undefined \<and> object k = None \<and> proto k = None)
         then obj_put object k v else object)"

definition baseZipObject :: "array \<Rightarrow> array \<Rightarrow> (jsval object \<Rightarrow> jsval \<Rightarrow> jsval \<Rightarrow> jsval object) \<Rightarrow> jsval object"
where
  "baseZipObject props vals assignFunc =
     fold (\<lambda>index res.
        let v = (if index < length vals then vals ! index else Undefined)
        in assignFunc res (props ! index) v) [0..<length props] Map.empty"

definition zipObject :: "jsval object \<Rightarrow> array option \<Rightarrow> array option \<Rightarrow> jsval object" where
  "zipObject proto props vals =
     baseZipObject (case props of Some p \<Rightarrow> p | None \<Rightarrow> []) (case vals of Some v \<Rightarrow> v | None \<Rightarrow> [])
       (assignValue proto)"

definition fromPairs :: "(jsval \<times> jsval) list option \<Rightarrow> jsval object" where
  "fromPairs pairs = (case pairs of
     None \<Rightarrow> Map.empty
   | Some ps \<Rightarrow> fold (\<lambda>index res. let pair = ps ! index in obj_put res (toPropertyKey (fst pair)) (snd pair))
       [0..<length ps] Map.empty)"

text \<open>\<open>createAggregator\<close> on an array; the argument \<open>initializer\<close> is what the function returns, or an
  empty object.\<close>

definition createAggregator :: "('acc \<Rightarrow> jsval \<Rightarrow> 'k \<Rightarrow> 'acc) \<Rightarrow> 'acc \<Rightarrow> array \<Rightarrow> (jsval \<Rightarrow> 'k) \<Rightarrow> 'acc" where
  "createAggregator setter initializer collection iteratee =
     arrayAggregator collection setter iteratee initializer"

definition countBy :: "array \<Rightarrow> (jsval \<Rightarrow> jsval) \<Rightarrow> nat object" where
  "countBy = createAggregator (\<lambda>res value key.
     let k = toPropertyKey key in
     case res k of Some n \<Rightarrow> obj_put res k (n + 1) | None \<Rightarrow> obj_put res k 1) Map.empty"

definition groupBy :: "array \<Rightarrow> (jsval \<Rightarrow> jsval) \<Rightarrow> array object" where
  "groupBy = createAggregator (\<lambda>res value key.
     let k = toPropertyKey key in
     case res k of Some g \<Rightarrow> obj_put res k (g @ [value]) | None \<Rightarrow> obj_put res k [value]) Map.empty"

definition keyBy :: "array \<Rightarrow> (jsval \<Rightarrow> jsval) \<Rightarrow> jsval object" where
  "keyBy = createAggregator (\<lambda>res value key. obj_put res (toPropertyKey key) value) Map.empty"

definition partition_js :: "array \<Rightarrow> (jsval \<Rightarrow> bool) \<Rightarrow> array \<times> array" where
  "partition_js = createAggregator (\<lambda>(yes, no) value key.
     if key then (yes @ [value], no) else (yes, no @ [value])) ([], [])"

section \<open>Nested arrays\<close>

datatype item = Leaf jsval | Items "item list"

fun isFlattenable :: "item \<Rightarrow> bool" where
  "isFlattenable (Items _) = True"
| "isFlattenable (Leaf _) = False"

text \<open>The elements of an array-like value.\<close>

fun elements :: "item \<Rightarrow> item list" where
  "elements (Items xs) = xs"
| "elements (Leaf _) = []"

lemma size_elements: "size_list size (elements v) \<le> size v"
  by (cases v) simp_all

function baseFlatten :: "item list \<Rightarrow> enat \<Rightarrow> (item \<Rightarrow> bool) \<Rightarrow> bool \<Rightarrow> item list \<Rightarrow> item list" where
  "baseFlatten [] depth predicate isStrict result = result"
| "baseFlatten (value # array) depth predicate isStrict result =
     baseFlatten array depth predicate isStrict
       (if depth > 0 \<and> predicate value then
          if depth > 1 then baseFlatten (elements value) (depth - 1) predicate isStrict result
          else result @ elements value
        else if \<not> isStrict then result @ [value]
        else result)"
  by pat_completeness auto
termination
proof (relation "measure (\<lambda>(array, _). size_list size array)")
  fix v :: item and array depth predicate isStrict result
  show "((elements v, depth - 1, predicate, isStrict, result), v # array, depth, predicate, isStrict, result)
      \<in> measure (\<lambda>(array, _). size_list size array)"
    using size_elements [of v] by simp
qed simp_all

definition flatten :: "item list option \<Rightarrow> item list" where
  "flatten array = (case array of
     Some a \<Rightarrow> if length a \<noteq> 0 then baseFlatten a 1 isFlattenable False [] else []
   | None \<Rightarrow> [])"

definition flattenDeep :: "item list option \<Rightarrow> item list" where
  "flattenDeep array = (case array of
     Some a \<Rightarrow> if length a \<noteq> 0 then baseFlatten a \<infinity> isFlattenable False [] else []
   | None \<Rightarrow> [])"

text \<open>A negative depth flattens nothing, like the depth 0.\<close>

definition flattenDepth :: "item list option \<Rightarrow> jsnum \<Rightarrow> item list" where
  "flattenDepth array depth = (case array of
     Some a \<Rightarrow>
       if length a = 0 then []
       else
         let depth = (if depth = Undef then 1 else toInteger depth)
         in baseFlatten a (enat (nat depth)) isFlattenable False []
   | None \<Rightarrow> [])"

section \<open>Grouping\<close>

lemma createAggregator_fold:
  "createAggregator setter init a f = fold (\<lambda>v acc. setter acc v (f v)) a init"
  by (simp add: createAggregator_def arrayAggregator_fold)

text \<open>The group of a property name.\<close>

definition group_of :: "(jsval \<Rightarrow> jsval) \<Rightarrow> array \<Rightarrow> string \<Rightarrow> array" where
  "group_of f a k = filter (\<lambda>v. toPropertyKey (f v) = k) a"

lemma group_of_snoc: "group_of f (a @ [v]) k = (if toPropertyKey (f v) = k then group_of f a k @ [v] else group_of f a k)"
  by (simp add: group_of_def)

lemma groupBy_eq:
  assumes "k \<noteq> ''__proto__''"
  shows "groupBy a f k = (if group_of f a k = [] then None else Some (group_of f a k))"
  using assms
proof (induction a rule: rev_induct)
  case (snoc v a)
  then show ?case
    by (auto simp: groupBy_def createAggregator_fold obj_put_def group_of_snoc Let_def split: option.splits if_splits)
qed (simp add: groupBy_def createAggregator_fold group_of_def)

lemma countBy_eq:
  assumes "k \<noteq> ''__proto__''"
  shows "countBy a f k = (if group_of f a k = [] then None else Some (length (group_of f a k)))"
  using assms
proof (induction a rule: rev_induct)
  case (snoc v a)
  then show ?case
    by (auto simp: countBy_def createAggregator_fold obj_put_def group_of_snoc Let_def split: option.splits if_splits)
qed (simp add: countBy_def createAggregator_fold group_of_def)

lemma keyBy_eq:
  assumes "k \<noteq> ''__proto__''"
  shows "keyBy a f k = (if group_of f a k = [] then None else Some (last (group_of f a k)))"
  using assms
proof (induction a rule: rev_induct)
  case (snoc v a)
  then show ?case
    by (auto simp: keyBy_def createAggregator_fold obj_put_def group_of_snoc split: if_splits)
qed (simp add: keyBy_def createAggregator_fold group_of_def)

text \<open>
  For every property name but \<open>__proto__\<close>, \<open>groupBy\<close> holds the elements whose key has the name, in
  order and if there are any, \<open>countBy\<close> their number, and \<open>keyBy\<close> the last of them.
\<close>

lemma aggregators_agree:
  assumes "k \<noteq> ''__proto__''"
  shows "groupBy a f k = (if group_of f a k = [] then None else Some (group_of f a k))
    \<and> countBy a f k = map_option length (groupBy a f k) \<and> keyBy a f k = map_option last (groupBy a f k)"
  by (simp add: groupBy_eq [OF assms] countBy_eq [OF assms] keyBy_eq [OF assms])

text \<open>
  \<open>partition\<close> splits an array into the elements that satisfy the predicate and the others, each in
  order.
\<close>

lemma partition_splits: "partition_js a p = (filter p a, filter (\<lambda>v. \<not> p v) a)"
  unfolding partition_js_def createAggregator_fold by (induction a rule: rev_induct) auto

section \<open>Objects from keys and values\<close>

text \<open>The conditions of \<open>assignValue\<close> only save writes: the property has the value afterwards.\<close>

lemma assignValue_put: "assignValue proto object key v = obj_put object (toPropertyKey key) v"
  by (auto simp: assignValue_def obj_put_def Let_def fun_eq_iff split: option.splits)

lemma fromPairs_fold:
  "fromPairs (Some ps) = fold (\<lambda>p res. obj_put res (toPropertyKey (fst p)) (snd p)) ps Map.empty"
  unfolding fromPairs_def Let_def option.case
  by (rule fold_nth [of "\<lambda>p res. obj_put res (toPropertyKey (fst p)) (snd p)"])

text \<open>
  \<open>zipObject\<close> of keys and values is \<open>fromPairs\<close> of the pairs, whatever the prototype holds; where
  there are fewer values than keys the remaining values are \<open>undefined\<close>, and excess values are
  dropped.
\<close>

lemma zipObject_fromPairs:
  "zipObject proto (Some ks) (Some vs) = fromPairs (Some (zip ks (vs @ replicate (length ks - length vs) Undefined)))"
proof -
  let ?ps = "zip ks (vs @ replicate (length ks - length vs) Undefined)"
  have len: "length ?ps = length ks" by simp
  have "fold (\<lambda>i res. obj_put res (toPropertyKey (ks ! i)) (if i < length vs then vs ! i else Undefined)) [0..<length ks] Map.empty
      = fold (\<lambda>i res. obj_put res (toPropertyKey (fst (?ps ! i))) (snd (?ps ! i))) [0..<length ks] Map.empty"
    by (rule fold_cong) (auto simp: fun_eq_iff nth_append)
  also have "\<dots> = fromPairs (Some ?ps)" unfolding fromPairs_def option.case Let_def len by simp
  finally show ?thesis by (simp add: zipObject_def baseZipObject_def assignValue_put Let_def)
qed

section \<open>Flattening\<close>

primrec flat :: "nat \<Rightarrow> item list \<Rightarrow> item list" where
  "flat 0 xs = xs"
| "flat (Suc n) xs = concat (map (\<lambda>v. if isFlattenable v then flat n (elements v) else [v]) xs)"

lemma flat_append: "flat n (xs @ ys) = flat n xs @ flat n ys"
  by (cases n) simp_all

lemma flat_concat: "flat n (concat xss) = concat (map (flat n) xss)"
proof (induction xss)
  case Nil
  show ?case by (cases n) simp_all
qed (simp add: flat_append)

lemma flat_leaf: "\<not> isFlattenable v \<Longrightarrow> flat n [v] = [v]"
  by (cases n) simp_all

lemma flat_add: "flat (m + n) xs = flat m (flat n xs)"
proof (induction n arbitrary: xs)
  case (Suc n)
  show ?case by (auto simp: flat_concat Suc flat_leaf intro!: arg_cong [of _ _ concat])
qed simp

lemma baseFlatten_flat: "baseFlatten xs (enat n) isFlattenable False r = r @ flat n xs"
proof (induction n arbitrary: xs r)
  case 0
  then show ?case by (induction xs arbitrary: r) (simp_all add: zero_enat_def [symmetric])
next
  case (Suc n)
  show ?case
  proof (induction xs arbitrary: r)
    case (Cons v vs)
    have "enat (Suc n) > 1 \<longleftrightarrow> n \<noteq> 0" by (auto simp: one_enat_def)
    moreover have "enat (Suc n) - 1 = enat n" by (simp add: one_enat_def)
    ultimately show ?case using Suc [of "elements v" r] Cons by (auto simp: zero_enat_def)
  qed simp
qed

fun leaves :: "item \<Rightarrow> jsval list" where
  "leaves (Leaf v) = [v]"
| "leaves (Items xs) = concat (map leaves xs)"

lemma baseFlatten_deep:
  "baseFlatten xs d p st r = r @ map Leaf (concat (map leaves xs))"
  if "d = \<infinity>" "p = isFlattenable" "\<not> st"
  using that
proof (induction xs d p st r rule: baseFlatten.induct)
  case (2 v xs d p st r)
  have inf: "(\<infinity> :: enat) - 1 = \<infinity>" "(1 :: enat) < \<infinity>" by (simp_all add: one_enat_def)
  show ?case
  proof (cases v)
    case (Items ys)
    with 2(1) [of] 2(2-) inf show ?thesis by simp
  next
    case (Leaf w)
    with 2(2-) inf show ?thesis by simp
  qed
qed simp

text \<open>
  Flattening by a depth and then by another is flattening by the sum of the depths, one level is
  what \<open>flatten\<close> removes, and \<open>flattenDeep\<close> returns all the leaves of the nested arrays in order.
\<close>

lemma flatten_levels:
  assumes "0 \<le> m" "0 \<le> n"
  shows "flattenDepth (Some (flattenDepth (Some xs) (Num n))) (Num m) = flattenDepth (Some xs) (Num (m + n))
    \<and> flatten (Some xs) = flattenDepth (Some xs) (Num 1)
    \<and> flattenDeep (Some xs) = map Leaf (concat (map leaves xs))"
proof -
  have nil: "flat k [] = []" for k by (cases k) simp_all
  have depth: "flattenDepth (Some ys) (Num d) = flat (nat d) ys" for ys d
    by (simp add: flattenDepth_def baseFlatten_flat nil)
  have "flatten (Some xs) = flat 1 xs" using baseFlatten_flat [of xs 1 "[]"] by (auto simp: flatten_def one_enat_def nil)
  moreover have "flattenDeep (Some xs) = map Leaf (concat (map leaves xs))"
    by (simp add: flattenDeep_def baseFlatten_deep)
  moreover have "nat (m + n) = nat m + nat n" using assms by (rule nat_add_distrib)
  ultimately show ?thesis by (simp add: depth flat_add)
qed

end
