(* ===== verification/React_Text.thy ===== *)
theory React_Text
  imports Js_Value "HOL-Library.Log_Nat"
begin

text \<open>
  The text helpers of React in the bundled page: the checksum \<open>adler32\<close> with its unrolled loop
  (each addition rounds as one of doubles does, and the reduction of the sums keeps them exact),
  the escaping of element keys and its inverse, the HTML escaping of text content, and
  \<open>FallbackCompositionState\<close>, which finds the text an input method inserted. Strings are
  sequences of code units, as in \<open>Js\<close>.
\<close>

section \<open>Strings\<close>

text \<open>\<open>charCodeAt\<close> inside the string, \<open>s[i]\<close> (where \<open>None\<close> is \<open>undefined\<close>), \<open>substring\<close> and
  \<open>slice\<close> with a negative or missing end.\<close>

definition charCodeAt :: "js_string \<Rightarrow> nat \<Rightarrow> int" where
  "charCodeAt s i = uint (s ! i)"

definition char_at :: "js_string \<Rightarrow> int \<Rightarrow> code_unit option" where
  "char_at s i = (if 0 \<le> i \<and> i < int (length s) then Some (s ! nat i) else None)"

definition substring :: "js_string \<Rightarrow> nat \<Rightarrow> nat \<Rightarrow> js_string" where
  "substring s a b = take (max a b - min a b) (drop (min a b) s)"

definition slice_to :: "js_string \<Rightarrow> nat \<Rightarrow> int option \<Rightarrow> js_string" where
  "slice_to s start tail =
     (let stop = (case tail of None \<Rightarrow> int (length s)
        | Some e \<Rightarrow> if e < 0 then max (int (length s) + e) 0 else min e (int (length s)))
      in take (nat stop - start) (drop start s))"

section \<open>adler32\<close>

definition MOD :: int where
  "MOD = 65521"

text \<open>Sums are doubles: an integer of more than 53 bits is rounded to the nearest one with 53
  significant bits, to the even one of two equally near.\<close>

definition to_double :: "int \<Rightarrow> int" where
  "to_double x =
     (let e = nat (bitlen \<bar>x\<bar> - 53); q = \<bar>x\<bar> div 2 ^ e; r = \<bar>x\<bar> mod 2 ^ e
      in if e = 0 then x
         else sgn x * ((if 2 * r > 2 ^ e \<or> 2 * r = 2 ^ e \<and> odd q then q + 1 else q) * 2 ^ e))"

definition dadd :: "int \<Rightarrow> int \<Rightarrow> int" where
  "dadd a b = to_double (a + b)"

text \<open>The body of the unrolled loop, the loop to \<open>n\<close>, the loop to \<open>m\<close> and the last loop.\<close>

definition adler_quad :: "js_string \<Rightarrow> nat \<Rightarrow> int \<times> int \<Rightarrow> int \<times> int" where
  "adler_quad data i s =
     (let a1 = dadd (fst s) (charCodeAt data i);
          a2 = dadd a1 (charCodeAt data (i + 1));
          a3 = dadd a2 (charCodeAt data (i + 2));
          a4 = dadd a3 (charCodeAt data (i + 3))
      in (a4, dadd (snd s) (dadd (dadd (dadd a1 a2) a3) a4)))"

function adler_inner :: "js_string \<Rightarrow> nat \<Rightarrow> nat \<Rightarrow> int \<times> int \<Rightarrow> nat \<times> int \<times> int" where
  "adler_inner data n i s =
     (if i < n then adler_inner data n (i + 4) (adler_quad data i s) else (i, s))"
  by pat_completeness auto
termination by (relation "measure (\<lambda>(data, n, i, s). n - i)") auto

declare adler_inner.simps [simp del]

lemma adler_inner_progress: "i \<le> fst (adler_inner data n i s)" "i < n \<Longrightarrow> i < fst (adler_inner data n i s)"
proof -
  show le: "i \<le> fst (adler_inner data n i s)" for i s
    by (induction data n i s rule: adler_inner.induct)
      (subst adler_inner.simps, auto simp del: split_paired_All)
  show "i < fst (adler_inner data n i s)" if "i < n"
    using that le [of "i + 4" "adler_quad data i s"] by (subst adler_inner.simps) simp
qed

definition reduce :: "int \<times> int \<Rightarrow> int \<times> int" where
  "reduce s = (fst s mod MOD, snd s mod MOD)"

function adler_outer :: "js_string \<Rightarrow> nat \<Rightarrow> nat \<Rightarrow> int \<times> int \<Rightarrow> nat \<times> int \<times> int" where
  "adler_outer data m i s =
     (if i < m
      then let r = adler_inner data (min (i + 4096) m) i s
           in adler_outer data m (fst r) (reduce (snd r))
      else (i, s))"
  by pat_completeness auto
termination
  by (relation "measure (\<lambda>(data, m, i, s). m - i)")
    (auto intro!: diff_less_mono2 adler_inner_progress)

declare adler_outer.simps [simp del]

function adler_tail :: "js_string \<Rightarrow> nat \<Rightarrow> int \<times> int \<Rightarrow> int \<times> int" where
  "adler_tail data i s =
     (if i < length data
      then let a = dadd (fst s) (charCodeAt data i) in adler_tail data (i + 1) (a, dadd (snd s) a)
      else s)"
  by pat_completeness auto
termination by (relation "measure (\<lambda>(data, i, s). length data - i)") auto

declare adler_tail.simps [simp del]

definition adler32 :: "js_string \<Rightarrow> jsnum" where
  "adler32 data =
     (let l = int (length data);
          m = (case jand (Num l) (Num (NOT 3)) of Num m \<Rightarrow> nat m | _ \<Rightarrow> 0);
          r = adler_outer data m 0 (1, 0);
          s = reduce (adler_tail data (fst r) (snd r))
      in jor (Num (fst s)) (jshl (Num (snd s)) 16))"

section \<open>KeyEscapeUtils\<close>

text \<open>A global replacement by a pattern of one character, and by the pattern \<open>(=0|=2)\<close>.\<close>

definition escaperLookup :: "code_unit \<Rightarrow> js_string" where
  "escaperLookup c = (if [c] = lit ''='' then lit ''=0'' else if [c] = lit '':'' then lit ''=2'' else [c])"

definition escape :: "js_string \<Rightarrow> js_string" where
  "escape key = lit ''$'' @ concat (map escaperLookup key)"

fun unescape_matches :: "js_string \<Rightarrow> js_string" where
  "unescape_matches (c # d # s) =
     (if [c, d] = lit ''=0'' then lit ''='' @ unescape_matches s
      else if [c, d] = lit ''=2'' then lit '':'' @ unescape_matches s
      else c # unescape_matches (d # s))"
| "unescape_matches s = s"

definition unescape :: "js_string \<Rightarrow> js_string" where
  "unescape key =
     unescape_matches
       (if take 1 key = lit ''.'' \<and> take 1 (drop 1 key) = lit ''$'' then drop 2 key else drop 1 key)"

section \<open>escapeTextContentForBrowser\<close>

text \<open>The \<open>switch\<close> of \<open>escapeHtml\<close>, where \<open>None\<close> is its \<open>continue\<close>, and the loop's body.\<close>

definition html_escape :: "code_unit \<Rightarrow> js_string option" where
  "html_escape c =
     (let n = uint c
      in if n = 34 then Some (lit ''&quot;'')
         else if n = 38 then Some (lit ''&amp;'')
         else if n = 39 then Some (lit ''&#x27;'')
         else if n = 60 then Some (lit ''&lt;'')
         else if n = 62 then Some (lit ''&gt;'')
         else None)"

definition matchHtmlRegExp :: "code_unit \<Rightarrow> bool" where
  "matchHtmlRegExp c \<longleftrightarrow> [c] \<in> set [lit [CHR 0x22], lit [CHR 0x27], lit ''&'', lit ''<'', lit ''>'']"

definition escapeHtml_step :: "js_string \<Rightarrow> nat \<Rightarrow> js_string \<times> nat \<Rightarrow> js_string \<times> nat" where
  "escapeHtml_step str index s =
     (case html_escape (str ! index) of
        None \<Rightarrow> s
      | Some e \<Rightarrow>
          ((if snd s \<noteq> index then fst s @ substring str (snd s) index else fst s) @ e, index + 1))"

definition escapeHtml :: "js_string \<Rightarrow> js_string" where
  "escapeHtml str =
     (let match = search (\<lambda>i. matchHtmlRegExp (str ! i)) [0..<length str]
      in if match < 0 then str
         else let s = fold (escapeHtml_step str) [nat match..<length str] ([], 0)
              in if snd s \<noteq> length str then fst s @ substring str (snd s) (length str) else fst s)"

datatype react_text = TextBoolean bool | TextNumber int | TextString js_string

fun text_string :: "react_text \<Rightarrow> js_string" where
  "text_string (TextBoolean b) = lit (if b then ''true'' else ''false'')"
| "text_string (TextNumber n) = lit (dec_int n)"
| "text_string (TextString s) = s"

fun escapeTextContentForBrowser :: "react_text \<Rightarrow> js_string" where
  "escapeTextContentForBrowser (TextBoolean b) = text_string (TextBoolean b)"
| "escapeTextContentForBrowser (TextNumber n) = text_string (TextNumber n)"
| "escapeTextContentForBrowser (TextString s) = escapeHtml s"

section \<open>FallbackCompositionState\<close>

text \<open>The observed node: its \<open>value\<close>, when it has that property, and its text content.\<close>

record dom_text =
  node_value :: "js_string option"
  node_content :: js_string

record composition =
  root :: "dom_text option"
  startText :: "js_string option"
  fallbackText :: "js_string option"

definition getText :: "dom_text \<Rightarrow> js_string" where
  "getText r = (case node_value r of Some v \<Rightarrow> v | None \<Rightarrow> node_content r)"

definition FallbackCompositionState :: "dom_text \<Rightarrow> composition" where
  "FallbackCompositionState r = \<lparr>root = Some r, startText = Some (getText r), fallbackText = None\<rparr>"

definition destructor :: "composition \<Rightarrow> composition" where
  "destructor c = \<lparr>root = None, startText = None, fallbackText = None\<rparr>"

text \<open>A counting loop that a condition breaks, the two such loops of \<open>getData\<close>, and the slice they determine.\<close>

definition break_at :: "(nat \<Rightarrow> bool) \<Rightarrow> nat \<Rightarrow> nat \<Rightarrow> nat" where
  "break_at p m n = (let i = search p [m..<n] in if i < 0 then n else nat i)"

definition scan_start :: "js_string \<Rightarrow> js_string \<Rightarrow> nat" where
  "scan_start sv ev = break_at (\<lambda>i. char_at sv (int i) \<noteq> char_at ev (int i)) 0 (length sv)"

definition scan_end :: "js_string \<Rightarrow> js_string \<Rightarrow> nat \<Rightarrow> nat" where
  "scan_end sv ev minEnd =
     break_at (\<lambda>e. char_at sv (int (length sv) - int e) \<noteq> char_at ev (int (length ev) - int e))
       1 (minEnd + 1)"

definition inserted :: "js_string \<Rightarrow> js_string \<Rightarrow> js_string" where
  "inserted sv ev =
     (let start = scan_start sv ev;
          stop = scan_end sv ev (length sv - start)
      in slice_to ev start (if 1 < stop then Some (1 - int stop) else None))"

text \<open>A released state has neither a root nor a text, and reading them throws.\<close>

definition getData :: "composition \<Rightarrow> js_error + js_string \<times> composition" where
  "getData c =
     (case fallbackText c of
        Some (x # t) \<Rightarrow> Inr (x # t, c)
      | _ \<Rightarrow>
          (case (startText c, root c) of
             (Some sv, Some r) \<Rightarrow>
               (let t = inserted sv (getText r) in Inr (t, c\<lparr>fallbackText := Some t\<rparr>))
           | _ \<Rightarrow> Inl TypeError))"

section \<open>The checksum is the sum it unrolls\<close>

text \<open>One character of the textbook checksum, without and with the reduction.\<close>

definition adler_add :: "code_unit \<Rightarrow> int \<times> int \<Rightarrow> int \<times> int" where
  "adler_add c s = (fst s + uint c, snd s + fst s + uint c)"

definition adler_ref :: "js_string \<Rightarrow> int \<times> int" where
  "adler_ref data = fold (\<lambda>c s. reduce (adler_add c s)) data (1, 0)"

lemma reduce_reduce [simp]: "reduce (reduce s) = reduce s"
  by (simp add: reduce_def)

lemma reduce_add: "reduce (adler_add c (reduce s)) = reduce (adler_add c s)"
  unfolding reduce_def adler_add_def fst_conv snd_conv
  by (metis mod_add_left_eq mod_add_eq)

lemma reduce_fold: "reduce (fold adler_add xs (reduce s)) = reduce (fold adler_add xs s)"
proof (induction xs rule: rev_induct)
  case (snoc x xs)
  then show ?case by simp (metis reduce_add)
qed simp

lemma fold_reduce: "reduce (fold (\<lambda>c s. reduce (adler_add c s)) xs s) = reduce (fold adler_add xs s)"
proof (induction xs rule: rev_induct)
  case (snoc x xs)
  then show ?case by simp (metis reduce_add)
qed simp

lemma adler_ref_reduce: "adler_ref data = reduce (fold adler_add data (1, 0))"
proof (cases data rule: rev_cases)
  case Nil
  then show ?thesis by (simp add: adler_ref_def reduce_def MOD_def)
next
  case (snoc xs x)
  then have "adler_ref data = reduce (adler_ref data)" by (simp add: adler_ref_def)
  then show ?thesis unfolding adler_ref_def fold_reduce .
qed

lemma fold_take_Suc:
  "i < length xs \<Longrightarrow> fold f (take (Suc k) (drop i xs)) s = fold f (take k (drop (Suc i) xs)) (f (xs ! i) s)"
  by (simp add: Cons_nth_drop_Suc [symmetric])

text \<open>The reduction keeps the sums small enough for a double to hold them exactly: \<open>sums_fit k s\<close>
  says that \<open>k\<close> more characters can be added to the sums \<open>s\<close> without rounding.\<close>

definition sums_fit :: "nat \<Rightarrow> int \<times> int \<Rightarrow> bool" where
  "sums_fit k s \<longleftrightarrow>
     0 \<le> fst s \<and> fst s + int k * 65535 \<le> 2 ^ 29 \<and> 0 \<le> snd s \<and> snd s + int k * 2 ^ 29 \<le> 2 ^ 42"

lemma to_double_exact: "\<bar>x\<bar> < 2 ^ 53 \<Longrightarrow> to_double x = x"
  using bitlen_le_iff_power [of "\<bar>x\<bar>" 53] by (simp add: to_double_def Let_def)

lemma dadd_exact: "\<bar>a + b\<bar> < 2 ^ 53 \<Longrightarrow> dadd a b = a + b"
  by (simp add: dadd_def to_double_exact)

lemma charCodeAt_bounds: "0 \<le> charCodeAt data i" "charCodeAt data i \<le> 65535"
  using uint_lt2p [of "data ! i"] by (auto simp: charCodeAt_def)

lemma sums_fit_reduce: "sums_fit 4096 (reduce s)"
proof -
  have "0 \<le> x mod MOD \<and> x mod MOD < 65521" for x by (simp add: MOD_def)
  from this [of "fst s"] this [of "snd s"] show ?thesis by (simp add: sums_fit_def reduce_def)
qed

lemma sums_fit_add: "sums_fit (Suc k) s \<Longrightarrow> sums_fit k (adler_add c s)"
  using uint_lt2p [of c] by (auto simp: sums_fit_def adler_add_def algebra_simps)

lemma adler_add_exact:
  assumes "sums_fit (Suc k) s"
  shows "dadd (fst s) (uint c) = fst (adler_add c s)"
    "dadd (snd s) (dadd (fst s) (uint c)) = snd (adler_add c s)"
proof -
  have b: "0 \<le> fst s" "fst s + int k * 65535 + 65535 \<le> 2 ^ 29" "0 \<le> snd s" "snd s + int k * 2 ^ 29 + 2 ^ 29 \<le> 2 ^ 42"
    "0 \<le> uint c" "uint c \<le> 65535"
    using assms uint_lt2p [of c] by (auto simp: sums_fit_def algebra_simps)
  show a: "dadd (fst s) (uint c) = fst (adler_add c s)"
    unfolding adler_add_def fst_conv using b by (intro dadd_exact) auto
  show "dadd (snd s) (dadd (fst s) (uint c)) = snd (adler_add c s)"
    unfolding a unfolding adler_add_def fst_conv snd_conv add.assoc using b by (intro dadd_exact) auto
qed

lemma adler_quad_exact:
  assumes "sums_fit (4 + k) s"
  shows "adler_quad data i s =
    adler_add (data ! (i + 3)) (adler_add (data ! (i + 2)) (adler_add (data ! (i + 1)) (adler_add (data ! i) s)))"
proof -
  let ?c = "charCodeAt data"
  have b: "0 \<le> fst s" "fst s + int k * 65535 + 4 * 65535 \<le> 2 ^ 29" "0 \<le> snd s"
    "snd s + int k * 2 ^ 29 + 4 * 2 ^ 29 \<le> 2 ^ 42"
    using assms by (auto simp: sums_fit_def algebra_simps)
  have c: "0 \<le> ?c j" "?c j \<le> 65535" for j by (rule charCodeAt_bounds)+
  note cs = c [of i] c [of "i + 1"] c [of "i + 2"] c [of "i + 3"]
  have 1: "dadd (fst s) (?c i) = fst s + ?c i" using b cs by (intro dadd_exact) auto
  have 2: "dadd (fst s + ?c i) (?c (i + 1)) = fst s + ?c i + ?c (i + 1)" using b cs by (intro dadd_exact) auto
  have 3: "dadd (fst s + ?c i + ?c (i + 1)) (?c (i + 2)) = fst s + ?c i + ?c (i + 1) + ?c (i + 2)"
    using b cs by (intro dadd_exact) auto
  have 4: "dadd (fst s + ?c i + ?c (i + 1) + ?c (i + 2)) (?c (i + 3)) =
      fst s + ?c i + ?c (i + 1) + ?c (i + 2) + ?c (i + 3)"
    using b cs by (intro dadd_exact) auto
  have sum: "dadd x y = x + y" if "0 \<le> x" "x \<le> 2 ^ 50" "0 \<le> y" "y \<le> 2 ^ 50" for x y
    using that by (intro dadd_exact) auto
  show ?thesis
    unfolding adler_quad_def Let_def 1 2 3 4 using b cs
    by (simp add: sum adler_add_def charCodeAt_def [symmetric] algebra_simps)
qed

lemma adler_quad_fold:
  assumes "i + 4 \<le> length data" "sums_fit (4 + k) s"
  shows "fold adler_add (take (4 + n) (drop i data)) s =
     fold adler_add (take n (drop (i + 4) data)) (adler_quad data i s)"
  unfolding adler_quad_exact [OF assms(2)] using assms(1)
  by (simp add: fold_take_Suc eval_nat_numeral)

lemma sums_fit_quad: "sums_fit (4 + k) s \<Longrightarrow> sums_fit k (adler_quad data i s)"
  unfolding adler_quad_exact by (intro sums_fit_add) (simp add: eval_nat_numeral)

lemma adler_inner_fold:
  "n = i + 4 * k \<Longrightarrow> n \<le> length data \<Longrightarrow> sums_fit (4 * k) s \<Longrightarrow>
     adler_inner data n i s = (n, fold adler_add (take (4 * k) (drop i data)) s)"
proof (induction k arbitrary: i s)
  case 0
  then show ?case by (simp add: adler_inner.simps)
next
  case (Suc k)
  have fit: "sums_fit (4 + 4 * k) s" using Suc.prems by simp
  have "adler_inner data n i s = adler_inner data n (i + 4) (adler_quad data i s)"
    using Suc.prems by (subst adler_inner.simps) simp
  also have "\<dots> = (n, fold adler_add (take (4 * k) (drop (i + 4) data)) (adler_quad data i s))"
    using Suc.prems sums_fit_quad [OF fit] by (intro Suc.IH) auto
  finally show ?case using adler_quad_fold [OF _ fit, of i data "4 * k"] Suc.prems by simp
qed

lemma adler_outer_fold:
  "m = i + 4 * k \<Longrightarrow> m \<le> length data \<Longrightarrow> sums_fit 4096 s \<Longrightarrow>
     fst (adler_outer data m i s) = m \<and>
     reduce (snd (adler_outer data m i s)) = reduce (fold adler_add (take (4 * k) (drop i data)) s) \<and>
     sums_fit 4096 (snd (adler_outer data m i s))"
proof (induction k arbitrary: i s rule: less_induct)
  case (less k)
  show ?case
  proof (cases k)
    case 0
    with less.prems show ?thesis by (simp add: adler_outer.simps)
  next
    case (Suc k')
    define j where "j = min 1024 k"
    have j: "0 < j" "j \<le> k" "j \<le> 1024" using Suc by (auto simp: j_def)
    have n: "min (i + 4096) m = i + 4 * j" using less.prems by (auto simp: j_def)
    let ?s = "fold adler_add (take (4 * j) (drop i data)) s"
    have "sums_fit (4 * j) s" using less.prems(3) j(3) by (auto simp: sums_fit_def)
    then have "adler_inner data (i + 4 * j) i s = (i + 4 * j, ?s)"
      using j less.prems by (intro adler_inner_fold) auto
    then have u: "adler_outer data m i s = adler_outer data m (i + 4 * j) (reduce ?s)"
      using Suc less.prems(1) n by (subst adler_outer.simps) simp
    have "take (4 * k) (drop i data) = take (4 * j) (drop i data) @ take (4 * (k - j)) (drop (i + 4 * j) data)"
      using j take_add [of "4 * j" "4 * (k - j)" "drop i data"] by (simp add: algebra_simps)
    moreover have "m = i + 4 * j + 4 * (k - j)" using j less.prems(1) by simp
    with less.IH [of "k - j" "i + 4 * j" "reduce ?s"] j less.prems(2) sums_fit_reduce
    have "fst (adler_outer data m (i + 4 * j) (reduce ?s)) = m \<and>
      reduce (snd (adler_outer data m (i + 4 * j) (reduce ?s))) =
      reduce (fold adler_add (take (4 * (k - j)) (drop (i + 4 * j) data)) ?s) \<and>
      sums_fit 4096 (snd (adler_outer data m (i + 4 * j) (reduce ?s)))"
      by (simp only: reduce_fold)
    ultimately show ?thesis by (simp add: u)
  qed
qed

lemma adler_tail_fold:
  "sums_fit (length data - i) s \<Longrightarrow> adler_tail data i s = fold adler_add (drop i data) s"
proof (induction data i s rule: adler_tail.induct)
  case (1 data i s)
  show ?case
  proof (cases "i < length data")
    case True
    then have fit: "sums_fit (Suc (length data - (i + 1))) s" using "1.prems" by (simp add: Suc_diff_Suc)
    note e = adler_add_exact [OF fit, of "data ! i"]
    have "(dadd (fst s) (charCodeAt data i), dadd (snd s) (dadd (fst s) (charCodeAt data i))) = adler_add (data ! i) s"
      unfolding charCodeAt_def e(2) unfolding e(1) by simp
    with "1.IH" [OF True refl] True sums_fit_add [OF fit] show ?thesis
      by (subst adler_tail.simps) (simp add: Let_def Cons_nth_drop_Suc [symmetric])
  next
    case False
    then show ?thesis by (simp add: adler_tail.simps)
  qed
qed

lemma mask_low_bits:
  "l < 2 ^ 31 \<Longrightarrow> jand (Num (int l)) (Num (NOT 3)) = Num (int (4 * (l div 4)))"
proof -
  assume l: "l < 2 ^ 31"
  have "int l AND NOT 3 = int (4 * (l div 4))"
  proof -
    have "int l AND NOT (mask 2) = push_bit 2 (drop_bit 2 (int l))"
      by (rule bit_eqI) (auto simp: bit_simps not_less simp del: add_2_eq_Suc add_2_eq_Suc')
    then have "int l AND NOT (mask 2) = int (4 * (l div 4))"
      by (simp add: push_bit_eq_mult drop_bit_eq_div zdiv_int)
    then show ?thesis by (simp add: mask_eq_exp_minus_1)
  qed
  moreover have "sint (word_of_int (int (4 * (l div 4))) :: 32 word) = int (4 * (l div 4))"
    using l by (intro sint_small) auto
  ultimately show ?thesis unfolding jand_def toInt32.simps of_int_and_eq [symmetric] by simp
qed

text \<open>The checksum of a string that an engine can hold, and the 32 bits it packs.\<close>

lemma jor_jshl_16:
  assumes "0 \<le> a" "a < 2 ^ 16"
  shows "jor (Num a) (jshl (Num b) 16) = Num (int32 (b * 2 ^ 16 + a))"
proof -
  have "a OR b * 2 ^ 16 = b * 2 ^ 16 + a"
    using or_disjoint [of a 16 b] assms by (simp only: or.commute)
  then have "word_of_int a OR push_bit 16 (word_of_int b) = (word_of_int (b * 2 ^ 16 + a) :: 32 word)"
    by (metis of_int_or_eq of_int_push_bit push_bit_eq_mult)
  then show ?thesis by (simp add: jor_def jshl_def int32_def)
qed

lemma reduce_bounds: "0 \<le> fst (reduce s)" "fst (reduce s) < 2 ^ 16"
  using pos_mod_bound [of MOD "fst s"] by (auto simp: reduce_def MOD_def)

text \<open>
  C36: \<open>adler32\<close>, which adds doubles, takes four characters at a time and reduces modulo 65521
  only once every 4096 characters, computes the checksum over exact integers that reduces both
  sums after every character: the reduction comes often enough for no sum to be rounded. The first
  sum is packed into the low 16 bits and the second one into the high 16 bits of a signed 32-bit
  number, for every string of fewer than \<open>2 ^ 31\<close> characters.
\<close>

theorem adler32_unrolled:
  assumes "length data < 2 ^ 31"
  shows "adler32 data = Num (int32 (snd (adler_ref data) * 2 ^ 16 + fst (adler_ref data)))"
proof -
  define k where "k = length data div 4"
  define r where "r = adler_outer data (4 * k) 0 (1, 0)"
  have k: "4 * k \<le> length data" by (simp add: k_def)
  have "sums_fit 4096 (1, 0)" by (simp add: sums_fit_def)
  from adler_outer_fold [of "4 * k" 0 k data "(1, 0)", OF _ _ this] k
  have r: "fst r = 4 * k" "reduce (snd r) = reduce (fold adler_add (take (4 * k) data) (1, 0))"
    and fit: "sums_fit 4096 (snd r)"
    by (simp_all add: r_def)
  have "length data - 4 * k \<le> 3" by (simp add: k_def)
  with fit have "sums_fit (length data - fst r) (snd r)" by (auto simp: sums_fit_def r(1))
  from adler_tail_fold [OF this]
  have "reduce (adler_tail data (fst r) (snd r)) = reduce (fold adler_add (drop (4 * k) data) (snd r))"
    by (simp add: r(1))
  also have "\<dots> = reduce (fold adler_add (drop (4 * k) data) (fold adler_add (take (4 * k) data) (1, 0)))"
    by (metis r(2) reduce_fold)
  also have "\<dots> = adler_ref data"
    unfolding adler_ref_reduce by (metis append_take_drop_id comp_apply fold_append)
  finally have *: "reduce (adler_tail data (fst r) (snd r)) = adler_ref data" .
  have "adler32 data = jor (Num (fst (adler_ref data))) (jshl (Num (snd (adler_ref data))) 16)"
    unfolding adler32_def using mask_low_bits [OF assms] *
    by (simp add: Let_def k_def [symmetric] r_def nat_mult_distrib)
  then show ?thesis using reduce_bounds by (simp add: adler_ref_reduce jor_jshl_16)
qed

theorem adler32_unrolled_witness:
  "length (lit ''React'') < 2 ^ 31 \<and>
   adler32 (lit ''React'') = Num (int32 (snd (adler_ref (lit ''React'')) * 2 ^ 16 + fst (adler_ref (lit ''React''))))"
  using adler32_unrolled [of "lit ''React''"] by (simp add: lit_def)

section \<open>Escaping is undone and hides the special characters\<close>

lemma escaperLookup_cases:
  obtains "c = 61" "escaperLookup c = [61, 48]" | "c = 58" "escaperLookup c = [61, 50]"
  | "c \<noteq> 61" "c \<noteq> 58" "escaperLookup c = [c]"
  by (cases "c = 61"; cases "c = 58") (auto simp: escaperLookup_def lit_def)

lemma unescape_matches_plain: "c \<noteq> 61 \<Longrightarrow> unescape_matches (c # s) = c # unescape_matches s"
  by (cases s) (auto simp: lit_def)

lemma unescape_matches_pairs:
  "unescape_matches (61 # 48 # s) = 61 # unescape_matches s"
  "unescape_matches (61 # 50 # s) = 58 # unescape_matches s"
  by (simp_all add: lit_def)

lemma unescape_matches_escape: "unescape_matches (concat (map escaperLookup key)) = key"
proof (induction key)
  case (Cons c key)
  then show ?case
    by (cases c rule: escaperLookup_cases)
      (simp_all del: unescape_matches.simps(1) add: unescape_matches_plain unescape_matches_pairs)
qed simp

text \<open>A key comes back from the form \<open>$...\<close> and from the form \<open>.$...\<close> of a \<open>reactid\<close>, and an
  escaped key has no colon.\<close>

lemma unescape_escape: "unescape (escape key) = key" "unescape (lit ''.'' @ escape key) = key"
  by (simp_all add: unescape_def escape_def unescape_matches_escape, simp_all add: lit_def unescape_matches_escape)

lemma escape_no_colon: "58 \<notin> set (escape key)"
proof -
  have "58 \<notin> set (escaperLookup c)" for c by (cases c rule: escaperLookup_cases) auto
  then show ?thesis by (auto simp: escape_def lit_def)
qed

text \<open>The specification: the entity of each of the five characters that HTML gives a meaning, and
  any other character as it is.\<close>

definition html_char :: "code_unit \<Rightarrow> js_string" where
  "html_char c =
     (if [c] = lit ''&'' then lit ''&amp;''
      else if [c] = lit ''<'' then lit ''&lt;''
      else if [c] = lit ''>'' then lit ''&gt;''
      else if [c] = lit [CHR 0x22] then lit ''&quot;''
      else if [c] = lit [CHR 0x27] then lit ''&#x27;''
      else [c])"

lemma html_char_escape: "html_char c = (case html_escape c of None \<Rightarrow> [c] | Some e \<Rightarrow> e)"
proof -
  have "uint c = 34 \<longleftrightarrow> c = 34" "uint c = 38 \<longleftrightarrow> c = 38" "uint c = 39 \<longleftrightarrow> c = 39"
    "uint c = 60 \<longleftrightarrow> c = 60" "uint c = 62 \<longleftrightarrow> c = 62"
    by (auto simp: word_uint_eq_iff)
  moreover have "lit ''&'' = [38]" "lit ''<'' = [60]" "lit ''>'' = [62]" "lit [CHR 0x22] = [34]" "lit [CHR 0x27] = [39]"
    by (simp_all add: lit_def)
  ultimately show ?thesis by (simp add: html_char_def html_escape_def Let_def)
qed

lemma html_escape_match: "html_escape c \<noteq> None \<longleftrightarrow> matchHtmlRegExp c"
  by (auto simp: html_escape_def matchHtmlRegExp_def lit_def word_uint_eq_iff Let_def)

lemma substring_le: "a \<le> b \<Longrightarrow> substring s a b = take (b - a) (drop a s)"
  by (simp add: substring_def)

lemma html_plain: "(\<And>c. c \<in> set xs \<Longrightarrow> \<not> matchHtmlRegExp c) \<Longrightarrow> concat (map html_char xs) = xs"
  by (induction xs) (auto simp: html_char_escape html_escape_match [symmetric])

text \<open>The invariant of the loop of \<open>escapeHtml\<close>: what is before \<open>lastIndex\<close> has been escaped, and
  what is between it and the index holds nothing to escape.\<close>

definition html_inv :: "js_string \<Rightarrow> nat \<Rightarrow> js_string \<times> nat \<Rightarrow> bool" where
  "html_inv str k s \<longleftrightarrow>
     snd s \<le> k \<and> fst s = concat (map html_char (take (snd s) str)) \<and>
     (\<forall>i. snd s \<le> i \<and> i < k \<longrightarrow> \<not> matchHtmlRegExp (str ! i))"

lemma html_inv_done:
  assumes "html_inv str k s" "k \<le> length str"
  shows "fst s @ substring str (snd s) k = concat (map html_char (take k str))"
proof -
  from assms(1) have s: "snd s \<le> k" and plain: "\<And>i. snd s \<le> i \<Longrightarrow> i < k \<Longrightarrow> \<not> matchHtmlRegExp (str ! i)"
    by (auto simp: html_inv_def)
  have "\<not> matchHtmlRegExp c" if "c \<in> set (take (k - snd s) (drop (snd s) str))" for c
    using that plain assms(2) by (fastforce simp: in_set_conv_nth)
  then have "concat (map html_char (take (k - snd s) (drop (snd s) str))) = substring str (snd s) k"
    using html_plain s by (simp add: substring_le)
  moreover have "take k str = take (snd s) str @ take (k - snd s) (drop (snd s) str)"
    using s by (metis le_add_diff_inverse take_add)
  ultimately show ?thesis using assms(1) by (simp add: html_inv_def)
qed

lemma html_inv_step:
  assumes "html_inv str k s" "k < length str"
  shows "html_inv str (Suc k) (escapeHtml_step str k s)"
proof (cases "html_escape (str ! k)")
  case None
  with assms html_escape_match [of "str ! k"] show ?thesis
    by (auto simp: html_inv_def escapeHtml_step_def less_Suc_eq)
next
  case (Some e)
  have "(if snd s \<noteq> k then fst s @ substring str (snd s) k else fst s) = fst s @ substring str (snd s) k"
    by (simp add: substring_def)
  also have "\<dots> = concat (map html_char (take k str))" using html_inv_done [OF assms(1)] assms(2) by simp
  finally show ?thesis
    using Some assms(2) by (auto simp: html_inv_def escapeHtml_step_def take_Suc_conv_app_nth html_char_escape)
qed

lemma html_inv_loop:
  assumes "html_inv str k s" "k \<le> n" "n \<le> length str"
  shows "html_inv str n (fold (escapeHtml_step str) [k..<n] s)"
  using assms(2,3)
proof (induction n rule: dec_induct)
  case base
  with assms(1) show ?case by simp
next
  case (step n)
  then show ?case by (simp add: html_inv_step)
qed

lemma escapeHtml_chars: "escapeHtml str = concat (map html_char str)"
proof (cases rule: search_cases [of "\<lambda>i. matchHtmlRegExp (str ! i)" "[0..<length str]"])
  case 1
  then have "\<not> matchHtmlRegExp c" if "c \<in> set str" for c using that by (auto simp: in_set_conv_nth)
  with html_plain [of str] 1(1) show ?thesis by (simp add: escapeHtml_def)
next
  case (2 i)
  let ?s = "fold (escapeHtml_step str) [i..<length str] ([], 0)"
  have "html_inv str i ([], 0)" using 2(1) by (auto simp: html_inv_def search_upt)
  then have "html_inv str (length str) ?s" using 2(2) by (intro html_inv_loop) auto
  from html_inv_done [OF this] have "fst ?s @ substring str (snd ?s) (length str) = concat (map html_char str)"
    by simp
  then show ?thesis unfolding escapeHtml_def Let_def 2(1) by (auto simp: substring_def)
qed

text \<open>The numbers and booleans that are not scanned hold nothing to escape.\<close>

lemma dec_int_plain: "c \<in> set (lit (dec_int n)) \<Longrightarrow> \<not> matchHtmlRegExp c"
proof -
  assume "c \<in> set (lit (dec_int n))"
  then obtain d where d: "d \<in> set (dec_int n)" "c = word_of_nat (code_of d)" by (auto simp: lit_def)
  then have "is_digit d \<or> d = CHR ''-''" using to_dec_digits by (auto simp: dec_int_def list_all_iff split: if_splits)
  then have n: "code_of d = 45 \<or> 48 \<le> code_of d \<and> code_of d \<le> 57" by (auto simp: is_digit_def)
  have "unat c = code_of d" unfolding d(2) using n by (intro unat_word_of_nat) auto
  then have "uint c = int (code_of d)" by (metis uint_nat)
  with n have "html_escape c = None" by (auto simp: html_escape_def Let_def)
  then show ?thesis by (simp add: html_escape_match [symmetric])
qed

lemma lit_bool_plain: "c \<in> set (lit (if b then ''true'' else ''false'')) \<Longrightarrow> \<not> matchHtmlRegExp c"
  by (cases b) (auto simp: lit_def matchHtmlRegExp_def)

lemma html_char_safe: "c \<in> set (html_char d) \<Longrightarrow> c \<notin> {34, 39, 60, 62}"
  by (auto simp: html_char_def lit_def split: if_splits)

text \<open>
  C37: the text that reaches the page is the given text with \<open>&\<close> replaced by \<open>&amp;\<close>, \<open><\<close> by
  \<open>&lt;\<close>, \<open>>\<close> by \<open>&gt;\<close>, \<open>"\<close> by \<open>&quot;\<close> and \<open>'\<close> by \<open>&#x27;\<close> and nothing else changed (the
  specification \<open>html_char\<close> lists these entities, it does not use the code's table), also on the paths that scan
  nothing (numbers, booleans, strings without a match) and on the path that copies the stretches
  between the matches; hence it holds no quote and no angle bracket.
\<close>

theorem escapeTextContent_escapes:
  "escapeTextContentForBrowser t = concat (map html_char (text_string t)) \<and>
   set (escapeTextContentForBrowser t) \<inter> {34, 39, 60, 62} = {}"
proof -
  have *: "escapeTextContentForBrowser t = concat (map html_char (text_string t))"
    by (cases t) (use html_plain dec_int_plain lit_bool_plain in \<open>simp_all add: escapeHtml_chars\<close>)
  show ?thesis unfolding * using html_char_safe by fastforce
qed

section \<open>The text an input method inserted\<close>

lemma char_at_eq_iff:
  "char_at s i = char_at t j \<longleftrightarrow>
     (if 0 \<le> i \<and> i < int (length s) then 0 \<le> j \<and> j < int (length t) \<and> s ! nat i = t ! nat j
      else \<not> (0 \<le> j \<and> j < int (length t)))"
  by (auto simp: char_at_def)

lemma break_at_first:
  assumes "m \<le> n"
  shows "m \<le> break_at p m n" "break_at p m n \<le> n" "\<And>i. m \<le> i \<Longrightarrow> i < break_at p m n \<Longrightarrow> \<not> p i"
proof -
  have "m \<le> break_at p m n \<and> break_at p m n \<le> n \<and> (\<forall>i. m \<le> i \<and> i < break_at p m n \<longrightarrow> \<not> p i)"
  proof (cases rule: search_cases [of p "[m..<n]"])
    case 1
    with assms show ?thesis by (auto simp: break_at_def)
  next
    case (2 i)
    then have "break_at p m n = i" by (simp add: break_at_def)
    with 2(1) search_upt [of p m n i] show ?thesis by auto
  qed
  then show "m \<le> break_at p m n" "break_at p m n \<le> n" "\<And>i. m \<le> i \<Longrightarrow> i < break_at p m n \<Longrightarrow> \<not> p i"
    by auto
qed

lemma scan_start_common: "scan_start sv ev \<le> length sv"
  "i < scan_start sv ev \<Longrightarrow> i < length ev \<and> sv ! i = ev ! i"
proof -
  let ?p = "\<lambda>i. char_at sv (int i) \<noteq> char_at ev (int i)"
  show le: "scan_start sv ev \<le> length sv" unfolding scan_start_def by (rule break_at_first) simp
  assume i: "i < scan_start sv ev"
  then have "\<not> ?p i" unfolding scan_start_def using break_at_first(3) [of 0 "length sv" i ?p] by simp
  with i le show "i < length ev \<and> sv ! i = ev ! i" by (auto simp: char_at_eq_iff split: if_splits)
qed

lemma scan_end_common:
  fixes sv ev :: js_string and m :: nat
  shows "1 \<le> scan_end sv ev m" "scan_end sv ev m \<le> m + 1"
    "1 \<le> e \<Longrightarrow> e < scan_end sv ev m \<Longrightarrow> m \<le> length sv \<Longrightarrow>
       e \<le> length ev \<and> sv ! (length sv - e) = ev ! (length ev - e)"
proof -
  let ?p = "\<lambda>e. char_at sv (int (length sv) - int e) \<noteq> char_at ev (int (length ev) - int e)"
  show "1 \<le> scan_end sv ev m" and le: "scan_end sv ev m \<le> m + 1"
    unfolding scan_end_def by (rule break_at_first, simp)+
  assume e: "1 \<le> e" "e < scan_end sv ev m" "m \<le> length sv"
  then have "\<not> ?p e" unfolding scan_end_def using break_at_first(3) [of 1 "m + 1" e ?p] by simp
  with e le show "e \<le> length ev \<and> sv ! (length sv - e) = ev ! (length ev - e)"
    by (auto simp: char_at_eq_iff nat_diff_distrib split: if_splits)
qed

lemma slice_to_tail:
  assumes "e \<le> length s"
  shows "slice_to s start (if 1 < Suc e then Some (1 - int (Suc e)) else None) =
    take (length s - e - start) (drop start s)"
proof (cases e)
  case (Suc n)
  have "nat (int (length s) + (1 - int (Suc e))) = length s - e" using assms by simp
  with Suc assms show ?thesis unfolding slice_to_def by (simp add: Let_def)
qed (simp add: slice_to_def)

text \<open>When the text has not become shorter, the old and the new text differ only in a middle part,
  and that part of the new text is the reported one.\<close>

lemma inserted_between:
  assumes "length sv \<le> length ev"
  shows "\<exists>pre mid post. sv = pre @ mid @ post \<and> ev = pre @ inserted sv ev @ post"
proof -
  define a where "a = scan_start sv ev"
  define e where "e = scan_end sv ev (length sv - a) - 1"
  note start = scan_start_common [where sv = sv and ev = ev, folded a_def]
  note fin = scan_end_common [where sv = sv and ev = ev and m = "length sv - a"]
  have a: "a \<le> length sv" "e \<le> length sv - a" using start(1) fin(2) by (auto simp: e_def)
  have pre: "take a ev = take a sv"
    using start a assms by (intro nth_equalityI) auto
  have post: "drop (length ev - e) ev = drop (length sv - e) sv"
  proof (rule nth_equalityI)
    fix i assume "i < length (drop (length ev - e) ev)"
    then have i: "i < e" using a assms by auto
    with fin(3) [of "e - i"] show "drop (length ev - e) ev ! i = drop (length sv - e) sv ! i"
      using a assms by (auto simp: e_def)
  qed (use a assms in auto)
  have s: "scan_end sv ev (length sv - a) = Suc e" using fin(1) by (simp add: e_def)
  have ins: "inserted sv ev = take (length ev - e - a) (drop a ev)"
    using slice_to_tail [of e ev a] a assms unfolding inserted_def Let_def a_def [symmetric] s by simp
  have split: "xs = take a xs @ take (length xs - e - a) (drop a xs) @ drop (length xs - e) xs"
    if "length sv \<le> length xs" for xs :: js_string
  proof -
    have "drop (length xs - e) xs = drop (length xs - e - a) (drop a xs)" using that a by simp
    then show ?thesis by (metis append_take_drop_id)
  qed
  have "sv = take a sv @ take (length sv - e - a) (drop a sv) @ drop (length sv - e) sv"
    using split [of sv] by blast
  moreover have "ev = take a sv @ inserted sv ev @ drop (length sv - e) sv"
    using split [OF assms] unfolding ins pre post .
  ultimately show ?thesis by blast
qed

lemma getData_reports:
  assumes "startText c = Some sv" "root c = Some r" "fallbackText c = None" "length sv \<le> length (getText r)"
  shows "\<exists>pre mid post t. getData c = Inr (t, c\<lparr>fallbackText := Some t\<rparr>) \<and>
    sv = pre @ mid @ post \<and> getText r = pre @ t @ post"
  using inserted_between [OF assms(4)] assms by (auto simp: getData_def Let_def)

text \<open>Later calls report the same text, and a state that was given back to the pool reports an
  error.\<close>

lemma getData_stable: "getData c = Inr (t, c') \<Longrightarrow> root c' = root c \<Longrightarrow> getData c' = Inr (t, c')"
  by (auto simp: getData_def Let_def split: option.splits list.splits)

lemma getData_released: "getData (destructor c) = Inl TypeError"
  by (simp add: getData_def destructor_def)

end
