(* ===== verification/React_Queue.thy ===== *)
theory React_Queue
  imports Js_Value
begin

text \<open>
  Two pieces of React's scheduling in the bundled page: \<open>PooledClass\<close>, which hands out instances
  of a class and takes them back for reuse, and \<open>CallbackQueue\<close>, a pooled class that collects
  callbacks and runs them. Instances are references into a heap of fields, so that handing one
  instance to two owners would show. The constructor and the destructor of the pooled class are
  parameters, as in the code; the callbacks are a parameter of the queue.
\<close>

section \<open>PooledClass\<close>

text \<open>
  A class with its statics \<open>instancePool\<close> and \<open>poolSize\<close>, the fields of the instances made so
  far, and the next free reference.
\<close>

record 'f klass =
  instancePool :: "nat list"
  poolSize :: nat
  obj_fields :: "nat \<Rightarrow> 'f option"
  next_ref :: nat

definition DEFAULT_POOL_SIZE :: nat where
  "DEFAULT_POOL_SIZE = 10"

text \<open>\<open>new Klass(\<dots>)\<close> runs the constructor on a fresh object without fields, and
  \<open>Klass.call(instance, \<dots>)\<close> on an object that has some.\<close>

definition new_klass :: "('f option \<Rightarrow> 'f) \<Rightarrow> 'f klass \<Rightarrow> nat \<times> 'f klass" where
  "new_klass init k =
     (next_ref k, k\<lparr>obj_fields := (obj_fields k)(next_ref k \<mapsto> init None), next_ref := next_ref k + 1\<rparr>)"

definition call_klass :: "('f option \<Rightarrow> 'f) \<Rightarrow> nat \<Rightarrow> 'f klass \<Rightarrow> 'f klass" where
  "call_klass init i k = k\<lparr>obj_fields := (obj_fields k)(i \<mapsto> init (obj_fields k i))\<rparr>"

definition oneArgumentPooler :: "('f option \<Rightarrow> 'a \<Rightarrow> 'f) \<Rightarrow> 'a \<Rightarrow> 'f klass \<Rightarrow> nat \<times> 'f klass" where
  "oneArgumentPooler ctor copyFieldsFrom k =
     (if instancePool k \<noteq> []
      then let i = last (instancePool k);
               k1 = k\<lparr>instancePool := butlast (instancePool k)\<rparr>
           in (i, call_klass (\<lambda>f. ctor f copyFieldsFrom) i k1)
      else new_klass (\<lambda>f. ctor f copyFieldsFrom) k)"

definition twoArgumentPooler ::
  "('f option \<Rightarrow> 'a \<Rightarrow> 'b \<Rightarrow> 'f) \<Rightarrow> 'a \<Rightarrow> 'b \<Rightarrow> 'f klass \<Rightarrow> nat \<times> 'f klass" where
  "twoArgumentPooler ctor a1 a2 k =
     (if instancePool k \<noteq> []
      then let i = last (instancePool k);
               k1 = k\<lparr>instancePool := butlast (instancePool k)\<rparr>
           in (i, call_klass (\<lambda>f. ctor f a1 a2) i k1)
      else new_klass (\<lambda>f. ctor f a1 a2) k)"

definition threeArgumentPooler ::
  "('f option \<Rightarrow> 'a \<Rightarrow> 'b \<Rightarrow> 'c \<Rightarrow> 'f) \<Rightarrow> 'a \<Rightarrow> 'b \<Rightarrow> 'c \<Rightarrow> 'f klass \<Rightarrow> nat \<times> 'f klass" where
  "threeArgumentPooler ctor a1 a2 a3 k =
     (if instancePool k \<noteq> []
      then let i = last (instancePool k);
               k1 = k\<lparr>instancePool := butlast (instancePool k)\<rparr>
           in (i, call_klass (\<lambda>f. ctor f a1 a2 a3) i k1)
      else new_klass (\<lambda>f. ctor f a1 a2 a3) k)"

definition fourArgumentPooler ::
  "('f option \<Rightarrow> 'a \<Rightarrow> 'b \<Rightarrow> 'c \<Rightarrow> 'd \<Rightarrow> 'f) \<Rightarrow> 'a \<Rightarrow> 'b \<Rightarrow> 'c \<Rightarrow> 'd \<Rightarrow> 'f klass \<Rightarrow> nat \<times> 'f klass" where
  "fourArgumentPooler ctor a1 a2 a3 a4 k =
     (if instancePool k \<noteq> []
      then let i = last (instancePool k);
               k1 = k\<lparr>instancePool := butlast (instancePool k)\<rparr>
           in (i, call_klass (\<lambda>f. ctor f a1 a2 a3 a4) i k1)
      else new_klass (\<lambda>f. ctor f a1 a2 a3 a4) k)"

text \<open>A reference without fields is not an instance of the class, and releasing it throws.\<close>

definition standardReleaser :: "('f \<Rightarrow> 'f) \<Rightarrow> nat \<Rightarrow> 'f klass \<Rightarrow> js_error + 'f klass" where
  "standardReleaser destructor i k =
     (case obj_fields k i of
        None \<Rightarrow> Inl PlainError
      | Some f \<Rightarrow>
          (let k1 = k\<lparr>obj_fields := (obj_fields k)(i \<mapsto> destructor f)\<rparr>
           in Inr (if length (instancePool k1) < poolSize k1
                   then k1\<lparr>instancePool := instancePool k1 @ [i]\<rparr> else k1)))"

text \<open>
  \<open>poolSize\<close> is 0 when the class does not set it. The two statics that hold methods are not
  fields of the record: \<open>getPooled\<close> is one of the poolers, by default the one for one argument,
  and \<open>release\<close> is the releaser.
\<close>

definition addPoolingTo :: "'f klass \<Rightarrow> 'f klass" where
  "addPoolingTo k =
     (let k1 = k\<lparr>instancePool := []\<rparr>
      in if poolSize k1 = 0 then k1\<lparr>poolSize := DEFAULT_POOL_SIZE\<rparr> else k1)"

section \<open>CallbackQueue\<close>

text \<open>An element \<open>None\<close> of an array is \<open>undefined\<close>, which extending the length of an array leaves
  behind.\<close>

record ('c, 'x, 'a) callback_queue =
  callbacks :: "'c option list option"
  contexts :: "'x option list option"
  arg :: 'a

definition CallbackQueue :: "('c, 'x, 'a) callback_queue option \<Rightarrow> 'a \<Rightarrow> ('c, 'x, 'a) callback_queue" where
  "CallbackQueue this a = \<lparr>callbacks = None, contexts = None, arg = a\<rparr>"

definition or_empty :: "'e list option \<Rightarrow> 'e list" where
  "or_empty xs = (case xs of None \<Rightarrow> [] | Some ys \<Rightarrow> ys)"

definition enqueue :: "'c \<Rightarrow> 'x \<Rightarrow> ('c, 'x, 'a) callback_queue \<Rightarrow> ('c, 'x, 'a) callback_queue" where
  "enqueue callback context q =
     q\<lparr>callbacks := Some (or_empty (callbacks q) @ [Some callback]),
       contexts := Some (or_empty (contexts q) @ [Some context])\<rparr>"

text \<open>
  The loop over the callbacks. A callback works on the queue, where it may enqueue again, and on
  the rest of the world; an exception ends the loop, as does calling \<open>undefined\<close>.
\<close>

type_synonym ('q, 'w) world = "'q \<times> 'w"

fun notify_loop ::
  "('c \<Rightarrow> 'x option \<Rightarrow> 'a \<Rightarrow> ('q, 'w) world \<Rightarrow> js_error option \<times> ('q, 'w) world) \<Rightarrow>
     'c option list \<Rightarrow> 'x option list \<Rightarrow> 'a \<Rightarrow> ('q, 'w) world \<Rightarrow> js_error option \<times> ('q, 'w) world" where
  "notify_loop run [] xs a s = (None, s)"
| "notify_loop run (None # cs) xs a s = (Some TypeError, s)"
| "notify_loop run (Some c # cs) xs a s =
     (case run c (hd (xs @ [None])) a s of
        (None, s') \<Rightarrow> notify_loop run cs (tl xs) a s'
      | (Some e, s') \<Rightarrow> (Some e, s'))"

definition notifyAll ::
  "('c \<Rightarrow> 'x option \<Rightarrow> 'a \<Rightarrow> (('c, 'x, 'a) callback_queue, 'w) world \<Rightarrow>
      js_error option \<times> (('c, 'x, 'a) callback_queue, 'w) world) \<Rightarrow>
     (('c, 'x, 'a) callback_queue, 'w) world \<Rightarrow>
     js_error option \<times> (('c, 'x, 'a) callback_queue, 'w) world" where
  "notifyAll run s =
     (case (callbacks (fst s), contexts (fst s)) of
        (Some cs, Some xs) \<Rightarrow>
          (if length cs \<noteq> length xs then (Some PlainError, s)
           else notify_loop run cs xs (arg (fst s))
                  ((fst s)\<lparr>callbacks := None, contexts := None\<rparr>, snd s))
      | _ \<Rightarrow> (None, s))"

definition checkpoint :: "('c, 'x, 'a) callback_queue \<Rightarrow> nat" where
  "checkpoint q = (case callbacks q of Some cs \<Rightarrow> length cs | None \<Rightarrow> 0)"

text \<open>Assigning the length of an array cuts it or fills it up with \<open>undefined\<close>.\<close>

definition set_length :: "nat \<Rightarrow> 'e option list \<Rightarrow> 'e option list" where
  "set_length n xs = take n xs @ replicate (n - length xs) None"

definition rollback :: "nat \<Rightarrow> ('c, 'x, 'a) callback_queue \<Rightarrow> ('c, 'x, 'a) callback_queue" where
  "rollback len q =
     (case (callbacks q, contexts q) of
        (Some cs, Some xs) \<Rightarrow> q\<lparr>callbacks := Some (set_length len cs), contexts := Some (set_length len xs)\<rparr>
      | _ \<Rightarrow> q)"

definition reset :: "('c, 'x, 'a) callback_queue \<Rightarrow> ('c, 'x, 'a) callback_queue" where
  "reset q = q\<lparr>callbacks := None, contexts := None\<rparr>"

definition destructor :: "('c, 'x, 'a) callback_queue \<Rightarrow> ('c, 'x, 'a) callback_queue" where
  "destructor q = reset q"

section \<open>The pool never hands out an instance that is in use\<close>

text \<open>
  Owners take instances out and give back what they hold. The state is the class with the set of
  instances in use; an owner may change the fields of its instance at any time.
\<close>

inductive pool_step ::
  "('f option \<Rightarrow> 'a \<Rightarrow> 'f) \<Rightarrow> ('f \<Rightarrow> 'f) \<Rightarrow> 'f klass \<times> nat set \<Rightarrow> 'f klass \<times> nat set \<Rightarrow> bool"
  for ctor destr where
  get: "oneArgumentPooler ctor a k = (i, k') \<Longrightarrow> pool_step ctor destr (k, used) (k', insert i used)"
| work: "i \<in> used \<Longrightarrow> pool_step ctor destr (k, used) (k\<lparr>obj_fields := (obj_fields k)(i \<mapsto> f)\<rparr>, used)"
| release: "i \<in> used \<Longrightarrow> standardReleaser destr i k = Inr k' \<Longrightarrow>
    pool_step ctor destr (k, used) (k', used - {i})"

inductive_cases pool_stepE: "pool_step ctor destr (k, used) s'"

definition pool_inv :: "'f klass \<times> nat set \<Rightarrow> bool" where
  "pool_inv s \<longleftrightarrow>
     (let pool = instancePool (fst s) in
      length pool \<le> poolSize (fst s) \<and> distinct pool \<and> set pool \<inter> snd s = {} \<and>
      (\<forall>i \<in> set pool \<union> snd s. i < next_ref (fst s) \<and> obj_fields (fst s) i \<noteq> None))"

lemmas pool_defs = pool_inv_def oneArgumentPooler_def standardReleaser_def new_klass_def call_klass_def Let_def

lemma pooler_fresh:
  assumes "pool_inv (k, used)" "oneArgumentPooler ctor a k = (i, k')"
  shows "i \<notin> used" "pool_inv (k', insert i used)" "\<exists>old. obj_fields k' i = Some (ctor old a)"
proof -
  have "i \<notin> used \<and> pool_inv (k', insert i used) \<and> (\<exists>old. obj_fields k' i = Some (ctor old a))"
  proof (cases "instancePool k" rule: rev_cases)
    case Nil
    with assms show ?thesis by (auto simp: pool_defs less_Suc_eq)
  next
    case (snoc xs x)
    with assms show ?thesis by (auto simp: pool_defs)
  qed
  then show "i \<notin> used" "pool_inv (k', insert i used)" "\<exists>old. obj_fields k' i = Some (ctor old a)" by auto
qed

lemma releaser_total: "pool_inv (k, used) \<Longrightarrow> i \<in> used \<Longrightarrow> \<exists>k'. standardReleaser destr i k = Inr k'"
  by (auto simp: pool_defs split: option.splits)

lemma releaser_inv:
  "pool_inv (k, used) \<Longrightarrow> i \<in> used \<Longrightarrow> standardReleaser destr i k = Inr k' \<Longrightarrow> pool_inv (k', used - {i})"
  by (auto simp: pool_defs split: option.splits if_splits)

lemma pool_step_inv: "pool_step ctor destr s s' \<Longrightarrow> pool_inv s \<Longrightarrow> pool_inv s'"
proof (induction rule: pool_step.induct)
  case (get a k i k' used)
  show ?case by (rule pooler_fresh(2) [OF get.prems get.hyps])
next
  case (work i used k f)
  then show ?case by (auto simp: pool_inv_def Let_def)
next
  case (release i used k k')
  show ?case by (rule releaser_inv [OF release.prems release.hyps])
qed

lemma addPoolingTo_inv: "pool_inv (addPoolingTo k, {})"
  by (simp add: addPoolingTo_def pool_inv_def Let_def)

text \<open>The poolers for several arguments are the one for a tuple of them.\<close>

lemma poolers_agree:
  "twoArgumentPooler ctor2 a b k = oneArgumentPooler (\<lambda>f (a, b). ctor2 f a b) (a, b) k"
  "threeArgumentPooler ctor3 a b c k = oneArgumentPooler (\<lambda>f (a, b, c). ctor3 f a b c) (a, b, c) k"
  "fourArgumentPooler ctor4 a b c d k = oneArgumentPooler (\<lambda>f (a, b, c, d). ctor4 f a b c d) (a, b, c, d) k"
  by (simp_all add: twoArgumentPooler_def threeArgumentPooler_def fourArgumentPooler_def oneArgumentPooler_def)

text \<open>
  C35: whatever the owners of a pooled class do, as long as each gives back only what it holds,
  the pool stays within its size, and the instance the next request gets is in nobody's hands and
  initialised by the constructor from the request's own argument.
\<close>

theorem pool_exclusive:
  assumes "(pool_step ctor destr)\<^sup>*\<^sup>* (addPoolingTo k0, {}) (k, used)"
    and "oneArgumentPooler ctor a k = (i, k')"
  shows "length (instancePool k) \<le> poolSize k \<and> i \<notin> used \<and> (\<exists>old. obj_fields k' i = Some (ctor old a))"
proof -
  have "pool_inv (k, used)"
    using assms(1) by (induction rule: rtranclp_induct) (simp_all add: addPoolingTo_inv pool_step_inv)
  then show ?thesis using pooler_fresh [OF _ assms(2)] by (auto simp: pool_inv_def Let_def)
qed

theorem pool_exclusive_witness:
  "let ctor = (\<lambda>(old::int option) (a::int). a); k0 = \<lparr>instancePool = [], poolSize = 0, obj_fields = Map.empty, next_ref = 0\<rparr>;
       k1 = snd (oneArgumentPooler ctor 5 (addPoolingTo k0)); i = fst (oneArgumentPooler ctor 7 k1)
   in length (instancePool k1) \<le> poolSize k1 \<and> i \<notin> {0::nat}"
proof -
  let ?c = "\<lambda>(old::int option) (a::int). a"
  let ?k0 = "\<lparr>instancePool = [], poolSize = 0, obj_fields = Map.empty, next_ref = 0\<rparr> :: int klass"
  let ?k1 = "snd (oneArgumentPooler ?c 5 (addPoolingTo ?k0))"
  have "oneArgumentPooler ?c 5 (addPoolingTo ?k0) = (0, ?k1)"
    by (simp add: oneArgumentPooler_def addPoolingTo_def new_klass_def Let_def)
  then have "pool_step ?c id (addPoolingTo ?k0, {}) (?k1, {0})" by (rule pool_step.get)
  then have "(pool_step ?c id)\<^sup>*\<^sup>* (addPoolingTo ?k0, {}) (?k1, {0})" by blast
  from pool_exclusive [OF this surjective_pairing [of "oneArgumentPooler ?c 7 ?k1"]]
  show ?thesis by (simp add: Let_def)
qed

section \<open>The queue runs every callback once, in order\<close>

definition queue_ok :: "('c, 'x, 'a) callback_queue \<Rightarrow> bool" where
  "queue_ok q \<longleftrightarrow>
     (case (callbacks q, contexts q) of
        (None, None) \<Rightarrow> True | (Some cs, Some xs) \<Rightarrow> length cs = length xs | _ \<Rightarrow> False)"

definition pending :: "('c, 'x, 'a) callback_queue \<Rightarrow> ('c option \<times> 'x option) list" where
  "pending q = zip (or_empty (callbacks q)) (or_empty (contexts q))"

lemmas queue_defs = queue_ok_def pending_def or_empty_def CallbackQueue_def enqueue_def checkpoint_def
  rollback_def reset_def set_length_def

lemma queue_ok_cases:
  assumes "queue_ok q"
  obtains "callbacks q = None" "contexts q = None" "pending q = []"
  | cs xs where "callbacks q = Some cs" "contexts q = Some xs" "length cs = length xs" "pending q = zip cs xs"
  using assms by (auto simp: queue_ok_def pending_def or_empty_def split: option.splits)

lemma queue_ok_operations:
  "queue_ok (CallbackQueue this a)" "pending (CallbackQueue this a) = []"
  "queue_ok q \<Longrightarrow> queue_ok (enqueue c x q)"
  "queue_ok q \<Longrightarrow> queue_ok (rollback n q)"
  "queue_ok (reset q)" "pending (reset q) = []"
  by (auto simp: queue_defs split: option.splits)

lemma pending_enqueue: "queue_ok q \<Longrightarrow> pending (enqueue c x q) = pending q @ [(Some c, Some x)]"
  by (erule queue_ok_cases) (auto simp: queue_defs)

lemma checkpoint_pending: "queue_ok q \<Longrightarrow> checkpoint q = length (pending q)"
  by (erule queue_ok_cases) (auto simp: queue_defs)

lemma pending_rollback:
  "queue_ok q \<Longrightarrow> n \<le> length (pending q) \<Longrightarrow> pending (rollback n q) = take n (pending q)"
  by (erule queue_ok_cases) (auto simp: queue_defs take_zip)

definition enqueue_all :: "('c \<times> 'x) list \<Rightarrow> ('c, 'x, 'a) callback_queue \<Rightarrow> ('c, 'x, 'a) callback_queue" where
  "enqueue_all cxs q = fold (\<lambda>(c, x). enqueue c x) cxs q"

lemma enqueue_all_pending:
  "queue_ok q \<Longrightarrow> queue_ok (enqueue_all cxs q) \<and>
     pending (enqueue_all cxs q) = pending q @ map (\<lambda>(c, x). (Some c, Some x)) cxs"
  by (induction cxs arbitrary: q) (auto simp: enqueue_all_def queue_ok_operations pending_enqueue)

text \<open>Rolling back to a checkpoint forgets exactly what was enqueued after it.\<close>

lemma rollback_checkpoint:
  "queue_ok q \<Longrightarrow> pending (rollback (checkpoint q) (enqueue_all cxs q)) = pending q"
  using enqueue_all_pending [of q cxs] by (simp add: pending_rollback checkpoint_pending)

text \<open>Running the callbacks of a list one after the other, up to the first that throws.\<close>

fun run_all ::
  "('c \<Rightarrow> 'x option \<Rightarrow> 'a \<Rightarrow> ('q, 'w) world \<Rightarrow> js_error option \<times> ('q, 'w) world) \<Rightarrow> 'a \<Rightarrow>
     ('c \<times> 'x) list \<Rightarrow> ('q, 'w) world \<Rightarrow> js_error option \<times> ('q, 'w) world" where
  "run_all run a [] s = (None, s)"
| "run_all run a ((c, x) # cxs) s =
     (let r = run c (Some x) a s
      in case fst r of None \<Rightarrow> run_all run a cxs (snd r) | Some e \<Rightarrow> (Some e, snd r))"

lemma notify_loop_run_all:
  "notify_loop run (map (\<lambda>cx. Some (fst cx)) cxs) (map (\<lambda>cx. Some (snd cx)) cxs) a s = run_all run a cxs s"
  by (induction run a cxs s rule: run_all.induct) (auto simp: Let_def split: prod.splits option.splits)

lemma enqueue_all_lists:
  "callbacks q = Some cs \<Longrightarrow> contexts q = Some xs \<Longrightarrow>
     enqueue_all cxs q = q\<lparr>callbacks := Some (cs @ map (\<lambda>cx. Some (fst cx)) cxs),
       contexts := Some (xs @ map (\<lambda>cx. Some (snd cx)) cxs)\<rparr>"
proof (induction cxs arbitrary: q cs xs)
  case (Cons cx cxs)
  let ?q = "enqueue (fst cx) (snd cx) q"
  have "?q = q\<lparr>callbacks := Some (cs @ [Some (fst cx)]), contexts := Some (xs @ [Some (snd cx)])\<rparr>"
    using Cons.prems by (simp add: enqueue_def or_empty_def)
  with Cons.IH [of ?q "cs @ [Some (fst cx)]" "xs @ [Some (snd cx)]"] show ?case
    by (simp add: enqueue_all_def split_beta)
qed (simp add: enqueue_all_def)

lemma enqueue_all_new:
  "enqueue_all (cx # cxs) (CallbackQueue this a) =
     \<lparr>callbacks = Some (map (\<lambda>cx. Some (fst cx)) (cx # cxs)),
      contexts = Some (map (\<lambda>cx. Some (snd cx)) (cx # cxs)), arg = a\<rparr>"
proof -
  let ?q = "enqueue (fst cx) (snd cx) (CallbackQueue this a)"
  have "?q = \<lparr>callbacks = Some [Some (fst cx)], contexts = Some [Some (snd cx)], arg = a\<rparr>"
    by (simp add: enqueue_def CallbackQueue_def or_empty_def)
  with enqueue_all_lists [of ?q "[Some (fst cx)]" "[Some (snd cx)]" cxs] show ?thesis
    by (simp add: enqueue_all_def split_beta)
qed

text \<open>
  The callbacks run in the order in which they were enqueued, each once, with its context and the
  queue's argument; they run on an empty queue, so that what they enqueue stays for the next
  notification and cannot keep the loop going.
\<close>

lemma notifyAll_in_order:
  "notifyAll run (enqueue_all cxs (CallbackQueue this a), w) =
     run_all run a cxs (CallbackQueue this a, w)"
proof (cases cxs)
  case Nil
  then show ?thesis by (simp add: enqueue_all_def notifyAll_def CallbackQueue_def)
next
  case (Cons cx cxs')
  show ?thesis
    using notify_loop_run_all [of run cxs a "(CallbackQueue this a, w)"]
    unfolding Cons enqueue_all_new notifyAll_def by (simp add: CallbackQueue_def)
qed

text \<open>A queue from the pool is empty whatever its last owner left in it.\<close>

lemma pooled_queue_empty:
  assumes "pool_inv (k, used)" "oneArgumentPooler CallbackQueue a k = (i, k')"
  shows "obj_fields k' i = Some (CallbackQueue None a)"
  using pooler_fresh(3) [OF assms] by (auto simp: CallbackQueue_def)

end
