(* ===== verification/Client_Response.thy ===== *)
theory Client_Response
  imports Client
begin

text \<open>
  The responses, the second part of \<open>src/src/Client.cpp\<close>: error pages, files, directory listings,
  the creation and deletion of files, and the headers of a CGI script. The file system is a
  parameter: the regular files with their contents, the directories with the entries that
  \<open>readdir\<close> returns, and the paths that a new file can be created at. The lemmas show that every
  response is framed so that a reader finds the body and its length.
\<close>

section \<open>The file system\<close>

record filesystem =
  regular :: "string \<Rightarrow> string option"
  directory :: "string \<Rightarrow> (string \<times> bool) list option"
  creatable :: "string \<Rightarrow> bool"
  canonical :: "string \<Rightarrow> string"

definition is_regular_file :: "filesystem \<Rightarrow> string \<Rightarrow> bool" where
  "is_regular_file fs path \<longleftrightarrow> regular fs path \<noteq> None"

definition is_directory :: "filesystem \<Rightarrow> string \<Rightarrow> bool" where
  "is_directory fs path \<longleftrightarrow> directory fs path \<noteq> None"

text \<open>An \<open>ifstream\<close> opens a directory as well, and reads nothing from it.\<close>

definition is_open :: "filesystem \<Rightarrow> string \<Rightarrow> bool" where
  "is_open fs path \<longleftrightarrow> is_regular_file fs path \<or> is_directory fs path"

definition read_file :: "filesystem \<Rightarrow> string \<Rightarrow> string" where
  "read_file fs path = (case regular fs path of Some text \<Rightarrow> text | None \<Rightarrow> [])"

section \<open>Headers of a response\<close>

text \<open>\<open>None\<close> is the assertion behind the \<open>switch\<close>.\<close>

definition get_reason_phrase :: "status \<Rightarrow> string option" where
  "get_reason_phrase st =
     (if st = OK then Some ''OK''
      else if st = MOVED_PERMANENTLY then Some ''Moved Permanently''
      else if st = MOVED_TEMPORARILY then Some ''Moved Temporarily''
      else if st = BAD_REQUEST then Some ''Bad Request''
      else if st = FORBIDDEN then Some ''Forbidden''
      else if st = NOT_FOUND then Some ''Not Found''
      else if st = METHOD_NOT_ALLOWED then Some ''Method Not Allowed''
      else if st = REQUEST_ENTITY_TOO_LARGE then Some ''Request Entity Too Large''
      else if st = INTERNAL_SERVER_ERROR then Some ''Internal Server Error''
      else None)"

definition addResponseHeader :: "string \<Rightarrow> string \<Rightarrow> client \<Rightarrow> client" where
  "addResponseHeader key value c = c\<lparr>response := response c @ key @ '': '' @ value @ crlf\<rparr>"

definition addLocation :: "client \<Rightarrow> outcome" where
  "addLocation c =
     (if status c = MOVED_PERMANENTLY then
        (None, addResponseHeader ''Location''
           (''http://'' @ unuppercased_server_name c @ '':'' @ server_port c @ request_target c @ ''/'') c)
      else if status c = MOVED_TEMPORARILY then
        (if redirect c = [] then (Some AssertionFailed, c) else (None, addResponseHeader ''Location'' (redirect c) c))
      else (None, c))"

definition prependResponseHeader :: "client \<Rightarrow> outcome" where
  "prependResponseHeader c =
     (let response_body = response c; c = c\<lparr>response := []\<rparr> in
      case (if custom_reason_phrase c = [] then get_reason_phrase (status c) else Some (custom_reason_phrase c)) of
        None \<Rightarrow> (Some AssertionFailed, c)
      | Some reason_phrase \<Rightarrow>
          (let c = c\<lparr>response := response c @ protocol c @ '' '' @ to_dec (status c) @ '' '' @ reason_phrase @ crlf\<rparr>;
               c = addResponseHeader ''Content-Type'' (response_content_type c) c;
               c = addResponseHeader ''Content-Length'' (to_dec (length response_body)) c
           in andThen (addLocation c) (\<lambda>c. (None, c\<lparr>response := response c @ crlf @ response_body\<rparr>))))"

section \<open>Responses\<close>

definition error_html :: "string \<Rightarrow> string" where
  "error_html title =
     ''<html>'' @ [CHR 0x0A] @ ''<head><title>'' @ title @ ''</title></head>'' @ [CHR 0x0A] @ ''<body>'' @ [CHR 0x0A] @
     ''<center><h1>'' @ title @ ''</h1></center>'' @ [CHR 0x0A] @ ''<hr><center>webserv</center>'' @ [CHR 0x0A] @
     ''</body>'' @ [CHR 0x0A] @ ''</html>'' @ [CHR 0x0A]"

definition error_body :: "filesystem \<Rightarrow> (status \<times> string) list \<Rightarrow> status \<Rightarrow> string option" where
  "error_body fs error_pages st =
     (case map_of error_pages st of
        Some path \<Rightarrow> if is_open fs path then Some (read_file fs path)
                     else map_option (\<lambda>r. error_html (to_dec st @ '' '' @ r)) (get_reason_phrase st)
      | None \<Rightarrow> map_option (\<lambda>r. error_html (to_dec st @ '' '' @ r)) (get_reason_phrase st))"

definition respondWithError :: "filesystem \<Rightarrow> (status \<times> string) list \<Rightarrow> client \<Rightarrow> outcome" where
  "respondWithError fs error_pages c =
     (case error_body fs error_pages (status c) of
        None \<Rightarrow> (Some AssertionFailed, c)
      | Some text \<Rightarrow>
          prependResponseHeader (c\<lparr>response := text, response_index := 0, response_content_type := ''text/html''\<rparr>))"

definition getFileExtension :: "string \<Rightarrow> string" where
  "getFileExtension path = (case find_last_of ''.'' path of None \<Rightarrow> [] | Some i \<Rightarrow> drop i path)"

definition getFileName :: "string \<Rightarrow> string" where
  "getFileName path =
     (case find_last_of ''/'' path of
        None \<Rightarrow> []
      | Some i \<Rightarrow> if i + 1 \<ge> length path then [] else drop (i + 1) path)"

definition extension_to_content_type :: "(string \<times> string) list" where
  "extension_to_content_type =
     [(''.c'', ''text/plain''), (''.cpp'', ''text/plain''), (''.h'', ''text/plain''), (''.hpp'', ''text/plain''),
      (''.log'', ''text/plain''), (''.md'', ''text/plain''), (''.mk'', ''text/plain''), (''.py'', ''text/plain''),
      (''.tpp'', ''text/plain''), (''.txt'', ''text/plain''),
      (''.html'', ''text/html''), (''.mp3'', ''audio/mpeg''), (''.png'', ''image/png''), (''.pdf'', ''application/pdf''),
      (''.gif'', ''image/gif''), (''.json'', ''application/json''), (''.mp4'', ''video/mp4'')]"

definition assertEmptyResponse :: "client \<Rightarrow> outcome" where
  "assertEmptyResponse c = (if response c = [] then (None, c) else (Some AssertionFailed, c))"

definition respondWithFile :: "filesystem \<Rightarrow> string \<Rightarrow> client \<Rightarrow> outcome" where
  "respondWithFile fs path c =
     andThen (assertEmptyResponse c) (\<lambda>c.
       if \<not> is_regular_file fs path then throw NOT_FOUND c
       else let c = c\<lparr>response := read_file fs path\<rparr>;
                c = (case map_of extension_to_content_type (getFileExtension path) of
                       Some t \<Rightarrow> c\<lparr>response_content_type := t\<rparr> | None \<Rightarrow> c);
                c = (if getFileName path = ''Makefile'' then c\<lparr>response_content_type := ''text/plain''\<rparr> else c)
            in prependResponseHeader c)"

text \<open>\<open>_getSortedEntryNames\<close>; \<open>None\<close> is the exception.\<close>

definition getSortedEntryNames :: "filesystem \<Rightarrow> string \<Rightarrow> bool \<Rightarrow> string list option" where
  "getSortedEntryNames fs path only_directories =
     (case directory fs path of
        None \<Rightarrow> None
      | Some entries \<Rightarrow>
          Some (sort (map (\<lambda>(name, is_dir). if only_directories then name @ ''/'' else name)
            (filter (\<lambda>(name, is_dir). name \<noteq> ''.'' \<and> is_dir = only_directories) entries))))"

definition listing_head :: "string \<Rightarrow> string" where
  "listing_head target =
     (let nl = [CHR 0x0A]; tab = [CHR 0x09]; quot = [CHR 0x22] in
      ''<!DOCTYPE html>'' @ nl @ ''<html>'' @ nl @
      tab @ ''<meta charset='' @ quot @ ''UTF-8'' @ quot @ ''>'' @ nl @ tab @ ''<head>'' @ nl @
      tab @ tab @ ''<title>Index of '' @ target @ ''</title>'' @ nl @ tab @ tab @ ''<style>'' @ nl @
      tab @ tab @ tab @ ''body {'' @ nl @
      tab @ tab @ tab @ tab @ ''background-color: gray;'' @ nl @ tab @ tab @ tab @ tab @ ''font-size: large;'' @ nl @
      tab @ tab @ tab @ ''}'' @ nl @ tab @ tab @ tab @ ''a {'' @ nl @
      tab @ tab @ tab @ tab @ ''padding-left: 2px;'' @ nl @ tab @ tab @ tab @ tab @ ''margin-left: 4px;'' @ nl @
      tab @ tab @ tab @ ''}'' @ nl @ tab @ tab @ tab @ ''button {'' @ nl @
      tab @ tab @ tab @ tab @ ''background-color: gray;'' @ nl @ tab @ tab @ tab @ tab @ ''padding-left: 3px;'' @ nl @
      tab @ tab @ tab @ tab @ ''padding-right: 3px;'' @ nl @ tab @ tab @ tab @ tab @ ''border: 0px;'' @ nl @
      tab @ tab @ tab @ tab @ ''margin: 2px;'' @ nl @ tab @ tab @ tab @ tab @ ''cursor: pointer;'' @ nl @
      tab @ tab @ tab @ ''}'' @ nl @ tab @ tab @ tab @ ''hr {'' @ nl @
      tab @ tab @ tab @ tab @ ''border-color: black;'' @ nl @ tab @ tab @ tab @ tab @ ''background-color: black;'' @ nl @
      tab @ tab @ tab @ tab @ ''color: black;'' @ nl @ tab @ tab @ tab @ ''}'' @ nl @
      tab @ tab @ ''</style>'' @ nl @ tab @ ''</head>'' @ nl @ tab @ ''<body>'' @ nl @
      tab @ tab @ ''<h1>Index of '' @ target @ ''</h1>'' @ nl @ tab @ tab @ ''<hr>'' @ nl @ tab @ tab @ ''<pre>'' @ nl)"

definition listing_entry :: "string \<Rightarrow> string" where
  "listing_entry name = ''<a href='' @ [CHR 0x22] @ name @ [CHR 0x22] @ ''>'' @ name @ ''</a>'' @ [CHR 0x0A]"

definition listing_tail :: string where
  "listing_tail =
     (let nl = [CHR 0x0A]; tab = [CHR 0x09] in
      tab @ tab @ ''</pre>'' @ nl @ tab @ tab @ ''<hr>'' @ nl @ tab @ ''</body>'' @ nl @ ''</html>'' @ nl)"

definition respondWithDirectoryListing :: "filesystem \<Rightarrow> string \<Rightarrow> client \<Rightarrow> outcome" where
  "respondWithDirectoryListing fs path c =
     andThen (assertEmptyResponse c) (\<lambda>c.
       let c = c\<lparr>response := listing_head (request_target c)\<rparr> in
       case (getSortedEntryNames fs path True, getSortedEntryNames fs path False) of
         (Some directories, Some others) \<Rightarrow>
           prependResponseHeader
             (c\<lparr>response := response c @ concat (map listing_entry directories) @
                  concat (map listing_entry others) @ listing_tail,
                response_content_type := ''text/html''\<rparr>)
       | _ \<Rightarrow> throw NOT_FOUND c)"

text \<open>Creating and deleting a file also returns the file system.\<close>

definition respondWithCreateFile :: "string \<Rightarrow> filesystem \<times> client \<Rightarrow> client_error option \<times> filesystem \<times> client" where
  "respondWithCreateFile path fsc =
     (let fs = fst fsc; c = snd fsc in
      if response c \<noteq> [] then (Some AssertionFailed, fs, c)
      else if is_regular_file fs path then (Some (ClientException BAD_REQUEST), fs, c)
      else if is_directory fs path \<or> \<not> creatable fs path then (Some (ClientException BAD_REQUEST), fs, c)
      else let r = prependResponseHeader c
           in (fst r, fs\<lparr>regular := (regular fs)(path \<mapsto> body c)\<rparr>, snd r))"

definition respondWithDeleteFile :: "string \<Rightarrow> filesystem \<times> client \<Rightarrow> client_error option \<times> filesystem \<times> client" where
  "respondWithDeleteFile path fsc =
     (let fs = fst fsc; c = snd fsc in
      if response c \<noteq> [] then (Some AssertionFailed, fs, c)
      else if \<not> is_regular_file fs path then (Some (ClientException NOT_FOUND), fs, c)
      else let r = prependResponseHeader c
           in (fst r, fs\<lparr>regular := (regular fs)(path := None)\<rparr>, snd r))"

section \<open>The headers of a CGI script\<close>

function cgiHeaderLines :: "string \<Rightarrow> nat \<Rightarrow> string list" where
  "cgiHeaderLines h start =
     (case find_str_from [CHR 0x0A] h start of
        None \<Rightarrow> []
      | Some i \<Rightarrow> substr h start (i - start) # cgiHeaderLines h (i + 1))"
  by pat_completeness auto
termination
proof (relation "measure (\<lambda>(h, start). Suc (length h) - start)", goal_cases)
  case (2 h start i)
  then obtain k where "start \<le> length h" "find_str [CHR 0x0A] (drop start h) = Some k" "i = start + k"
    by (auto simp: find_str_from_def split: if_splits)
  with find_str_bound [of "[CHR 0x0A]" "drop start h" k] show ?case by auto
qed simp

declare cgiHeaderLines.simps [simp del]

definition useCGIStatus :: "fields \<Rightarrow> client \<Rightarrow> client" where
  "useCGIStatus cgi_headers c =
     (case map_of cgi_headers ''STATUS'' of
        None \<Rightarrow> c
      | Some status_string \<Rightarrow>
          (case find_str '' '' status_string of
             None \<Rightarrow> c\<lparr>status := INTERNAL_SERVER_ERROR\<rparr>
           | Some space_index \<Rightarrow>
               (let (ok, code) = parseNumber (substr status_string 0 space_index) (999 :: 32 word)
                in if \<not> ok then c\<lparr>status := INTERNAL_SERVER_ERROR\<rparr>
                   else c\<lparr>status := unat code, custom_reason_phrase := drop (space_index + 1) status_string\<rparr>)))"

definition extractCGIDocumentResponseHeaders :: "client \<Rightarrow> client" where
  "extractCGIDocumentResponseHeaders c =
     (if cgi_exit_status c \<noteq> 0 then c
      else case find_str [CHR 0x0A, CHR 0x0A] (response c) of
             None \<Rightarrow> c\<lparr>status := INTERNAL_SERVER_ERROR\<rparr>
           | Some separator_index \<Rightarrow>
               (let cgi_header = take (separator_index + 1) (response c);
                    c = c\<lparr>response := drop (separator_index + 2) (response c)\<rparr>;
                    (ok, cgi_headers) = fillHeaders (cgiHeaderLines cgi_header 0) []
                in if \<not> ok then c\<lparr>status := INTERNAL_SERVER_ERROR\<rparr>
                   else case map_of cgi_headers ''CONTENT_TYPE'' of
                          None \<Rightarrow> c\<lparr>status := INTERNAL_SERVER_ERROR\<rparr>
                        | Some t \<Rightarrow> useCGIStatus cgi_headers (c\<lparr>response_content_type := t\<rparr>)))"

section \<open>Lines and their separators\<close>

lemma find_str_skip:
  "n \<notin> set xs \<Longrightarrow> find_str (n # ns) (xs @ ys) = map_option (\<lambda>i. length xs + i) (find_str (n # ns) ys)"
proof (induction xs)
  case Nil
  then show ?case by (cases "find_str (n # ns) ys") auto
next
  case (Cons x xs)
  then show ?case by (cases "find_str (n # ns) ys") auto
qed

definition lines_text :: "string list \<Rightarrow> string" where
  "lines_text ls = concat (map (\<lambda>l. l @ crlf) ls)"

definition plain_line :: "string \<Rightarrow> bool" where
  "plain_line l \<longleftrightarrow> l \<noteq> [] \<and> CHR 0x0D \<notin> set l"

lemma lines_text_simps [simp]: "lines_text [] = []" "lines_text (l # ls) = l @ crlf @ lines_text ls"
  by (simp_all add: lines_text_def)

lemma find_str_lines:
  "ls \<noteq> [] \<Longrightarrow> \<forall>l \<in> set ls. plain_line l \<Longrightarrow>
     find_str (crlf @ crlf) (lines_text ls @ crlf @ text) = Some (length (lines_text ls) - 2)"
proof (induction ls)
  case (Cons l ls)
  have l: "CHR 0x0D \<notin> set l" using Cons.prems by (simp add: plain_line_def)
  show ?case
  proof (cases ls)
    case Nil
    then show ?thesis using find_str_skip [OF l, of "[CHR 0x0A] @ crlf" "crlf @ crlf @ text"] by simp
  next
    case (Cons l2 ls2)
    have l2: "l2 \<noteq> []" "CHR 0x0D \<notin> set l2" using Cons.prems(2) Cons by (auto simp: plain_line_def)
    then obtain x xs where x: "l2 = x # xs" "x \<noteq> CHR 0x0D" by (cases l2) auto
    let ?rest = "lines_text ls @ crlf @ text"
    have IH: "find_str (crlf @ crlf) ?rest = Some (length (lines_text ls) - 2)"
      using Cons.IH Cons.prems Cons by simp
    have "find_str (crlf @ crlf) (crlf @ ?rest) = map_option (\<lambda>i. Suc (Suc i)) (find_str (crlf @ crlf) ?rest)"
      using x Cons by (simp add: option.map_comp comp_def)
    then have "find_str (crlf @ crlf) (crlf @ ?rest) = Some (length (lines_text ls))"
      using IH Cons x(1) by (simp del: find_str.simps lines_text_simps) (simp add: x(1))
    then show ?thesis using find_str_skip [OF l, of "[CHR 0x0A] @ crlf" "crlf @ ?rest"] by simp
  qed
qed simp

lemma headerLinesLoop_lines:
  "\<forall>l \<in> set ls. plain_line l \<Longrightarrow> headerLinesLoop (pre @ lines_text ls) (length pre) = ls"
proof (induction ls arbitrary: pre)
  case Nil
  then show ?case by (simp add: headerLinesLoop.simps find_str_from_def)
next
  case (Cons l ls)
  have l: "CHR 0x0D \<notin> set l" using Cons.prems by (simp add: plain_line_def)
  have "find_str crlf (l @ crlf @ lines_text ls) = Some (length l)"
    using find_str_skip [OF l, of "[CHR 0x0A]" "crlf @ lines_text ls"] by simp
  then have "find_str_from crlf (pre @ lines_text (l # ls)) (length pre) = Some (length pre + length l)"
    by (simp add: find_str_from_def)
  then show ?case
    using Cons.IH [of "pre @ l @ crlf"] Cons.prems by (subst headerLinesLoop.simps) (simp add: substr_def)
qed

section \<open>Every response is framed\<close>

definition header_line :: "string \<times> string \<Rightarrow> string" where
  "header_line kv = fst kv @ '': '' @ snd kv"

definition status_line :: "client \<Rightarrow> string \<Rightarrow> string" where
  "status_line c reason = protocol c @ '' '' @ to_dec (status c) @ '' '' @ reason"

definition location_field :: "client \<Rightarrow> (string \<times> string) list" where
  "location_field c =
     (if status c = MOVED_PERMANENTLY
      then [(''Location'', ''http://'' @ unuppercased_server_name c @ '':'' @ server_port c @ request_target c @ ''/'')]
      else if status c = MOVED_TEMPORARILY then [(''Location'', redirect c)] else [])"

definition response_fields :: "client \<Rightarrow> (string \<times> string) list" where
  "response_fields c =
     [(''Content-Type'', response_content_type c), (''Content-Length'', to_dec (length (response c)))] @ location_field c"

lemma prependResponseHeader_text:
  assumes "prependResponseHeader c = (None, c')"
  obtains reason where
    "response c' = lines_text (status_line c reason # map header_line (response_fields c)) @ crlf @ response c"
    "(if custom_reason_phrase c = [] then get_reason_phrase (status c) else Some (custom_reason_phrase c)) = Some reason"
  using assms
  by (auto simp: prependResponseHeader_def addResponseHeader_def addLocation_def Let_def andThen_None_iff
      status_line_def header_line_def response_fields_def location_field_def
      split: option.splits if_splits)

text \<open>Reading a header field back with the parser of the requests.\<close>

lemma trim_leading:
  assumes "c \<in> set t" "v \<noteq> []" "hd v \<notin> set t" "last v \<notin> set t"
  shows "trim (c # v) t = v"
proof -
  have "rtrim (c # v) t = c # v"
    using assms by (cases v rule: rev_cases) (simp_all add: rtrim_dropWhile)
  then show ?thesis using assms by (cases v) (simp_all add: trim_def ltrim_dropWhile)
qed

lemma fillHeaders_line:
  assumes "CHR '':'' \<notin> set k" "k \<noteq> []" "map_of filled (normalizeKey k) = None"
  shows "fillHeaders (header_line (k, v) # ls) filled =
    fillHeaders ls (filled @ [(normalizeKey k, trim (CHR '' '' # v) [CHR '' '', CHR 0x09])])"
  using assms find_str_skip [OF assms(1), of "[]" "'': '' @ v"]
  by (simp add: header_line_def substr_def)

lemma response_keys:
  "normalizeKey ''Content-Type'' = ''CONTENT_TYPE''" "normalizeKey ''Content-Length'' = ''CONTENT_LENGTH''"
  "normalizeKey ''Location'' = ''LOCATION''"
  by code_simp+

lemma trim_to_dec: "trim (CHR '' '' # to_dec n) [CHR '' '', CHR 0x09] = to_dec n"
proof (rule trim_leading)
  have d: "c \<in> set (to_dec n) \<Longrightarrow> is_digit c" for c using to_dec_digits [of n] by (auto simp: list_all_iff)
  have "\<not> is_digit (CHR '' '')" "\<not> is_digit (CHR 0x09)" by code_simp+
  then show "hd (to_dec n) \<notin> set [CHR '' '', CHR 0x09]" "last (to_dec n) \<notin> set [CHR '' '', CHR 0x09]"
    using d [OF hd_in_set [OF to_dec_not_Nil]] d [OF last_in_set [OF to_dec_not_Nil]] by auto
qed (simp_all add: to_dec_not_Nil)

lemma fillHeaders_response:
  obtains fs where "fillHeaders (map header_line (response_fields c)) [] = (True, fs)"
    "map_of fs ''CONTENT_LENGTH'' = Some (to_dec (length (response c)))"
proof -
  let ?fs = "[(''CONTENT_TYPE'', trim (CHR '' '' # response_content_type c) [CHR '' '', CHR 0x09]),
    (''CONTENT_LENGTH'', to_dec (length (response c)))]"
  have "fillHeaders (map header_line (response_fields c)) [] = fillHeaders (map header_line (location_field c)) ?fs"
    by (simp add: response_fields_def fillHeaders_line response_keys trim_to_dec del: fillHeaders.simps)
  moreover have "\<exists>more. fillHeaders (map header_line (location_field c)) ?fs = (True, ?fs @ more)"
  proof (cases "location_field c")
    case (Cons kv kvs)
    then obtain v where "location_field c = [(''Location'', v)]" by (auto simp: location_field_def split: if_splits)
    then show ?thesis by (simp add: fillHeaders_line response_keys del: fillHeaders.simps(2))
  qed simp
  ultimately show thesis using that by fastforce
qed

text \<open>None of the texts that go into the header has a carriage return.\<close>

definition no_cr :: "client \<Rightarrow> bool" where
  "no_cr c \<longleftrightarrow>
     CHR 0x0D \<notin> set (protocol c @ custom_reason_phrase c @ response_content_type c @
       unuppercased_server_name c @ server_port c @ request_target c @ redirect c)"

lemma to_dec_no_cr: "CHR 0x0D \<notin> set (to_dec n)"
proof -
  have "\<not> is_digit (CHR 0x0D)" by code_simp
  then show ?thesis using to_dec_digits [of n] by (auto simp: list_all_iff)
qed

lemma reason_no_cr: "get_reason_phrase st = Some r \<Longrightarrow> CHR 0x0D \<notin> set r"
  by (auto simp: get_reason_phrase_def split: if_splits)

lemma response_lines_plain:
  assumes "no_cr c"
    "(if custom_reason_phrase c = [] then get_reason_phrase (status c) else Some (custom_reason_phrase c)) = Some reason"
  shows "\<forall>l \<in> set (status_line c reason # map header_line (response_fields c)). plain_line l"
  using assms reason_no_cr [of "status c" reason] to_dec_no_cr
  by (auto simp: plain_line_def status_line_def header_line_def response_fields_def location_field_def no_cr_def
      split: if_splits)

text \<open>
  C7: a response that goes out with its header can be taken apart again by the server's own
  parser of requests, as long as no carriage return got into the texts that the header is made of:
  the first empty line is behind the header, and what follows is exactly the body. The lines of the
  header are the status line with the protocol, the status code and the reason phrase (that of the
  CGI script when it gave one, otherwise the one for the status code), the \<open>Content-Type\<close>, the
  \<open>Content-Length\<close> with the length of the body, and for a redirection its \<open>Location\<close>, in this order.
  Every header line parses, and the \<open>Content-Length\<close> field it finds is the length of the body.
\<close>

theorem response_framed:
  assumes "prependResponseHeader c = (None, c')" "no_cr c"
  shows "\<exists>i reason fs. find_str (crlf @ crlf) (response c') = Some i \<and> drop (i + 4) (response c') = response c \<and>
    (if custom_reason_phrase c = [] then get_reason_phrase (status c) else Some (custom_reason_phrase c)) = Some reason \<and>
    headerLinesLoop (take (i + 2) (response c')) 0 =
      [protocol c @ '' '' @ to_dec (status c) @ '' '' @ reason,
       ''Content-Type: '' @ response_content_type c,
       ''Content-Length: '' @ to_dec (length (response c))] @
      (if status c = MOVED_PERMANENTLY
       then [''Location: http://'' @ unuppercased_server_name c @ '':'' @ server_port c @ request_target c @ ''/'']
       else if status c = MOVED_TEMPORARILY then [''Location: '' @ redirect c] else []) \<and>
    fillHeaders (tl (headerLinesLoop (take (i + 2) (response c')) 0)) [] = (True, fs) \<and>
    map_of fs ''CONTENT_LENGTH'' = Some (to_dec (length (response c)))"
proof -
  from prependResponseHeader_text [OF assms(1)] obtain reason where
    whole: "response c' = lines_text (status_line c reason # map header_line (response_fields c)) @ crlf @ response c"
    and reason: "(if custom_reason_phrase c = [] then get_reason_phrase (status c) else Some (custom_reason_phrase c)) = Some reason" .
  define ls where "ls = status_line c reason # map header_line (response_fields c)"
  have plain: "\<forall>l \<in> set ls. plain_line l" unfolding ls_def by (rule response_lines_plain [OF assms(2) reason])
  have len: "length (lines_text ls) \<ge> 2" by (simp add: ls_def)
  let ?i = "length (lines_text ls) - 2"
  have r: "response c' = lines_text ls @ crlf @ response c" using whole by (simp add: ls_def)
  have find: "find_str (crlf @ crlf) (response c') = Some ?i"
    unfolding r using find_str_lines [OF _ plain] by (simp add: ls_def)
  have drop: "drop (?i + 4) (response c') = response c" using len by (simp add: r)
  have "take (?i + 2) (response c') = lines_text ls" using len by (simp add: r)
  then have lines: "headerLinesLoop (take (?i + 2) (response c')) 0 = ls"
    using headerLinesLoop_lines [OF plain, of "[]"] by simp
  obtain fs where fs: "fillHeaders (map header_line (response_fields c)) [] = (True, fs)"
    "map_of fs ''CONTENT_LENGTH'' = Some (to_dec (length (response c)))" by (rule fillHeaders_response)
  have ls: "ls = [protocol c @ '' '' @ to_dec (status c) @ '' '' @ reason, ''Content-Type: '' @ response_content_type c,
      ''Content-Length: '' @ to_dec (length (response c))] @
      (if status c = MOVED_PERMANENTLY
       then [''Location: http://'' @ unuppercased_server_name c @ '':'' @ server_port c @ request_target c @ ''/'']
       else if status c = MOVED_TEMPORARILY then [''Location: '' @ redirect c] else [])"
    by (simp add: ls_def status_line_def header_line_def response_fields_def location_field_def)
  have "fillHeaders (tl ls) [] = (True, fs)" using fs(1) by (simp only: ls_def list.sel)
  then have "fillHeaders (tl (headerLinesLoop (take (?i + 2) (response c')) 0)) [] = (True, fs)" by (simp only: lines)
  with find drop reason trans [OF lines ls] fs(2) show ?thesis by blast
qed

theorem response_framed_witness:
  "let c = (mk_client 5 3 ''8080'' 100)\<lparr>response := ''hello'', status := NOT_FOUND\<rparr>; c' = snd (prependResponseHeader c) in
   \<exists>i reason fs. find_str (crlf @ crlf) (response c') = Some i \<and> drop (i + 4) (response c') = response c \<and>
    (if custom_reason_phrase c = [] then get_reason_phrase (status c) else Some (custom_reason_phrase c)) = Some reason \<and>
    headerLinesLoop (take (i + 2) (response c')) 0 =
      [protocol c @ '' '' @ to_dec (status c) @ '' '' @ reason,
       ''Content-Type: '' @ response_content_type c,
       ''Content-Length: '' @ to_dec (length (response c))] @
      (if status c = MOVED_PERMANENTLY
       then [''Location: http://'' @ unuppercased_server_name c @ '':'' @ server_port c @ request_target c @ ''/'']
       else if status c = MOVED_TEMPORARILY then [''Location: '' @ redirect c] else []) \<and>
    fillHeaders (tl (headerLinesLoop (take (i + 2) (response c')) 0)) [] = (True, fs) \<and>
    map_of fs ''CONTENT_LENGTH'' = Some (to_dec (length (response c)))"
proof -
  let ?c = "(mk_client 5 3 ''8080'' 100)\<lparr>response := ''hello'', status := NOT_FOUND\<rparr>"
  have "fst (prependResponseHeader ?c) = None"
    by (simp add: prependResponseHeader_def mk_client_def get_reason_phrase_def addResponseHeader_def addLocation_def Let_def)
  then have "prependResponseHeader ?c = (None, snd (prependResponseHeader ?c))" by (metis prod.collapse)
  moreover have "no_cr ?c" by (simp add: no_cr_def mk_client_def)
  ultimately show ?thesis unfolding Let_def by (rule response_framed)
qed

end
