(* ===== verification/Server.thy ===== *)
theory Server
  imports Client_Response
begin

text \<open>
  The tables of \<open>src/src/Server.cpp\<close>: the polled file descriptors, the clients, and the maps that
  lead from a descriptor to its place in both. Removing an element moves the last one into its
  place, so that every removal has to redirect the maps. A \<open>Client &\<close> is the index of the client
  in the vector. A member function that may throw returns the exception, if any, with the state it
  leaves behind. System calls are taken to succeed; the descriptors and process ids they return
  are arguments, and the calls to \<open>close\<close>, \<open>kill\<close> and \<open>write\<close> are recorded in the state, which also has the
  file system and what the code reads of \<open>errno\<close>. The lemmas show that the tables
  agree after every operation, so that no event on a descriptor reaches the wrong client.
\<close>

unbundle bit_operations_syntax

section \<open>State\<close>

datatype FdType = SERVER | CLIENT | SERVER_TO_CGI | CGI_TO_SERVER

record pollfd =
  pfd_fd :: int
  events :: "16 word"
  revents :: "16 word"

record server =
  unreaped_cgi_count :: int
  bind_fd_to_server_indices :: "int \<Rightarrow> nat list option"
  bind_fd_to_port :: "int \<Rightarrow> string option"
  cgi_pid_to_client_fd :: "int \<Rightarrow> int option"
  fd_to_client_index :: "int \<Rightarrow> nat option"
  fd_to_pfd_index :: "int \<Rightarrow> nat option"
  fd_to_fd_type :: "int \<Rightarrow> FdType option"
  clients :: "client list"
  pfds :: "pollfd list"
  closed :: "int list"
  killed :: "int list"
  sent :: "(int \<times> string) list"
  errno_is_ECHILD :: bool
  files :: filesystem

abbreviation POLLIN :: "16 word" where "POLLIN \<equiv> 1"
abbreviation POLLOUT :: "16 word" where "POLLOUT \<equiv> 4"
abbreviation POLLERR :: "16 word" where "POLLERR \<equiv> 8"
abbreviation POLLHUP :: "16 word" where "POLLHUP \<equiv> 16"
abbreviation POLLNVAL :: "16 word" where "POLLNVAL \<equiv> 32"

text \<open>
  The ways in which a member function does not return: a failing \<open>at\<close>, a failing assertion, an
  exception that answers a request, and an access outside a vector, which C++ leaves undefined.
\<close>

datatype server_error = OutOfRangeAt | Assertion | Respond status | Undefined_Behaviour

type_synonym server_outcome = "server_error option \<times> server"

definition thenS :: "server_outcome \<Rightarrow> (server \<Rightarrow> server_outcome) \<Rightarrow> server_outcome" where
  "thenS r f = (case fst r of None \<Rightarrow> f (snd r) | Some e \<Rightarrow> r)"

definition assertS :: "bool \<Rightarrow> server \<Rightarrow> server_outcome" where
  "assertS b s = (if b then None else Some Assertion, s)"

lemma thenS_simps [simp]: "thenS (None, s) f = f s" "thenS (Some e, s) f = (Some e, s)"
  by (simp_all add: thenS_def)

lemma assertS_simps [simp]: "assertS True s = (None, s)" "assertS False s = (Some Assertion, s)"
  by (simp_all add: assertS_def)

lemma thenS_None_iff: "thenS r f = (None, s') \<longleftrightarrow> (\<exists>s. r = (None, s) \<and> f s = (None, s'))"
  by (cases r) (auto simp: thenS_def split: option.splits)

section \<open>Vectors and maps\<close>

text \<open>\<open>_swapRemove\<close>; the assignment is the copy assignment of the element type.\<close>

definition swapRemove :: "('a \<Rightarrow> 'a \<Rightarrow> 'a) \<Rightarrow> 'a list \<Rightarrow> nat \<Rightarrow> 'a list" where
  "swapRemove asg v i = butlast (v[i := asg (v ! i) (last v)])"

definition copy_pfd :: "pollfd \<Rightarrow> pollfd \<Rightarrow> pollfd" where
  "copy_pfd this src = src"

text \<open>\<open>emplace\<close> of an unordered map keeps the value of a key that is there.\<close>

definition emplace_map :: "'k \<Rightarrow> 'v \<Rightarrow> ('k \<Rightarrow> 'v option) \<Rightarrow> 'k \<Rightarrow> 'v option" where
  "emplace_map k v m = (if m k = None then m(k \<mapsto> v) else m)"

definition upd_client :: "nat \<Rightarrow> (client \<Rightarrow> client) \<Rightarrow> server \<Rightarrow> server" where
  "upd_client i f s = s\<lparr>clients := (clients s)[i := f (clients s ! i)]\<rparr>"

text \<open>\<open>_getClient\<close>: the continuation gets the index of the client.\<close>

definition getClient :: "int \<Rightarrow> server \<Rightarrow> (nat \<Rightarrow> server_outcome) \<Rightarrow> server_outcome" where
  "getClient fd s k =
     (case fd_to_client_index s fd of
        None \<Rightarrow> (Some OutOfRangeAt, s)
      | Some i \<Rightarrow> if i < length (clients s) then k i else (Some Undefined_Behaviour, s))"

section \<open>Descriptors\<close>

text \<open>The body of \<open>_addFd\<close> behind its assertion.\<close>

definition pushPfd :: "FdType \<Rightarrow> 16 word \<Rightarrow> int \<Rightarrow> server \<Rightarrow> server" where
  "pushPfd fd_type ev fd s =
     s\<lparr>fd_to_fd_type := emplace_map fd fd_type (fd_to_fd_type s),
       fd_to_pfd_index := emplace_map fd (length (pfds s)) (fd_to_pfd_index s),
       pfds := pfds s @ [\<lparr>pfd_fd = fd, events = ev, revents = 0\<rparr>]\<rparr>"

definition addFd :: "int \<Rightarrow> FdType \<Rightarrow> 16 word \<Rightarrow> server \<Rightarrow> server_outcome" where
  "addFd fd fd_type ev s = thenS (assertS (fd \<noteq> - 1) s) (\<lambda>s. (None, pushPfd fd_type ev fd s))"

definition addClientFd :: "int \<Rightarrow> nat \<Rightarrow> FdType \<Rightarrow> 16 word \<Rightarrow> server \<Rightarrow> server_outcome" where
  "addClientFd fd client_index fd_type ev s =
     thenS (assertS (fd \<noteq> - 1) s) (\<lambda>s.
       addFd fd fd_type ev (s\<lparr>fd_to_client_index := emplace_map fd client_index (fd_to_client_index s)\<rparr>))"

text \<open>The common part of \<open>_removeFd\<close> and \<open>_shutDownServers\<close>.\<close>

definition dropPfd :: "int \<Rightarrow> nat \<Rightarrow> server \<Rightarrow> server" where
  "dropPfd fd i s =
     s\<lparr>fd_to_pfd_index := ((fd_to_pfd_index s)(pfd_fd (last (pfds s)) \<mapsto> i))(fd := None),
       pfds := swapRemove copy_pfd (pfds s) i\<rparr>"

text \<open>The functions that take \<open>int &fd\<close> leave \<open>- 1\<close> in the argument; their callers below do so.\<close>

definition removeFd :: "int \<Rightarrow> server \<Rightarrow> server_outcome" where
  "removeFd fd s =
     thenS (assertS (fd \<noteq> - 1) s) (\<lambda>s.
       case fd_to_pfd_index s fd of
         None \<Rightarrow> (Some OutOfRangeAt, s)
       | Some i \<Rightarrow>
           (let s = dropPfd fd i s
            in (None, s\<lparr>fd_to_fd_type := (fd_to_fd_type s)(fd := None), closed := closed s @ [fd]\<rparr>)))"

definition removeClientFd :: "int \<Rightarrow> server \<Rightarrow> server_outcome" where
  "removeClientFd fd s =
     thenS (assertS (fd \<noteq> - 1) s) (\<lambda>s.
       removeFd fd (s\<lparr>fd_to_client_index := (fd_to_client_index s)(fd := None)\<rparr>))"

definition removeServerToCGIFd :: "int \<Rightarrow> server \<Rightarrow> server_outcome" where
  "removeServerToCGIFd fd s =
     thenS (assertS (fd \<noteq> - 1) s) (\<lambda>s.
       getClient fd s (\<lambda>i.
         if server_to_cgi_fd (clients s ! i) = - 1 then (None, s)
         else thenS (removeClientFd (server_to_cgi_fd (clients s ! i)) s) (\<lambda>s.
           (None, upd_client i (\<lambda>c. c\<lparr>server_to_cgi_fd := - 1, server_to_cgi_state := S2CGI_DONE\<rparr>) s))))"

definition removeCGIToServerFd :: "int \<Rightarrow> server \<Rightarrow> server_outcome" where
  "removeCGIToServerFd fd s =
     thenS (assertS (fd \<noteq> - 1) s) (\<lambda>s.
       getClient fd s (\<lambda>i.
         if cgi_to_server_fd (clients s ! i) = - 1 then (None, s)
         else thenS (removeClientFd (cgi_to_server_fd (clients s ! i)) s) (\<lambda>s.
           (None, upd_client i (\<lambda>c. c\<lparr>cgi_to_server_fd := - 1, cgi_to_server_state := CGI2S_DONE\<rparr>) s))))"

text \<open>\<open>_shutDownServers\<close> goes through \<open>_fd_to_fd_type\<close>, here through a list of its keys.\<close>

definition shutDownServers :: "int list \<Rightarrow> server \<Rightarrow> server" where
  "shutDownServers fds s =
     fold (\<lambda>fd s.
       case (fd_to_fd_type s fd, fd_to_pfd_index s fd) of
         (Some SERVER, Some i) \<Rightarrow> (let s = dropPfd fd i s in s\<lparr>closed := closed s @ [fd]\<rparr>)
       | _ \<Rightarrow> s) fds s"

section \<open>Events\<close>

definition enableEvent :: "nat \<Rightarrow> 16 word \<Rightarrow> server \<Rightarrow> server" where
  "enableEvent i ev s = s\<lparr>pfds := (pfds s)[i := (pfds s ! i)\<lparr>events := events (pfds s ! i) OR ev\<rparr>]\<rparr>"

definition disableEvent :: "nat \<Rightarrow> 16 word \<Rightarrow> server \<Rightarrow> server" where
  "disableEvent i ev s =
     s\<lparr>pfds := (pfds s)[i := (pfds s ! i)\<lparr>events := events (pfds s ! i) AND NOT ev,
                                         revents := revents (pfds s ! i) AND NOT ev\<rparr>]\<rparr>"

definition enableWritingToClient :: "nat \<Rightarrow> server \<Rightarrow> server_outcome" where
  "enableWritingToClient i s =
     (case fd_to_pfd_index s (client_fd (clients s ! i)) of
        None \<Rightarrow> (Some OutOfRangeAt, s)
      | Some p \<Rightarrow> (None, upd_client i (\<lambda>c. c\<lparr>server_to_client_state := S2C_WRITING\<rparr>) (enableEvent p POLLOUT s)))"

definition enableWritingToCGI :: "nat \<Rightarrow> server \<Rightarrow> server_outcome" where
  "enableWritingToCGI i s =
     thenS (assertS (server_to_cgi_state (clients s ! i) \<noteq> S2CGI_DONE) s) (\<lambda>s.
     thenS (assertS (server_to_cgi_fd (clients s ! i) \<noteq> - 1) s) (\<lambda>s.
       case fd_to_pfd_index s (server_to_cgi_fd (clients s ! i)) of
         None \<Rightarrow> (Some OutOfRangeAt, s)
       | Some p \<Rightarrow> (None, upd_client i (\<lambda>c. c\<lparr>server_to_cgi_state := S2CGI_WRITING\<rparr>) (enableEvent p POLLOUT s))))"

definition disableReadingFromClient :: "nat \<Rightarrow> server \<Rightarrow> server_outcome" where
  "disableReadingFromClient i s =
     (case fd_to_pfd_index s (client_fd (clients s ! i)) of
        None \<Rightarrow> (Some OutOfRangeAt, s)
      | Some p \<Rightarrow> (None, upd_client i (\<lambda>c. c\<lparr>client_to_server_state := C2S_DONE\<rparr>) (disableEvent p POLLIN s)))"

section \<open>Clients\<close>

text \<open>\<open>_acceptClient\<close>, with the descriptor that \<open>accept\<close> returns.\<close>

definition acceptClient :: "64 word \<Rightarrow> int \<Rightarrow> int \<Rightarrow> server \<Rightarrow> server_outcome" where
  "acceptClient max_body_size server_fd' client_fd' s =
     thenS (addClientFd client_fd' (length (clients s)) CLIENT POLLIN s) (\<lambda>s.
       case bind_fd_to_port s server_fd' of
         None \<Rightarrow> (Some OutOfRangeAt, s)
       | Some port \<Rightarrow>
           (None, s\<lparr>clients := clients s @ [mk_client client_fd' server_fd' port max_body_size]\<rparr>))"

definition killCGI :: "int \<Rightarrow> server \<Rightarrow> server_outcome" where
  "killCGI fd s =
     getClient fd s (\<lambda>i.
       let c = clients s ! i in
       if \<not> cgi_killed c \<and> cgi_pid c \<noteq> - 1 then
         removeCGIToServerFd fd
           (upd_client i (\<lambda>c. c\<lparr>cgi_killed := True\<rparr>) (s\<lparr>killed := killed s @ [cgi_pid c]\<rparr>))
       else (None, s))"

text \<open>\<open>_removeClient\<close>, and the end of it, which takes the client out of the tables.\<close>

definition dropClient :: "nat \<Rightarrow> server \<Rightarrow> server_outcome" where
  "dropClient i s =
     (case fd_to_client_index s (client_fd (clients s ! i)) of
        None \<Rightarrow> (Some OutOfRangeAt, s)
      | Some client_index \<Rightarrow>
          (let back = last (clients s);
               s = s\<lparr>fd_to_client_index := (fd_to_client_index s)
                      (client_fd back \<mapsto> client_index, server_to_cgi_fd back \<mapsto> client_index,
                       cgi_to_server_fd back \<mapsto> client_index)\<rparr>
           in thenS (removeClientFd (client_fd (clients s ! i)) s) (\<lambda>s.
                let s = upd_client i (\<lambda>c. c\<lparr>client_fd := - 1\<rparr>) s
                in (None, s\<lparr>clients := swapRemove assign (clients s) client_index\<rparr>))))"

definition removeClient :: "int \<Rightarrow> server \<Rightarrow> server_outcome" where
  "removeClient fd s =
     thenS (assertS (fd \<noteq> - 1) s) (\<lambda>s.
       getClient fd s (\<lambda>i.
         thenS (disableReadingFromClient i (upd_client i (\<lambda>c. c\<lparr>being_removed := True\<rparr>) s)) (\<lambda>s.
           if \<not> cgi_killed (clients s ! i) \<and> cgi_pid (clients s ! i) \<noteq> - 1 then killCGI fd s
           else thenS (removeCGIToServerFd fd s) (dropClient i))))"

text \<open>
  \<open>_startCGI\<close> in the parent process: the pid of the child, and the ends of the two pipes that the
  parent keeps. The ends that it closes are never in a table.
\<close>

definition openServerToCGI :: "int \<Rightarrow> nat \<Rightarrow> nat \<Rightarrow> server \<Rightarrow> server_outcome" where
  "openServerToCGI fd client_index i s =
     (if server_to_cgi_state (clients s ! i) = S2CGI_DONE then (None, s\<lparr>closed := closed s @ [fd]\<rparr>)
      else
        thenS (addClientFd fd client_index SERVER_TO_CGI (if body (clients s ! i) = [] then 0 else POLLOUT) s)
          (\<lambda>s. enableWritingToCGI i
             (upd_client i (\<lambda>c. c\<lparr>server_to_cgi_fd := fd, server_to_cgi_state := S2CGI_WRITING\<rparr>) s)))"

definition openCGIToServer :: "int \<Rightarrow> nat \<Rightarrow> nat \<Rightarrow> server \<Rightarrow> server_outcome" where
  "openCGIToServer fd client_index i s =
     thenS (addClientFd fd client_index CGI_TO_SERVER POLLIN s) (\<lambda>s.
       (None, upd_client i (\<lambda>c. c\<lparr>cgi_to_server_fd := fd, cgi_to_server_state := CGI2S_READING\<rparr>) s))"

definition startCGI :: "int \<Rightarrow> int \<Rightarrow> int \<Rightarrow> nat \<Rightarrow> server \<Rightarrow> server_outcome" where
  "startCGI forked_pid server_to_cgi_fd' cgi_to_server_fd' i s =
     (let s = upd_client i (\<lambda>c. c\<lparr>cgi_pid := forked_pid\<rparr>) s;
          s = s\<lparr>cgi_pid_to_client_fd := emplace_map forked_pid (client_fd (clients s ! i)) (cgi_pid_to_client_fd s)\<rparr>
      in case fd_to_client_index s (client_fd (clients s ! i)) of
           None \<Rightarrow> (Some OutOfRangeAt, s)
         | Some client_index \<Rightarrow>
             thenS (openServerToCGI server_to_cgi_fd' client_index i s) (\<lambda>s.
             thenS (openCGIToServer cgi_to_server_fd' client_index i s) (\<lambda>s.
               (None, s\<lparr>unreaped_cgi_count := unreaped_cgi_count s + 1\<rparr>))))"

definition handlePollerr :: "int \<Rightarrow> FdType \<Rightarrow> server \<Rightarrow> server_outcome" where
  "handlePollerr fd fd_type s =
     (if fd_type = SERVER_TO_CGI then removeServerToCGIFd fd s
      else if fd_type = CLIENT then removeClient fd s
      else (Some Assertion, s))"

end
