(* ===== verification/Server_Tables.thy ===== *)
theory Server_Tables
  imports Server
begin

text \<open>
  The agreement of the tables of \<open>Server\<close>. The locale \<open>index_table\<close> is the contract of a vector
  with a map from keys to positions whose removals move the last element; the polled descriptors
  are its instance. \<open>roles_ok\<close> says which client and which role every descriptor belongs to, and
  \<open>server_ok\<close> puts the two together, with the pipe to a script closed when its state says so. Every operation that adds or removes a descriptor or a client
  keeps \<open>server_ok\<close>, so that the lookups of the event handlers succeed and find the right client.
\<close>

section \<open>Vectors whose removals move the last element\<close>

lemma length_swapRemove [simp]: "length (swapRemove asg v i) = length v - 1"
  by (simp add: swapRemove_def)

lemma nth_swapRemove:
  "i < length v \<Longrightarrow> j < length v - 1 \<Longrightarrow>
     swapRemove asg v i ! j = (if j = i then asg (v ! i) (last v) else v ! j)"
  by (simp add: swapRemove_def nth_butlast)

text \<open>
  A vector \<open>keys\<close> and a map \<open>idx\<close> to positions; \<open>push\<close> appends a new key and \<open>remove\<close> takes a key
  out.
\<close>

definition indexed :: "'k list \<Rightarrow> ('k \<Rightarrow> nat option) \<Rightarrow> bool" where
  "indexed ks m \<longleftrightarrow> (\<forall>k i. m k = Some i \<longleftrightarrow> i < length ks \<and> ks ! i = k)"

lemma indexed_set: "indexed ks m \<Longrightarrow> m k \<noteq> None \<longleftrightarrow> k \<in> set ks"
  by (auto simp: indexed_def in_set_conv_nth)

lemma indexed_distinct: "indexed ks m \<Longrightarrow> distinct ks"
  unfolding distinct_conv_nth indexed_def by (metis option.inject)

lemma indexed_append: "indexed ks m \<Longrightarrow> k \<notin> set ks \<Longrightarrow> indexed (ks @ [k]) (m(k \<mapsto> length ks))"
  unfolding indexed_def by (auto simp: nth_append less_Suc_eq in_set_conv_nth)

lemma last_position: "i < length xs \<Longrightarrow> length xs = Suc (length xs - 1) \<and> last xs = xs ! (length xs - 1)"
  by (cases xs rule: rev_cases) auto

lemma indexed_remove:
  assumes "indexed ks m" "m k = Some i"
  shows "indexed (butlast (ks[i := last ks])) ((m(last ks \<mapsto> i))(k := None))"
proof -
  define n where "n = length ks - 1"
  have m: "m x = Some y \<longleftrightarrow> y < length ks \<and> ks ! y = x" for x y
    using assms(1) unfolding indexed_def by blast
  have i: "i < length ks" "ks ! i = k" using assms(2) m by auto
  then have n: "length ks = Suc n" and l: "last ks = ks ! n"
    using last_position [of i ks] by (simp_all add: n_def)
  have inj: "ks ! j = ks ! j' \<longleftrightarrow> j = j'" if "j \<le> n" "j' \<le> n" for j j'
    using that indexed_distinct [OF assms(1)] n by (simp add: nth_eq_iff_index_eq)
  have "((m(last ks \<mapsto> i))(k := None)) k' = Some j \<longleftrightarrow> j < n \<and> (if j = i then last ks else ks ! j) = k'" for k' j
  proof -
    consider "k' = k" | "k' \<noteq> k" "k' = last ks" | "k' \<noteq> k" "k' \<noteq> last ks" by blast
    then show ?thesis
    proof cases
      case 1
      then show ?thesis using i n l inj [of n i] inj [of j i] by auto
    next
      case 2
      then have "i < n" using i n l by (metis less_antisym)
      with 2 show ?thesis using l inj [of j n] by auto
    next
      case 3
      then show ?thesis using m [of k' j] i n l by (auto simp: less_Suc_eq)
    qed
  qed
  moreover have "j < n \<Longrightarrow> butlast (ks[i := last ks]) ! j = (if j = i then last ks else ks ! j)" for j
    using n i by (simp add: nth_butlast)
  ultimately show ?thesis unfolding indexed_def using n by auto
qed

section \<open>The contract of an index table\<close>

locale index_table =
  fixes keys :: "'s \<Rightarrow> 'k list"
    and pos :: "'s \<Rightarrow> 'k \<Rightarrow> nat option"
    and add :: "'k \<Rightarrow> 's \<Rightarrow> 's"
    and remove :: "'k \<Rightarrow> 's \<Rightarrow> 's"
  assumes add_keys: "pos s k = None \<Longrightarrow> keys (add k s) = keys s @ [k]"
    and add_pos: "pos s k = None \<Longrightarrow> pos (add k s) = (pos s)(k \<mapsto> length (keys s))"
    and remove_keys: "indexed (keys s) (pos s) \<Longrightarrow> pos s k = Some i \<Longrightarrow>
      keys (remove k s) = butlast ((keys s)[i := last (keys s)])"
    and remove_pos: "indexed (keys s) (pos s) \<Longrightarrow> pos s k = Some i \<Longrightarrow>
      pos (remove k s) = ((pos s)(last (keys s) \<mapsto> i))(k := None)"
begin

lemma add_indexed: "indexed (keys s) (pos s) \<Longrightarrow> pos s k = None \<Longrightarrow> indexed (keys (add k s)) (pos (add k s))"
  using indexed_append [of "keys s" "pos s" k] indexed_set [of "keys s" "pos s" k]
  by (auto simp: add_keys add_pos)

lemma remove_indexed:
  "indexed (keys s) (pos s) \<Longrightarrow> pos s k = Some i \<Longrightarrow> indexed (keys (remove k s)) (pos (remove k s))"
  using indexed_remove [of "keys s" "pos s" k i] by (simp add: remove_keys remove_pos)

lemma add_set: "pos s k = None \<Longrightarrow> set (keys (add k s)) = insert k (set (keys s))"
  by (simp add: add_keys)

lemma remove_set:
  assumes "indexed (keys s) (pos s)" "pos s k = Some i"
  shows "set (keys (remove k s)) = set (keys s) - {k}"
proof -
  have "keys s \<noteq> []" using indexed_set [OF assms(1), of k] assms(2) by auto
  then have "pos s (last (keys s)) \<noteq> None"
    using indexed_set [OF assms(1), of "last (keys s)"] by auto
  then have a: "pos (remove k s) k' \<noteq> None \<longleftrightarrow> k' \<noteq> k \<and> pos s k' \<noteq> None" for k'
    by (auto simp: remove_pos [OF assms])
  have b: "k' \<in> set (keys (remove k s)) \<longleftrightarrow> pos (remove k s) k' \<noteq> None" for k'
    by (rule indexed_set [OF remove_indexed [OF assms], symmetric])
  have c: "k' \<in> set (keys s) \<longleftrightarrow> pos s k' \<noteq> None" for k'
    by (rule indexed_set [OF assms(1), symmetric])
  show ?thesis unfolding set_eq_iff Diff_iff singleton_iff b c a by blast
qed

text \<open>Any sequence of additions of absent and removals of present keys.\<close>

inductive table_step :: "'s \<Rightarrow> 's \<Rightarrow> bool" where
  "pos s k = None \<Longrightarrow> table_step s (add k s)"
| "pos s k = Some i \<Longrightarrow> table_step s (remove k s)"

lemma table_run: "table_step\<^sup>*\<^sup>* s s' \<Longrightarrow> indexed (keys s) (pos s) \<Longrightarrow> indexed (keys s') (pos s')"
  by (induction rule: rtranclp_induct) (auto elim!: table_step.cases simp: add_indexed remove_indexed)

end

section \<open>The polled descriptors\<close>

abbreviation polled :: "server \<Rightarrow> int list" where
  "polled s \<equiv> map pfd_fd (pfds s)"

lemma polled_copy: "map pfd_fd (swapRemove copy_pfd v i) = butlast ((map pfd_fd v)[i := last (map pfd_fd v)])"
  if "i < length v"
  using that by (cases "v = []") (auto simp: swapRemove_def copy_pfd_def map_butlast map_update last_map)

text \<open>The polled descriptors with the map to their positions are an index table, whatever type and
  events a new descriptor gets.\<close>

definition dropFd :: "int \<Rightarrow> server \<Rightarrow> server" where
  "dropFd fd s = (case fd_to_pfd_index s fd of Some i \<Rightarrow> dropPfd fd i s | None \<Rightarrow> s)"

interpretation polled: index_table polled fd_to_pfd_index "pushPfd t ev" dropFd for t ev
proof unfold_locales
  fix s :: server and fd :: int and i :: nat
  assume "fd_to_pfd_index s fd = None"
  then show "polled (pushPfd t ev fd s) = polled s @ [fd]"
    and "fd_to_pfd_index (pushPfd t ev fd s) = (fd_to_pfd_index s)(fd \<mapsto> length (polled s))"
    by (simp_all add: pushPfd_def emplace_map_def)
next
  fix s :: server and fd :: int and i :: nat
  assume "indexed (polled s) (fd_to_pfd_index s)" and fd: "fd_to_pfd_index s fd = Some i"
  then have i: "i < length (pfds s)" by (simp add: indexed_def)
  then have "pfds s \<noteq> []" by auto
  with fd i show "fd_to_pfd_index (dropFd fd s) = ((fd_to_pfd_index s)(last (polled s) \<mapsto> i))(fd := None)"
    and "polled (dropFd fd s) = butlast ((polled s)[i := last (polled s)])"
    by (simp_all add: dropFd_def dropPfd_def polled_copy last_map)
qed

section \<open>Descriptors and their clients\<close>

text \<open>The descriptor that a client has in a role, or \<open>- 1\<close>.\<close>

fun fd_of :: "FdType \<Rightarrow> client \<Rightarrow> int" where
  "fd_of SERVER c = - 1"
| "fd_of CLIENT c = client_fd c"
| "fd_of SERVER_TO_CGI c = server_to_cgi_fd c"
| "fd_of CGI_TO_SERVER c = cgi_to_server_fd c"

text \<open>A client that is done with writing to its script has closed the pipe.\<close>

definition pipe_ok :: "client \<Rightarrow> bool" where
  "pipe_ok c \<longleftrightarrow> (server_to_cgi_state c = S2CGI_DONE \<longrightarrow> server_to_cgi_fd c = - 1)"

text \<open>The client \<open>c\<close> has the descriptors of \<open>c'\<close>, and its pipe is in order if that of \<open>c'\<close> is.\<close>

definition same_fds :: "client \<Rightarrow> client \<Rightarrow> bool" where
  "same_fds c c' \<longleftrightarrow> (\<forall>t. fd_of t c = fd_of t c') \<and> (pipe_ok c' \<longrightarrow> pipe_ok c)"

definition roles_ok :: "(int \<Rightarrow> FdType option) \<Rightarrow> (int \<Rightarrow> nat option) \<Rightarrow> client list \<Rightarrow> bool" where
  "roles_ok ty ci cs \<longleftrightarrow>
     ty (- 1) = None \<and>
     (\<forall>fd. fd \<noteq> - 1 \<longrightarrow> ty fd = None \<or> ty fd = Some SERVER \<longrightarrow> ci fd = None) \<and>
     (\<forall>i < length cs. client_fd (cs ! i) \<noteq> - 1) \<and>
     (\<forall>i t. i < length cs \<longrightarrow> fd_of t (cs ! i) \<noteq> - 1 \<longrightarrow>
        ty (fd_of t (cs ! i)) = Some t \<and> ci (fd_of t (cs ! i)) = Some i) \<and>
     (\<forall>fd t. ty fd = Some t \<longrightarrow> t \<noteq> SERVER \<longrightarrow> (\<exists>i < length cs. fd_of t (cs ! i) = fd))"

lemma roles_okD:
  assumes "roles_ok ty ci cs"
  shows "ty (- 1) = None"
    and "\<And>fd. fd \<noteq> - 1 \<Longrightarrow> ty fd = None \<or> ty fd = Some SERVER \<Longrightarrow> ci fd = None"
    and "\<And>i. i < length cs \<Longrightarrow> client_fd (cs ! i) \<noteq> - 1"
    and "\<And>i t. i < length cs \<Longrightarrow> fd_of t (cs ! i) \<noteq> - 1 \<Longrightarrow>
      ty (fd_of t (cs ! i)) = Some t \<and> ci (fd_of t (cs ! i)) = Some i"
    and "\<And>fd t. ty fd = Some t \<Longrightarrow> t \<noteq> SERVER \<Longrightarrow> \<exists>i < length cs. fd_of t (cs ! i) = fd"
  using assms unfolding roles_ok_def by blast+

lemma roles_okI:
  assumes "ty (- 1) = None"
    and "\<And>fd. fd \<noteq> - 1 \<Longrightarrow> ty fd = None \<or> ty fd = Some SERVER \<Longrightarrow> ci fd = None"
    and "\<And>i. i < length cs \<Longrightarrow> client_fd (cs ! i) \<noteq> - 1"
    and "\<And>i t. i < length cs \<Longrightarrow> fd_of t (cs ! i) \<noteq> - 1 \<Longrightarrow>
      ty (fd_of t (cs ! i)) = Some t \<and> ci (fd_of t (cs ! i)) = Some i"
    and "\<And>fd t. ty fd = Some t \<Longrightarrow> t \<noteq> SERVER \<Longrightarrow> \<exists>i < length cs. fd_of t (cs ! i) = fd"
  shows "roles_ok ty ci cs"
  using assms by (simp add: roles_ok_def)

text \<open>Two clients, or two roles of a client, never share a descriptor.\<close>

lemma roles_inj:
  assumes "roles_ok ty ci cs" "i < length cs" "j < length cs" "fd_of t (cs ! i) \<noteq> - 1"
    and "fd_of t (cs ! i) = fd_of t' (cs ! j)"
  shows "i = j \<and> t = t'"
  using roles_okD(4) [OF assms(1,2,4)] roles_okD(4) [OF assms(1,3), where t = t'] assms(4,5)
  by (metis option.inject)

lemma roles_same:
  assumes "roles_ok ty ci cs" "length cs' = length cs" "\<And>i. i < length cs \<Longrightarrow> same_fds (cs' ! i) (cs ! i)"
  shows "roles_ok ty ci cs'"
proof (rule roles_okI)
  have fd: "fd_of t (cs' ! i) = fd_of t (cs ! i)" if "i < length cs" for t i
    using assms(3) [OF that] by (simp add: same_fds_def)
  note d = roles_okD [OF assms(1)]
  show "ty (- 1) = None" by (rule d(1))
  show "\<And>fd. fd \<noteq> - 1 \<Longrightarrow> ty fd = None \<or> ty fd = Some SERVER \<Longrightarrow> ci fd = None" by (rule d(2))
  show "client_fd (cs' ! i) \<noteq> - 1" if "i < length cs'" for i
    using d(3) [of i] fd [of i CLIENT] that assms(2) by simp
  show "ty (fd_of t (cs' ! i)) = Some t \<and> ci (fd_of t (cs' ! i)) = Some i"
    if "i < length cs'" "fd_of t (cs' ! i) \<noteq> - 1" for i t
    using d(4) [of i t] fd [of i t] that assms(2) by simp
  show "\<exists>i < length cs'. fd_of t (cs' ! i) = fd" if "ty fd = Some t" "t \<noteq> SERVER" for fd t
    using d(5) [OF that] fd assms(2) by metis
qed

text \<open>A client gets a descriptor in a role it has none in.\<close>

lemma roles_add:
  assumes ok: "roles_ok ty ci cs" and i: "i < length cs" and new: "ty fd = None" "fd \<noteq> - 1"
    and role: "fd_of t (cs ! i) = - 1" "fd_of t c = fd" "\<And>t'. t' \<noteq> t \<Longrightarrow> fd_of t' c = fd_of t' (cs ! i)"
  shows "roles_ok (ty(fd \<mapsto> t)) (ci(fd \<mapsto> i)) (cs[i := c])"
proof (rule roles_okI)
  note d = roles_okD [OF ok]
  have other: "fd_of t' (cs ! j) \<noteq> fd" if "j < length cs" for t' j
    using d(4) [OF that, of t'] new by auto
  show "(ty(fd \<mapsto> t)) (- 1) = None" using d(1) new(2) by simp
  have "t \<noteq> SERVER" using role(2) new(2) by auto
  then show "\<And>f. f \<noteq> - 1 \<Longrightarrow> (ty(fd \<mapsto> t)) f = None \<or> (ty(fd \<mapsto> t)) f = Some SERVER \<Longrightarrow> (ci(fd \<mapsto> i)) f = None"
    using d(2) by (auto split: if_splits)
  show "client_fd (cs[i := c] ! j) \<noteq> - 1" if "j < length (cs[i := c])" for j
    using that d(3) [of j] role(3) [of CLIENT] role(2) new(2) by (cases "j = i"; cases "t = CLIENT") auto
  show "(ty(fd \<mapsto> t)) (fd_of t' (cs[i := c] ! j)) = Some t' \<and> (ci(fd \<mapsto> i)) (fd_of t' (cs[i := c] ! j)) = Some j"
    if "j < length (cs[i := c])" "fd_of t' (cs[i := c] ! j) \<noteq> - 1" for j t'
    using that d(4) [of j t'] other [of j t'] role(2) role(3) [of t'] by (cases "j = i"; cases "t' = t") auto
  show "\<exists>j < length (cs[i := c]). fd_of t' (cs[i := c] ! j) = f"
    if ty: "(ty(fd \<mapsto> t)) f = Some t'" "t' \<noteq> SERVER" for f t'
  proof (cases "f = fd")
    case True
    with ty role(2) i show ?thesis by (intro exI [of _ i]) auto
  next
    case False
    with d(5) [of f t'] ty obtain j where j: "j < length cs" "fd_of t' (cs ! j) = f" by auto
    have "f \<noteq> - 1" using False ty(1) d(1) by auto
    with j role(1) role(3) [of t'] have "fd_of t' (cs[i := c] ! j) = f"
      by (cases "j = i"; cases "t' = t") auto
    with j(1) show ?thesis by auto
  qed
qed

text \<open>A client loses the descriptor of a role other than the connection itself.\<close>

lemma roles_drop:
  assumes ok: "roles_ok ty ci cs" and i: "i < length cs" and fd: "fd = fd_of t (cs ! i)" "fd \<noteq> - 1"
    and role: "t \<noteq> CLIENT" "fd_of t c = - 1" "\<And>t'. t' \<noteq> t \<Longrightarrow> fd_of t' c = fd_of t' (cs ! i)"
  shows "roles_ok (ty(fd := None)) (ci(fd := None)) (cs[i := c])"
proof (rule roles_okI)
  note d = roles_okD [OF ok]
  have only: "j = i \<and> t' = t" if "j < length cs" "fd_of t' (cs ! j) = fd" for t' j
    using roles_inj [OF ok i that(1), of t t'] that(2) fd by metis
  show "(ty(fd := None)) (- 1) = None" using d(1) by simp
  show "\<And>f. f \<noteq> - 1 \<Longrightarrow> (ty(fd := None)) f = None \<or> (ty(fd := None)) f = Some SERVER \<Longrightarrow> (ci(fd := None)) f = None"
    using d(2) by (auto split: if_splits)
  show "client_fd (cs[i := c] ! j) \<noteq> - 1" if "j < length (cs[i := c])" for j
    using that d(3) [of j] role(3) [of CLIENT] role(1) by (cases "j = i") auto
  show "(ty(fd := None)) (fd_of t' (cs[i := c] ! j)) = Some t' \<and> (ci(fd := None)) (fd_of t' (cs[i := c] ! j)) = Some j"
    if that: "j < length (cs[i := c])" "fd_of t' (cs[i := c] ! j) \<noteq> - 1" for j t'
  proof -
    have ne: "\<not> (j = i \<and> t' = t)" using that(2) role(2) i by auto
    have eq: "fd_of t' (cs[i := c] ! j) = fd_of t' (cs ! j)"
    proof (cases "j = i")
      case True
      with ne have "t' \<noteq> t" by simp
      with role(3) True i show ?thesis by simp
    qed simp
    have "fd_of t' (cs ! j) \<noteq> fd" using only [of j t'] that(1) ne by (metis length_list_update)
    then show ?thesis using d(4) [of j t'] that eq by simp
  qed
  show "\<exists>j < length (cs[i := c]). fd_of t' (cs[i := c] ! j) = f"
    if ty: "(ty(fd := None)) f = Some t'" "t' \<noteq> SERVER" for f t'
  proof -
    have "f \<noteq> fd" using ty(1) by auto
    with d(5) [of f t'] ty obtain j where j: "j < length cs" "fd_of t' (cs ! j) = f" by auto
    with \<open>f \<noteq> fd\<close> fd(1) role(3) [of t'] have "fd_of t' (cs[i := c] ! j) = f"
      by (cases "j = i"; cases "t' = t") auto
    with j(1) show ?thesis by auto
  qed
qed

text \<open>A new client, with nothing but its connection.\<close>

lemma roles_new:
  assumes ok: "roles_ok ty ci cs" and new: "ty fd = None" "fd \<noteq> - 1"
    and c: "client_fd c = fd" "server_to_cgi_fd c = - 1" "cgi_to_server_fd c = - 1"
  shows "roles_ok (ty(fd \<mapsto> CLIENT)) (ci(fd \<mapsto> length cs)) (cs @ [c])"
proof (rule roles_okI)
  note d = roles_okD [OF ok]
  have roles: "fd_of t c = (if t = CLIENT then fd else - 1)" for t using c by (cases t) auto
  have other: "fd_of t (cs ! j) \<noteq> fd" if "j < length cs" for t j using d(4) [OF that, of t] new by auto
  show "(ty(fd \<mapsto> CLIENT)) (- 1) = None" using d(1) new(2) by simp
  show "\<And>f. f \<noteq> - 1 \<Longrightarrow> (ty(fd \<mapsto> CLIENT)) f = None \<or> (ty(fd \<mapsto> CLIENT)) f = Some SERVER \<Longrightarrow>
      (ci(fd \<mapsto> length cs)) f = None"
    using d(2) by (auto split: if_splits)
  show "client_fd ((cs @ [c]) ! j) \<noteq> - 1" if "j < length (cs @ [c])" for j
    using that d(3) [of j] c(1) new(2) by (cases "j < length cs") (auto simp: nth_append)
  show "(ty(fd \<mapsto> CLIENT)) (fd_of t ((cs @ [c]) ! j)) = Some t \<and>
      (ci(fd \<mapsto> length cs)) (fd_of t ((cs @ [c]) ! j)) = Some j"
    if "j < length (cs @ [c])" "fd_of t ((cs @ [c]) ! j) \<noteq> - 1" for j t
  proof (cases "j < length cs")
    case True
    then show ?thesis using that d(4) [of j t] other [of j t] by (simp add: nth_append)
  next
    case False
    then show ?thesis using that roles [of t] by (simp add: nth_append split: if_splits)
  qed
  show "\<exists>j < length (cs @ [c]). fd_of t ((cs @ [c]) ! j) = f"
    if ty: "(ty(fd \<mapsto> CLIENT)) f = Some t" "t \<noteq> SERVER" for f t
  proof (cases "f = fd")
    case True
    with ty roles show ?thesis by (intro exI [of _ "length cs"]) auto
  next
    case False
    with d(5) [of f t] ty obtain j where "j < length cs" "fd_of t (cs ! j) = f" by auto
    then show ?thesis by (intro exI [of _ j]) (simp add: nth_append)
  qed
qed

text \<open>A client without CGI descriptors goes, and the last client moves into its place.\<close>

definition redirect_fds :: "client \<Rightarrow> nat \<Rightarrow> (int \<Rightarrow> nat option) \<Rightarrow> int \<Rightarrow> nat option" where
  "redirect_fds b i ci = ci(client_fd b \<mapsto> i, server_to_cgi_fd b \<mapsto> i, cgi_to_server_fd b \<mapsto> i)"

lemma redirect_fds_apply:
  "redirect_fds b i ci f = (if \<exists>t. t \<noteq> SERVER \<and> fd_of t b = f then Some i else ci f)"
proof -
  have "(\<exists>t. t \<noteq> SERVER \<and> fd_of t b = f) \<longleftrightarrow> f = client_fd b \<or> f = server_to_cgi_fd b \<or> f = cgi_to_server_fd b"
    by (metis FdType.distinct FdType.exhaust fd_of.simps)
  then show ?thesis by (simp add: redirect_fds_def)
qed

lemma roles_remove:
  assumes ok: "roles_ok ty ci cs" and i: "i < length cs" and fd: "fd = client_fd (cs ! i)"
    and plain: "\<And>t. t \<noteq> CLIENT \<Longrightarrow> fd_of t (cs ! i) = - 1"
    and b: "same_fds b' (last cs)"
  shows "roles_ok (ty(fd := None)) ((redirect_fds (last cs) i ci)(fd := None)) (butlast (cs[i := b']))"
proof (rule roles_okI)
  note d = roles_okD [OF ok]
  define n where "n = length cs - 1"
  have n: "length cs = Suc n" "last cs = cs ! n" using last_position [OF i] by (simp_all add: n_def)
  have b': "fd_of t b' = fd_of t (cs ! n)" for t using b by (simp add: same_fds_def n(2))
  have fd': "fd \<noteq> - 1" "fd_of CLIENT (cs ! i) = fd" using d(3) [OF i] fd by auto
  have only: "j = i \<and> t = CLIENT" if "j < length cs" "fd_of t (cs ! j) = fd" for t j
    using roles_inj [OF ok i that(1), of CLIENT t] that(2) fd' by metis
  have nth: "butlast (cs[i := b']) ! j = (if j = i then b' else cs ! j)" if "j < n" for j
    using that n i by (simp add: nth_butlast)
  have len: "length (butlast (cs[i := b'])) = n" using n by simp
  have moved: "fd_of t (butlast (cs[i := b']) ! j) = fd_of t (cs ! (if j = i then n else j))" if "j < n" for t j
    using nth [OF that] b' by simp
  show "(ty(fd := None)) (- 1) = None" using d(1) by simp
  show "((redirect_fds (last cs) i ci)(fd := None)) f = None" if "f \<noteq> - 1" "(ty(fd := None)) f = None \<or> (ty(fd := None)) f = Some SERVER" for f
  proof (cases "f = fd")
    case False
    then have f: "ty f = None \<or> ty f = Some SERVER" "ci f = None" using that d(2) by auto
    have "fd_of t (cs ! n) \<noteq> f" for t using d(4) [of n t] n(1) f(1) that(1) by (cases t) auto
    then show ?thesis using f by (simp add: redirect_fds_apply n(2))
  qed simp
  show "client_fd (butlast (cs[i := b']) ! j) \<noteq> - 1" if "j < length (butlast (cs[i := b']))" for j
    using that moved [of j CLIENT] d(3) [of j] d(3) [of n] n(1) unfolding len by (simp split: if_splits)
  show "(ty(fd := None)) (fd_of t (butlast (cs[i := b']) ! j)) = Some t \<and>
      ((redirect_fds (last cs) i ci)(fd := None)) (fd_of t (butlast (cs[i := b']) ! j)) = Some j"
    if a: "j < length (butlast (cs[i := b']))" "fd_of t (butlast (cs[i := b']) ! j) \<noteq> - 1" for j t
  proof -
    have j: "j < n" using a(1) by (simp only: len)
    define k where "k = (if j = i then n else j)"
    have k: "k < length cs" "k \<noteq> i" using j n(1) by (auto simp: k_def)
    have F: "fd_of t (butlast (cs[i := b']) ! j) = fd_of t (cs ! k)" using moved [OF j] by (simp only: k_def)
    have ne: "fd_of t (cs ! k) \<noteq> - 1" using a(2) by (simp only: F not_False_eq_True)
    have ty: "ty (fd_of t (cs ! k)) = Some t" "ci (fd_of t (cs ! k)) = Some k" using d(4) [OF k(1) ne] by auto
    have "fd_of t (cs ! k) \<noteq> fd" using only [OF k(1), of t] k(2) by auto
    moreover have "redirect_fds (last cs) i ci (fd_of t (cs ! k)) = Some j"
    proof (cases "j = i")
      case True
      then have "k = n" by (simp add: k_def)
      moreover have "t \<noteq> SERVER" using ne by auto
      ultimately show ?thesis using True by (auto simp: redirect_fds_apply n(2))
    next
      case False
      then have kj: "k = j" by (simp add: k_def)
      have "fd_of t' (cs ! n) \<noteq> fd_of t (cs ! k)" for t'
        using roles_inj [OF ok k(1) _ ne, of n t'] n(1) j kj by (metis lessI nat_neq_iff)
      then show ?thesis using ty(2) kj by (simp add: redirect_fds_apply n(2))
    qed
    ultimately show ?thesis using ty(1) by (simp only: F fun_upd_other not_False_eq_True)
  qed
  show "\<exists>j < length (butlast (cs[i := b'])). fd_of t (butlast (cs[i := b']) ! j) = f"
    if a: "(ty(fd := None)) f = Some t" "t \<noteq> SERVER" for f t
  proof -
    have f: "f \<noteq> fd" "ty f = Some t" using a(1) by (auto split: if_splits)
    from d(5) [OF f(2) a(2)] obtain j where j: "j < length cs" "fd_of t (cs ! j) = f" by auto
    have "f \<noteq> - 1" using f(2) d(1) by auto
    then have ji: "j \<noteq> i" using f(1) j(2) plain [of t] fd'(2) by (cases "t = CLIENT") auto
    show ?thesis
    proof (cases "j = n")
      case True
      then have "i < n" using ji i n(1) by simp
      then show ?thesis using moved [of i t] j(2) True unfolding len by auto
    next
      case False
      then show ?thesis using moved [of j t] j ji n(1) unfolding len by (metis less_antisym)
    qed
  qed
qed

section \<open>The operations keep the tables in agreement\<close>

text \<open>A polled descriptor has a type; a descriptor with a type is polled, unless it is a listening socket
  that was shut down, which keeps its type.\<close>

definition tables_ok :: "server \<Rightarrow> bool" where
  "tables_ok s \<longleftrightarrow>
     indexed (polled s) (fd_to_pfd_index s) \<and>
     (\<forall>fd. fd_to_fd_type s fd = None \<longrightarrow> fd_to_pfd_index s fd = None) \<and>
     (\<forall>fd t. fd_to_fd_type s fd = Some t \<longrightarrow> t \<noteq> SERVER \<longrightarrow> fd_to_pfd_index s fd \<noteq> None) \<and>
     (\<forall>fd. fd_to_fd_type s fd = Some SERVER \<longrightarrow> bind_fd_to_port s fd \<noteq> None)"

definition server_ok :: "server \<Rightarrow> bool" where
  "server_ok s \<longleftrightarrow> tables_ok s \<and> roles_ok (fd_to_fd_type s) (fd_to_client_index s) (clients s) \<and>
     (\<forall>c \<in> set (clients s). pipe_ok c)"

lemma server_okD:
  assumes "server_ok s"
  shows "tables_ok s" "roles_ok (fd_to_fd_type s) (fd_to_client_index s) (clients s)"
    "i < length (clients s) \<Longrightarrow> pipe_ok (clients s ! i)"
  using assms by (simp_all add: server_ok_def)

lemma server_okI:
  assumes "tables_ok s" "roles_ok (fd_to_fd_type s) (fd_to_client_index s) (clients s)"
    "\<And>i. i < length (clients s) \<Longrightarrow> pipe_ok (clients s ! i)"
  shows "server_ok s"
  using assms by (auto simp: server_ok_def in_set_conv_nth)

lemma tables_okD:
  assumes "tables_ok s"
  shows "indexed (polled s) (fd_to_pfd_index s)"
    "fd_to_fd_type s fd = None \<Longrightarrow> fd_to_pfd_index s fd = None"
    "fd_to_fd_type s fd = Some t \<Longrightarrow> t \<noteq> SERVER \<Longrightarrow> fd_to_pfd_index s fd \<noteq> None"
    "fd_to_fd_type s fd = Some SERVER \<Longrightarrow> bind_fd_to_port s fd \<noteq> None"
  using assms unfolding tables_ok_def by blast+

text \<open>A descriptor that leads to a client is one of this client's.\<close>

lemma index_role:
  assumes "server_ok s" "fd \<noteq> - 1" "fd_to_client_index s fd = Some i"
  obtains t where "i < length (clients s)" "fd_of t (clients s ! i) = fd"
proof -
  note d = roles_okD [OF server_okD(2) [OF assms(1)]]
  obtain t where t: "fd_to_fd_type s fd = Some t" "t \<noteq> SERVER" using d(2) [OF assms(2)] assms(3) by (cases "fd_to_fd_type s fd") auto
  from d(5) [OF t] obtain j where j: "j < length (clients s)" "fd_of t (clients s ! j) = fd" by auto
  with d(4) [OF j(1), of t] assms(2,3) have "j = i" by simp
  with j that show thesis by blast
qed

lemma getClient_role:
  assumes "server_ok s" "i < length (clients s)" "fd_of t (clients s ! i) \<noteq> - 1"
  shows "getClient (fd_of t (clients s ! i)) s k = k i"
  using roles_okD(4) [OF server_okD(2) [OF assms(1)] assms(2,3)] assms(2) by (simp add: getClient_def)

text \<open>What adding and removing a descriptor do to the tables.\<close>

lemma addClientFd_effect:
  assumes "tables_ok s" "fd_to_fd_type s fd = None" "fd_to_client_index s fd = None" "fd \<noteq> - 1" "t \<noteq> SERVER"
  obtains s' where "addClientFd fd i t ev s = (None, s')" "tables_ok s'" "clients s' = clients s"
    "fd_to_fd_type s' = (fd_to_fd_type s)(fd \<mapsto> t)" "fd_to_client_index s' = (fd_to_client_index s)(fd \<mapsto> i)"
    "bind_fd_to_port s' = bind_fd_to_port s"
proof
  let ?s1 = "s\<lparr>fd_to_client_index := emplace_map fd i (fd_to_client_index s)\<rparr>"
  let ?s = "pushPfd t ev fd ?s1"
  note d = tables_okD [OF assms(1)]
  have ok: "indexed (polled ?s1) (fd_to_pfd_index ?s1)" and new: "fd_to_pfd_index ?s1 fd = None"
    using d(1) d(2) [OF assms(2)] by simp_all
  have "fd_to_fd_type ?s = (fd_to_fd_type s)(fd \<mapsto> t)" "fd_to_pfd_index ?s = (fd_to_pfd_index s)(fd \<mapsto> length (polled s))"
    "bind_fd_to_port ?s = bind_fd_to_port s"
    using assms(2) polled.add_pos [OF new] by (simp_all add: pushPfd_def emplace_map_def)
  moreover have "indexed (polled ?s) (fd_to_pfd_index ?s)" by (rule polled.add_indexed [OF ok new])
  ultimately show "tables_ok ?s" using d(2-4) assms(5) unfolding tables_ok_def by (auto split: if_splits)
  show "addClientFd fd i t ev s = (None, ?s)" using assms(4) by (simp add: addClientFd_def addFd_def)
  show "clients ?s = clients s" "bind_fd_to_port ?s = bind_fd_to_port s" by (simp_all add: pushPfd_def)
  show "fd_to_fd_type ?s = (fd_to_fd_type s)(fd \<mapsto> t)" using assms(2) by (simp add: pushPfd_def emplace_map_def)
  show "fd_to_client_index ?s = (fd_to_client_index s)(fd \<mapsto> i)"
    using assms(3) by (simp add: pushPfd_def emplace_map_def)
qed

text \<open>Taking a descriptor out of the polled ones, as \<open>_removeFd\<close> and \<open>_shutDownServers\<close> do.\<close>

lemma dropPfd_effect:
  assumes "indexed (polled s) (fd_to_pfd_index s)" "fd_to_pfd_index s fd = Some p"
  shows "indexed (polled (dropPfd fd p s)) (fd_to_pfd_index (dropPfd fd p s))"
    "fd_to_pfd_index (dropPfd fd p s) f = None \<longleftrightarrow> f = fd \<or> fd_to_pfd_index s f = None"
proof -
  have e: "dropFd fd s = dropPfd fd p s" by (simp add: dropFd_def assms(2))
  note r = polled.remove_indexed [OF assms, unfolded e]
  show "indexed (polled (dropPfd fd p s)) (fd_to_pfd_index (dropPfd fd p s))" by (rule r)
  show "fd_to_pfd_index (dropPfd fd p s) f = None \<longleftrightarrow> f = fd \<or> fd_to_pfd_index s f = None"
    using polled.remove_set [OF assms, unfolded e] indexed_set [OF r, of f] indexed_set [OF assms(1), of f] by auto
qed

lemma removeClientFd_effect:
  assumes "tables_ok s" "fd_to_fd_type s fd = Some t" "t \<noteq> SERVER" "fd \<noteq> - 1"
  obtains s' where "removeClientFd fd s = (None, s')" "tables_ok s'" "clients s' = clients s"
    "fd_to_fd_type s' = (fd_to_fd_type s)(fd := None)" "fd_to_client_index s' = (fd_to_client_index s)(fd := None)"
    "bind_fd_to_port s' = bind_fd_to_port s" "closed s' = closed s @ [fd]" "fd_to_pfd_index s' fd = None"
proof -
  let ?s1 = "s\<lparr>fd_to_client_index := (fd_to_client_index s)(fd := None)\<rparr>"
  note d = tables_okD [OF assms(1)]
  have ok: "indexed (polled ?s1) (fd_to_pfd_index ?s1)" using d(1) by simp
  from d(3) [OF assms(2,3)] obtain p where p: "fd_to_pfd_index s fd = Some p" by auto
  then have p1: "fd_to_pfd_index ?s1 fd = Some p" by simp
  let ?d = "dropPfd fd p ?s1"
  let ?s = "?d\<lparr>fd_to_fd_type := (fd_to_fd_type ?d)(fd := None), closed := closed ?d @ [fd]\<rparr>"
  note e = dropPfd_effect [OF ok p1]
  show thesis
  proof
    show "removeClientFd fd s = (None, ?s)"
      using assms(4) p by (simp add: removeClientFd_def removeFd_def Let_def)
    have "fd_to_fd_type ?s = (fd_to_fd_type s)(fd := None)" "bind_fd_to_port ?s = bind_fd_to_port s"
      "\<And>f. fd_to_pfd_index ?s f = None \<longleftrightarrow> f = fd \<or> fd_to_pfd_index s f = None"
      using e(2) by (simp_all add: dropPfd_def)
    moreover have "indexed (polled ?s) (fd_to_pfd_index ?s)" using e(1) by simp
    ultimately show "tables_ok ?s" using d(2-4) unfolding tables_ok_def by (auto split: if_splits)
    show "fd_to_pfd_index ?s fd = None" using e(2) by simp
  qed (simp_all add: dropPfd_def)
qed

text \<open>\<open>_shutDownServers\<close> closes the listening sockets that are still polled and keeps the agreement.\<close>

lemma shutDown_step:
  assumes ok: "server_ok s" and fd: "fd_to_fd_type s fd = Some SERVER" "fd_to_pfd_index s fd = Some p"
  shows "server_ok ((dropPfd fd p s)\<lparr>closed := x\<rparr>)"
proof -
  let ?s = "(dropPfd fd p s)\<lparr>closed := x\<rparr>"
  note d = tables_okD [OF server_okD(1) [OF ok]]
  note e = dropPfd_effect [OF d(1) fd(2)]
  have same: "fd_to_fd_type ?s = fd_to_fd_type s" "bind_fd_to_port ?s = bind_fd_to_port s" "clients ?s = clients s"
    "fd_to_client_index ?s = fd_to_client_index s" by (simp_all add: dropPfd_def)
  have pos: "fd_to_pfd_index ?s f = None \<longleftrightarrow> f = fd \<or> fd_to_pfd_index s f = None" for f using e(2) by simp
  have "indexed (polled ?s) (fd_to_pfd_index ?s)" using e(1) by simp
  then have "tables_ok ?s" using d(2-4) fd(1) unfolding tables_ok_def same pos by auto
  then show ?thesis using ok by (simp add: server_ok_def same)
qed

lemma shutDownServers_ok: "server_ok s \<Longrightarrow> server_ok (shutDownServers fds s)"
  unfolding shutDownServers_def
  by (induction fds arbitrary: s) (auto simp: Let_def shutDown_step split: option.splits FdType.splits)

end
