(* ===== verification/Server_Run.thy ===== *)
theory Server_Run
  imports Server_Tables
begin

text \<open>
  The operations of the server one by one: on a state whose tables agree, each operation returns
  without an exception, changes exactly the client it is about, and leaves tables that agree. The
  descriptors and process ids that the operating system hands out are arguments. \<open>Server_Keep\<close>
  puts the operations together to events.
\<close>

section \<open>Steps that move no descriptor\<close>

text \<open>Changing events, and changing clients in anything but their descriptors.\<close>

lemma server_ok_quiet:
  assumes "server_ok s" "polled s' = polled s" "fd_to_pfd_index s' = fd_to_pfd_index s"
    "fd_to_fd_type s' = fd_to_fd_type s" "fd_to_client_index s' = fd_to_client_index s"
    "bind_fd_to_port s' = bind_fd_to_port s" "length (clients s') = length (clients s)"
    "\<And>i. i < length (clients s) \<Longrightarrow> same_fds (clients s' ! i) (clients s ! i)"
  shows "server_ok s'"
proof -
  have "roles_ok (fd_to_fd_type s) (fd_to_client_index s) (clients s')"
    by (rule roles_same [OF server_okD(2) [OF assms(1)] assms(7,8)])
  moreover have "pipe_ok (clients s' ! i)" if "i < length (clients s')" for i
    using that server_okD(3) [OF assms(1), of i] assms(7) assms(8) [of i] by (simp add: same_fds_def)
  moreover have "tables_ok s'" using server_okD(1) [OF assms(1)] assms(2-6) by (simp add: tables_ok_def)
  ultimately show ?thesis using assms(4,5) by (intro server_okI) simp_all
qed

lemma upd_client_simps [simp]:
  "pfds (upd_client i f s) = pfds s" "fd_to_pfd_index (upd_client i f s) = fd_to_pfd_index s"
  "fd_to_fd_type (upd_client i f s) = fd_to_fd_type s"
  "fd_to_client_index (upd_client i f s) = fd_to_client_index s"
  "bind_fd_to_port (upd_client i f s) = bind_fd_to_port s" "closed (upd_client i f s) = closed s"
  "length (clients (upd_client i f s)) = length (clients s)"
  "i < length (clients s) \<Longrightarrow> clients (upd_client i f s) ! i = f (clients s ! i)"
  "j \<noteq> i \<Longrightarrow> clients (upd_client i f s) ! j = clients s ! j"
  by (simp_all add: upd_client_def)

lemma same_fds_fields:
  "same_fds c c' \<longleftrightarrow> client_fd c = client_fd c' \<and> server_to_cgi_fd c = server_to_cgi_fd c' \<and>
     cgi_to_server_fd c = cgi_to_server_fd c' \<and> (pipe_ok c' \<longrightarrow> pipe_ok c)"
proof -
  have "(\<forall>t. fd_of t c = fd_of t c') \<longleftrightarrow> client_fd c = client_fd c' \<and> server_to_cgi_fd c = server_to_cgi_fd c' \<and>
     cgi_to_server_fd c = cgi_to_server_fd c'" by (metis FdType.exhaust fd_of.simps)
  then show ?thesis by (auto simp: same_fds_def)
qed

text \<open>A change that touches neither the descriptors nor the state of the pipe to the script.\<close>

lemma same_fdsI:
  "client_fd c = client_fd c' \<Longrightarrow> server_to_cgi_fd c = server_to_cgi_fd c' \<Longrightarrow>
   cgi_to_server_fd c = cgi_to_server_fd c' \<Longrightarrow>
   server_to_cgi_state c = server_to_cgi_state c' \<or> server_to_cgi_state c \<noteq> S2CGI_DONE \<Longrightarrow> same_fds c c'"
  by (auto simp: same_fds_fields pipe_ok_def)

lemma upd_client_ok:
  assumes "server_ok s" "\<And>c. same_fds (f c) c"
  shows "server_ok (upd_client i f s)"
proof (rule server_ok_quiet [OF assms(1)])
  fix j
  assume "j < length (clients s)"
  then show "same_fds (clients (upd_client i f s) ! j) (clients s ! j)"
    using assms(2) by (cases "j = i") (simp_all add: upd_client_def same_fds_def)
qed (simp_all add: upd_client_def)

lemma map_update_same: "f x = f (v ! i) \<Longrightarrow> map f (v[i := x]) = map f v"
  by (cases "i < length v") (simp_all add: map_update list_update_same_conv list_update_beyond)

lemma event_simps [simp]:
  "polled (enableEvent p ev s) = polled s" "polled (disableEvent p ev s) = polled s"
  "clients (enableEvent p ev s) = clients s" "clients (disableEvent p ev s) = clients s"
  "fd_to_pfd_index (enableEvent p ev s) = fd_to_pfd_index s" "fd_to_pfd_index (disableEvent p ev s) = fd_to_pfd_index s"
  "fd_to_fd_type (enableEvent p ev s) = fd_to_fd_type s" "fd_to_fd_type (disableEvent p ev s) = fd_to_fd_type s"
  "fd_to_client_index (enableEvent p ev s) = fd_to_client_index s"
  "fd_to_client_index (disableEvent p ev s) = fd_to_client_index s"
  "bind_fd_to_port (enableEvent p ev s) = bind_fd_to_port s" "bind_fd_to_port (disableEvent p ev s) = bind_fd_to_port s"
  by (simp_all add: enableEvent_def disableEvent_def map_update_same)

lemma event_ok: "server_ok s \<Longrightarrow> server_ok (enableEvent p ev s)" "server_ok s \<Longrightarrow> server_ok (disableEvent p ev s)"
  by (rule server_ok_quiet, assumption, simp_all add: same_fds_def)+

lemma disableReading_ok:
  assumes "server_ok s" "i < length (clients s)"
  obtains s' where "disableReadingFromClient i s = (None, s')" "server_ok s'"
    "clients s' = (clients s)[i := (clients s ! i)\<lparr>client_to_server_state := C2S_DONE\<rparr>]"
proof -
  have "fd_to_fd_type s (client_fd (clients s ! i)) = Some CLIENT"
    using roles_okD(3) [OF server_okD(2) [OF assms(1)] assms(2)]
      roles_okD(4) [OF server_okD(2) [OF assms(1)] assms(2), of CLIENT] by simp
  then obtain p where p: "fd_to_pfd_index s (client_fd (clients s ! i)) = Some p"
    using tables_okD(3) [OF server_okD(1) [OF assms(1)]] by blast
  show thesis
  proof
    let ?s = "upd_client i (\<lambda>c. c\<lparr>client_to_server_state := C2S_DONE\<rparr>) (disableEvent p POLLIN s)"
    show "disableReadingFromClient i s = (None, ?s)" by (simp add: disableReadingFromClient_def p)
    show "server_ok ?s"
      by (intro upd_client_ok event_ok assms(1)) (simp add: same_fdsI)
  qed (simp add: upd_client_def)
qed

section \<open>Closing the pipes of a CGI script\<close>

text \<open>The two removals are one operation with the role as a parameter.\<close>

lemma close_role:
  assumes ok: "server_ok s" and i: "i < length (clients s)"
    and t: "t \<noteq> CLIENT" "fd_of t (clients s ! i) \<noteq> - 1"
    and f: "\<And>c. fd_of t (f c) = - 1" "\<And>c t'. t' \<noteq> t \<Longrightarrow> fd_of t' (f c) = fd_of t' c" "\<And>c. pipe_ok c \<Longrightarrow> pipe_ok (f c)"
  obtains s' where "thenS (removeClientFd (fd_of t (clients s ! i)) s) (\<lambda>s. (None, upd_client i f s)) = (None, s')"
    "server_ok s'" "clients s' = (clients s)[i := f (clients s ! i)]" "closed s' = closed s @ [fd_of t (clients s ! i)]"
proof -
  let ?fd = "fd_of t (clients s ! i)"
  note roles = server_okD(2) [OF ok]
  have "fd_to_fd_type s ?fd = Some t" using roles_okD(4) [OF roles i t(2)] by simp
  moreover have "t \<noteq> SERVER" using t(2) by auto
  ultimately obtain s1 where s1: "removeClientFd ?fd s = (None, s1)" "tables_ok s1" "clients s1 = clients s"
    "fd_to_fd_type s1 = (fd_to_fd_type s)(?fd := None)" "fd_to_client_index s1 = (fd_to_client_index s)(?fd := None)"
    "closed s1 = closed s @ [?fd]"
    using removeClientFd_effect [OF server_okD(1) [OF ok] _ _ t(2)] by metis
  have "roles_ok (fd_to_fd_type s1) (fd_to_client_index s1) ((clients s)[i := f (clients s ! i)])"
    unfolding s1(4,5) by (rule roles_drop [OF roles i refl t(2,1)]) (simp_all add: f)
  moreover have "tables_ok (upd_client i f s1)" using s1(2) by (simp add: tables_ok_def upd_client_def)
  ultimately have "server_ok (upd_client i f s1)"
    using s1(3) f(3) server_okD(3) [OF ok] i by (intro server_okI) (auto simp: upd_client_def nth_list_update)
  with that s1(1,3,6) show thesis by (simp add: upd_client_def)
qed

definition without_s2c :: "client \<Rightarrow> client" where
  "without_s2c c = (if server_to_cgi_fd c = - 1 then c
     else c\<lparr>server_to_cgi_fd := - 1, server_to_cgi_state := S2CGI_DONE\<rparr>)"

definition without_c2s :: "client \<Rightarrow> client" where
  "without_c2s c = (if cgi_to_server_fd c = - 1 then c
     else c\<lparr>cgi_to_server_fd := - 1, cgi_to_server_state := CGI2S_DONE\<rparr>)"

lemma removeServerToCGIFd_ok:
  assumes ok: "server_ok s" and i: "i < length (clients s)" and t: "fd_of t (clients s ! i) \<noteq> - 1"
  obtains s' where "removeServerToCGIFd (fd_of t (clients s ! i)) s = (None, s')" "server_ok s'"
    "clients s' = (clients s)[i := without_s2c (clients s ! i)]"
    "closed s' = closed s @ filter (\<lambda>fd. fd \<noteq> - 1) [server_to_cgi_fd (clients s ! i)]"
proof (cases "server_to_cgi_fd (clients s ! i) = - 1")
  case True
  with that [of s] ok t show thesis
    by (simp add: removeServerToCGIFd_def getClient_role [OF ok i t] without_s2c_def)
next
  case False
  let ?f = "\<lambda>c :: client. c\<lparr>server_to_cgi_fd := - 1, server_to_cgi_state := S2CGI_DONE\<rparr>"
  have roles: "fd_of t' (?f c) = fd_of t' c" if "t' \<noteq> SERVER_TO_CGI" for t' c using that by (cases t') auto
  from False obtain s' where
    "thenS (removeClientFd (fd_of SERVER_TO_CGI (clients s ! i)) s) (\<lambda>s. (None, upd_client i ?f s)) = (None, s')"
    "server_ok s'" "clients s' = (clients s)[i := ?f (clients s ! i)]" "closed s' = closed s @ [server_to_cgi_fd (clients s ! i)]"
    using close_role [OF ok i, of SERVER_TO_CGI ?f] roles by (auto simp: pipe_ok_def)
  with that [of s'] t False show thesis
    by (simp add: removeServerToCGIFd_def getClient_role [OF ok i t] without_s2c_def)
qed

lemma removeCGIToServerFd_ok:
  assumes ok: "server_ok s" and i: "i < length (clients s)" and t: "fd_of t (clients s ! i) \<noteq> - 1"
  obtains s' where "removeCGIToServerFd (fd_of t (clients s ! i)) s = (None, s')" "server_ok s'"
    "clients s' = (clients s)[i := without_c2s (clients s ! i)]"
    "closed s' = closed s @ filter (\<lambda>fd. fd \<noteq> - 1) [cgi_to_server_fd (clients s ! i)]"
proof (cases "cgi_to_server_fd (clients s ! i) = - 1")
  case True
  with that [of s] ok t show thesis
    by (simp add: removeCGIToServerFd_def getClient_role [OF ok i t] without_c2s_def)
next
  case False
  let ?f = "\<lambda>c :: client. c\<lparr>cgi_to_server_fd := - 1, cgi_to_server_state := CGI2S_DONE\<rparr>"
  have roles: "fd_of t' (?f c) = fd_of t' c" if "t' \<noteq> CGI_TO_SERVER" for t' c using that by (cases t') auto
  from False obtain s' where
    "thenS (removeClientFd (fd_of CGI_TO_SERVER (clients s ! i)) s) (\<lambda>s. (None, upd_client i ?f s)) = (None, s')"
    "server_ok s'" "clients s' = (clients s)[i := ?f (clients s ! i)]" "closed s' = closed s @ [cgi_to_server_fd (clients s ! i)]"
    using close_role [OF ok i, of CGI_TO_SERVER ?f] roles by (auto simp: pipe_ok_def)
  with that [of s'] t False show thesis
    by (simp add: removeCGIToServerFd_def getClient_role [OF ok i t] without_c2s_def)
qed

lemma killCGI_ok:
  assumes ok: "server_ok s" and i: "i < length (clients s)" and t: "fd_of t (clients s ! i) \<noteq> - 1"
  obtains s' where "killCGI (fd_of t (clients s ! i)) s = (None, s')" "server_ok s'"
    "clients s' = (clients s)[i :=
       (if \<not> cgi_killed (clients s ! i) \<and> cgi_pid (clients s ! i) \<noteq> - 1
        then without_c2s ((clients s ! i)\<lparr>cgi_killed := True\<rparr>) else clients s ! i)]"
proof (cases "\<not> cgi_killed (clients s ! i) \<and> cgi_pid (clients s ! i) \<noteq> - 1")
  case True
  let ?s = "upd_client i (\<lambda>c. c\<lparr>cgi_killed := True\<rparr>) (s\<lparr>killed := killed s @ [cgi_pid (clients s ! i)]\<rparr>)"
  have "server_ok (s\<lparr>killed := killed s @ [cgi_pid (clients s ! i)]\<rparr>)"
    by (rule server_ok_quiet [OF ok]) (simp_all add: same_fds_def)
  then have ok1: "server_ok ?s" by (rule upd_client_ok) (simp add: same_fdsI)
  have c: "clients ?s = (clients s)[i := (clients s ! i)\<lparr>cgi_killed := True\<rparr>]" by (simp add: upd_client_def)
  have fd: "fd_of t (clients ?s ! i) = fd_of t (clients s ! i)" using i c by (cases t) auto
  obtain s' where "removeCGIToServerFd (fd_of t (clients s ! i)) ?s = (None, s')" "server_ok s'"
    "clients s' = (clients s)[i := without_c2s ((clients s ! i)\<lparr>cgi_killed := True\<rparr>)]"
    using removeCGIToServerFd_ok [OF ok1, of i t] i t fd c by auto
  with that [of s'] True show thesis by (simp add: killCGI_def getClient_role [OF ok i t] Let_def)
next
  case False
  with that [of s] ok show thesis by (simp add: killCGI_def getClient_role [OF ok i t] Let_def)
qed

section \<open>Clients come and go\<close>

lemma acceptClient_ok:
  assumes ok: "server_ok s" and new: "fd_to_fd_type s fd = None" "fd \<noteq> - 1"
    and port: "bind_fd_to_port s sfd = Some port"
  obtains s' where "acceptClient mx sfd fd s = (None, s')" "server_ok s'"
    "clients s' = clients s @ [mk_client fd sfd port mx]"
proof -
  have ci: "fd_to_client_index s fd = None" using roles_okD(2) [OF server_okD(2) [OF ok] new(2)] new(1) by simp
  from addClientFd_effect [OF server_okD(1) [OF ok] new(1) ci new(2) FdType.distinct(2), of "length (clients s)" POLLIN]
  obtain s1 where s1: "addClientFd fd (length (clients s)) CLIENT POLLIN s = (None, s1)" "tables_ok s1"
    "clients s1 = clients s" "fd_to_fd_type s1 = (fd_to_fd_type s)(fd \<mapsto> CLIENT)"
    "fd_to_client_index s1 = (fd_to_client_index s)(fd \<mapsto> length (clients s))"
    "bind_fd_to_port s1 = bind_fd_to_port s" .
  let ?s = "s1\<lparr>clients := clients s1 @ [mk_client fd sfd port mx]\<rparr>"
  have "server_ok ?s"
    using s1(2) ok roles_new [OF server_okD(2) [OF ok] new, of "mk_client fd sfd port mx"]
    by (simp add: server_ok_def tables_ok_def s1 mk_client_def pipe_ok_def)
  with that [of ?s] s1 port show thesis by (simp add: acceptClient_def)
qed

text \<open>
  The two ways in which \<open>_removeClient\<close> ends: a running CGI script is killed first and the client
  stays, or the client goes and the last client takes its place, with the chunk state of the client
  that went.
\<close>

definition leaving :: "client \<Rightarrow> client" where
  "leaving c = c\<lparr>being_removed := True, client_to_server_state := C2S_DONE\<rparr>"

definition busy_cgi :: "client \<Rightarrow> bool" where
  "busy_cgi c \<longleftrightarrow> \<not> cgi_killed c \<and> cgi_pid c \<noteq> - 1"

lemma dropClient_ok:
  assumes ok: "server_ok s" and i: "i < length (clients s)"
    and plain: "server_to_cgi_fd (clients s ! i) = - 1" "cgi_to_server_fd (clients s ! i) = - 1"
  obtains s' where "dropClient i s = (None, s')" "server_ok s'"
    "clients s' = butlast ((clients s)[i := assign (clients s ! i) (last (clients s))])"
    "fd_to_client_index s' (client_fd (clients s ! i)) = None" "fd_to_pfd_index s' (client_fd (clients s ! i)) = None"
    "closed s' = closed s @ [client_fd (clients s ! i)]"
proof -
  let ?fd = "client_fd (clients s ! i)"
  let ?ci = "redirect_fds (last (clients s)) i (fd_to_client_index s)"
  note roles = server_okD(2) [OF ok]
  have fd: "?fd \<noteq> - 1" by (rule roles_okD(3) [OF roles i])
  have ty: "fd_to_fd_type s ?fd = Some CLIENT" "fd_to_client_index s ?fd = Some i"
    using roles_okD(4) [OF roles i, of CLIENT] fd by simp_all
  let ?s1 = "s\<lparr>fd_to_client_index := ?ci\<rparr>"
  have "tables_ok ?s1" "fd_to_fd_type ?s1 ?fd = Some CLIENT" using server_okD(1) [OF ok] ty by (simp_all add: tables_ok_def)
  from removeClientFd_effect [OF this _ fd] obtain s2 where
    s2: "removeClientFd ?fd ?s1 = (None, s2)" "tables_ok s2" "clients s2 = clients s"
      "fd_to_fd_type s2 = (fd_to_fd_type s)(?fd := None)" "fd_to_client_index s2 = ?ci(?fd := None)"
      "closed s2 = closed s @ [?fd]" "fd_to_pfd_index s2 ?fd = None"
    by auto
  let ?b = "assign (clients s ! i) (last (clients s))"
  let ?s = "s2\<lparr>clients := butlast ((clients s)[i := ?b])\<rparr>"
  have b: "same_fds ?b (last (clients s))" by (simp add: assign_def same_fdsI)
  have "clients s \<noteq> []" using i by auto
  then have "pipe_ok (last (clients s))" using ok by (simp add: server_ok_def)
  then have pb: "pipe_ok ?b" by (simp add: assign_def pipe_ok_def)
  have "set (butlast ((clients s)[i := ?b])) \<subseteq> insert ?b (set (clients s))"
    using set_update_subset_insert [of "clients s" i ?b] by (meson in_set_butlastD subset_iff)
  then have pipes: "\<forall>c \<in> set (butlast ((clients s)[i := ?b])). pipe_ok c" using ok pb by (auto simp: server_ok_def)
  have "fd_of t (clients s ! i) = - 1" if "t \<noteq> CLIENT" for t using that plain by (cases t) auto
  from roles_remove [OF roles i refl this b] have "server_ok ?s"
    using s2 pipes by (simp add: server_ok_def tables_ok_def)
  moreover have "dropClient i s = (None, ?s)"
  proof -
    let ?cs = "(clients s)[i := (clients s ! i)\<lparr>client_fd := - 1\<rparr>]"
    have "swapRemove assign ?cs i = butlast ((clients s)[i := ?b])"
    proof (cases "i = length (clients s) - 1")
      case True
      then show ?thesis using i by (simp add: swapRemove_def butlast_list_update)
    next
      case False
      then have "last ?cs = last (clients s)" using i by (metis last_list_update length_0_conv not_less0)
      then show ?thesis using i by (simp add: swapRemove_def assign_def)
    qed
    then show ?thesis using s2 ty by (simp add: dropClient_def redirect_fds_def Let_def upd_client_def)
  qed
  ultimately show thesis using that [of ?s] s2(5-7) by simp
qed

text \<open>The client that \<open>_removeClient\<close> leaves or removes, and the clients afterwards.\<close>

text \<open>A client whose removal leaves no pipe behind: its script is running, and is killed first, or it has
  no pipe to a script.\<close>

definition settled :: "client \<Rightarrow> bool" where
  "settled c \<longleftrightarrow> busy_cgi c \<or> server_to_cgi_fd c = - 1"

lemma closed_disableReading [simp]: "closed (snd (disableReadingFromClient i s)) = closed s"
  by (simp add: disableReadingFromClient_def disableEvent_def upd_client_def split: option.split)

lemma removeClient_ok:
  assumes ok: "server_ok s" and i: "i < length (clients s)" and fd: "fd_of t (clients s ! i) = fd" "fd \<noteq> - 1"
    and settled: "settled (clients s ! i)"
  obtains s' where "removeClient fd s = (None, s')" "server_ok s'"
    "clients s' =
       (if busy_cgi (clients s ! i)
        then (clients s)[i := without_c2s ((leaving (clients s ! i))\<lparr>cgi_killed := True\<rparr>)]
        else butlast ((clients s)[i := assign (clients s ! i) (last (clients s))]))"
    "busy_cgi (clients s ! i) \<or>
      fd_to_client_index s' (client_fd (clients s ! i)) = None \<and> fd_to_pfd_index s' (client_fd (clients s ! i)) = None \<and>
      closed s' = closed s @ filter (\<lambda>fd. fd \<noteq> - 1) [cgi_to_server_fd (clients s ! i), client_fd (clients s ! i)]"
proof -
  let ?c = "clients s ! i"
  let ?s0 = "upd_client i (\<lambda>c. c\<lparr>being_removed := True\<rparr>) s"
  have "server_ok ?s0" by (rule upd_client_ok [OF ok]) (simp add: same_fdsI)
  from disableReading_ok [OF this, of i] i obtain s1 where
    s1: "disableReadingFromClient i ?s0 = (None, s1)" "server_ok s1" "clients s1 = (clients s)[i := leaving ?c]"
    by (auto simp: upd_client_def leaving_def)
  have "closed s1 = closed ?s0" using closed_disableReading [of i ?s0] unfolding s1(1) by simp
  then have cl: "closed s1 = closed s" by simp
  have i1: "i < length (clients s1)" "clients s1 ! i = leaving ?c" using s1(3) i by simp_all
  have fd1: "fd_of t (clients s1 ! i) = fd" using i1 fd(1) by (cases t) (auto simp: leaving_def)
  have get: "getClient fd s k = k i" for k using getClient_role [OF ok i, of t] fd by simp
  have start: "removeClient fd s =
      (if busy_cgi ?c then killCGI fd s1 else thenS (removeCGIToServerFd fd s1) (dropClient i))"
    using fd(2) s1(1) i1(2) by (simp add: removeClient_def get busy_cgi_def leaving_def)
  show thesis
  proof (cases "busy_cgi ?c")
    case True
    from killCGI_ok [OF s1(2) i1(1), of t] fd fd1 obtain s' where
      "killCGI fd s1 = (None, s')" "server_ok s'"
      "clients s' = (clients s)[i := without_c2s ((leaving ?c)\<lparr>cgi_killed := True\<rparr>)]"
      using True i1(2) s1(3) by (auto simp: busy_cgi_def leaving_def)
    with that [of s'] True start show thesis by simp
  next
    case False
    have "fd_of t (clients s1 ! i) \<noteq> - 1" using fd1 fd(2) by simp
    from removeCGIToServerFd_ok [OF s1(2) i1(1) this, unfolded fd1] obtain s2 where
      rem: "removeCGIToServerFd fd s1 = (None, s2)" "server_ok s2"
        "clients s2 = (clients s1)[i := without_c2s (clients s1 ! i)]"
        "closed s2 = closed s1 @ filter (\<lambda>fd. fd \<noteq> - 1) [cgi_to_server_fd (clients s1 ! i)]" .
    have s2: "removeCGIToServerFd fd s1 = (None, s2)" "server_ok s2"
        "clients s2 = (clients s)[i := without_c2s (leaving ?c)]"
        "closed s2 = closed s @ filter (\<lambda>fd. fd \<noteq> - 1) [cgi_to_server_fd ?c]"
      using rem i unfolding s1(3) cl by (simp_all add: leaving_def)
    have c2: "server_to_cgi_fd (clients s2 ! i) = - 1" "cgi_to_server_fd (clients s2 ! i) = - 1"
      using s2(3) i settled False by (simp_all add: settled_def without_c2s_def leaving_def)
    have read_state: "chunked_read_state (clients s2 ! i) = chunked_read_state ?c"
      using s2(3) i by (simp add: without_c2s_def leaving_def)
    from dropClient_ok [OF s2(2) _ c2] i s2(3) obtain s' where
      s': "dropClient i s2 = (None, s')" "server_ok s'"
        "clients s' = butlast ((clients s2)[i := assign (clients s2 ! i) (last (clients s2))])"
        "fd_to_client_index s' (client_fd (clients s2 ! i)) = None" "fd_to_pfd_index s' (client_fd (clients s2 ! i)) = None"
        "closed s' = closed s2 @ [client_fd (clients s2 ! i)]"
      by auto
    have conn: "client_fd (clients s2 ! i) = client_fd ?c" using s2(3) i by (simp add: without_c2s_def leaving_def)
    have "client_fd ?c \<noteq> - 1" using roles_okD(3) [OF server_okD(2) [OF ok] i] .
    with s'(4-6) s2(4) conn have gone: "fd_to_client_index s' (client_fd ?c) = None" "fd_to_pfd_index s' (client_fd ?c) = None"
      "closed s' = closed s @ filter (\<lambda>fd. fd \<noteq> - 1) [cgi_to_server_fd ?c, client_fd ?c]" by simp_all
    have "clients s' = butlast ((clients s)[i := assign ?c (last (clients s))])"
    proof (cases "i = length (clients s) - 1")
      case True
      then show ?thesis using s'(3) s2(3) i by (simp add: butlast_list_update)
    next
      case False
      then have "last (clients s2) = last (clients s)"
        using i s2(3) by (metis last_list_update length_0_conv not_less0)
      then show ?thesis using s'(3) s2(3) read_state by (simp add: assign_def)
    qed
    moreover have "removeClient fd s = (None, s')" using start False s2(1) s'(1) by simp
    ultimately show thesis using that [of s'] s'(2) False gone by metis
  qed
qed

section \<open>Starting a CGI script\<close>

text \<open>A client gets the descriptor of a pipe in one of the two CGI roles.\<close>

lemma open_role:
  assumes ok: "server_ok s" and i: "i < length (clients s)"
    and new: "fd_to_fd_type s fd = None" "fd \<noteq> - 1"
    and t: "t \<noteq> SERVER" "fd_of t (clients s ! i) = - 1"
    and f: "\<And>c. fd_of t (f c) = fd" "\<And>c t'. t' \<noteq> t \<Longrightarrow> fd_of t' (f c) = fd_of t' c" "\<And>c. pipe_ok c \<Longrightarrow> pipe_ok (f c)"
  obtains s' where "addClientFd fd i t ev s = (None, s')" "server_ok (upd_client i f s')" "clients s' = clients s"
    "\<forall>f'. f' \<noteq> fd \<longrightarrow> fd_to_fd_type s' f' = fd_to_fd_type s f'"
proof -
  note roles = server_okD(2) [OF ok]
  have ci: "fd_to_client_index s fd = None" using roles_okD(2) [OF roles new(2)] new(1) by simp
  from addClientFd_effect [OF server_okD(1) [OF ok] new(1) ci new(2) t(1), of i ev] obtain s1 where
    s1: "addClientFd fd i t ev s = (None, s1)" "tables_ok s1" "clients s1 = clients s"
      "fd_to_fd_type s1 = (fd_to_fd_type s)(fd \<mapsto> t)" "fd_to_client_index s1 = (fd_to_client_index s)(fd \<mapsto> i)" .
  have "roles_ok (fd_to_fd_type s1) (fd_to_client_index s1) ((clients s)[i := f (clients s ! i)])"
    unfolding s1(4,5) by (rule roles_add [OF roles i new t(2)]) (simp_all add: f)
  moreover have "tables_ok (upd_client i f s1)" using s1(2) by (simp add: tables_ok_def upd_client_def)
  ultimately have "server_ok (upd_client i f s1)"
    using s1(3) f(3) server_okD(3) [OF ok] i by (intro server_okI) (auto simp: upd_client_def nth_list_update)
  then show thesis using that [of s1] s1 by auto
qed

lemma openServerToCGI_ok:
  assumes ok: "server_ok s" and i: "i < length (clients s)"
    and none: "server_to_cgi_fd (clients s ! i) = - 1"
    and new: "fd_to_fd_type s fd = None" "fd \<noteq> - 1"
  obtains s' where "openServerToCGI fd i i s = (None, s')" "server_ok s'" "length (clients s') = length (clients s)"
    "cgi_to_server_fd (clients s' ! i) = cgi_to_server_fd (clients s ! i)"
    "client_fd (clients s' ! i) = client_fd (clients s ! i)"
    "cgi_pid (clients s' ! i) = cgi_pid (clients s ! i)" "cgi_killed (clients s' ! i) = cgi_killed (clients s ! i)"
    "\<forall>j. j \<noteq> i \<longrightarrow> clients s' ! j = clients s ! j"
    "\<forall>f'. f' \<noteq> fd \<longrightarrow> fd_to_fd_type s' f' = fd_to_fd_type s f'"
proof (cases "server_to_cgi_state (clients s ! i) = S2CGI_DONE")
  case True
  have "server_ok (s\<lparr>closed := closed s @ [fd]\<rparr>)" by (rule server_ok_quiet [OF ok]) (simp_all add: same_fds_def)
  with that [of "s\<lparr>closed := closed s @ [fd]\<rparr>"] True show thesis by (simp add: openServerToCGI_def)
next
  case False
  let ?f = "\<lambda>c. c\<lparr>server_to_cgi_fd := fd, server_to_cgi_state := S2CGI_WRITING\<rparr>"
  let ?ev = "if body (clients s ! i) = [] then 0 else POLLOUT"
  have f: "fd_of SERVER_TO_CGI (?f c) = fd" "t' \<noteq> SERVER_TO_CGI \<Longrightarrow> fd_of t' (?f c) = fd_of t' c" for c t'
    by simp (cases t'; simp)
  from open_role [OF ok i new, of SERVER_TO_CGI ?f ?ev] none f obtain s1 where
    s1: "addClientFd fd i SERVER_TO_CGI ?ev s = (None, s1)" "server_ok (upd_client i ?f s1)" "clients s1 = clients s"
      "\<forall>f'. f' \<noteq> fd \<longrightarrow> fd_to_fd_type s1 f' = fd_to_fd_type s f'"
    by (auto simp: pipe_ok_def)
  let ?s2 = "upd_client i ?f s1"
  have c2: "clients ?s2 ! i = ?f (clients s ! i)" using i s1(3) by simp
  have "fd_to_fd_type ?s2 (fd_of SERVER_TO_CGI (clients ?s2 ! i)) = Some SERVER_TO_CGI"
    using roles_okD(4) [OF server_okD(2) [OF s1(2)], of i SERVER_TO_CGI] i s1(3) c2 new(2) by simp
  then obtain p where p: "fd_to_pfd_index ?s2 fd = Some p"
    using tables_okD(3) [OF server_okD(1) [OF s1(2)]] c2 by fastforce
  let ?s = "upd_client i (\<lambda>c. c\<lparr>server_to_cgi_state := S2CGI_WRITING\<rparr>) (enableEvent p POLLOUT ?s2)"
  have "server_ok ?s" by (intro upd_client_ok event_ok s1(2)) (simp add: same_fdsI)
  moreover have "openServerToCGI fd i i s = (None, ?s)"
    using False s1(1) c2 p new(2) by (simp add: openServerToCGI_def enableWritingToCGI_def)
  moreover have "length (clients ?s) = length (clients s)" using s1(3) by simp
  moreover have "cgi_to_server_fd (clients ?s ! i) = cgi_to_server_fd (clients s ! i)"
    "client_fd (clients ?s ! i) = client_fd (clients s ! i)"
    "cgi_pid (clients ?s ! i) = cgi_pid (clients s ! i)" "cgi_killed (clients ?s ! i) = cgi_killed (clients s ! i)"
    using i s1(3) by simp_all
  moreover have "\<forall>j. j \<noteq> i \<longrightarrow> clients ?s ! j = clients s ! j" using s1(3) by (simp add: upd_client_def)
  ultimately show thesis using that [of ?s] s1(4) by simp
qed

lemma startCGI_ok:
  assumes ok: "server_ok s" and i: "i < length (clients s)"
    and none: "server_to_cgi_fd (clients s ! i) = - 1" "cgi_to_server_fd (clients s ! i) = - 1"
    and new: "fd_to_fd_type s a = None" "a \<noteq> - 1" "fd_to_fd_type s b = None" "b \<noteq> - 1" "a \<noteq> b"
  obtains s' where "startCGI pid a b i s = (None, s')" "server_ok s'" "length (clients s') = length (clients s)"
    "client_fd (clients s' ! i) = client_fd (clients s ! i)"
    "cgi_pid (clients s' ! i) = pid" "cgi_killed (clients s' ! i) = cgi_killed (clients s ! i)"
    "\<forall>j. j \<noteq> i \<longrightarrow> clients s' ! j = clients s ! j"
proof -
  let ?s0 = "upd_client i (\<lambda>c. c\<lparr>cgi_pid := pid\<rparr>) s"
  let ?s1 = "?s0\<lparr>cgi_pid_to_client_fd := emplace_map pid (client_fd (clients ?s0 ! i)) (cgi_pid_to_client_fd ?s0)\<rparr>"
  have "server_ok ?s0" by (rule upd_client_ok [OF ok]) (simp add: same_fdsI)
  then have ok1: "server_ok ?s1" by (rule server_ok_quiet) (simp_all add: same_fds_def)
  have i1: "i < length (clients ?s1)" "clients ?s1 ! i = (clients s ! i)\<lparr>cgi_pid := pid\<rparr>" using i by simp_all
  have ci: "fd_to_client_index ?s1 (client_fd (clients ?s1 ! i)) = Some i"
    using roles_okD(3) [OF server_okD(2) [OF ok1] i1(1)] roles_okD(4) [OF server_okD(2) [OF ok1] i1(1), of CLIENT] by simp
  have n1: "server_to_cgi_fd (clients ?s1 ! i) = - 1" "fd_to_fd_type ?s1 a = None"
    using none(1) new(1) i by simp_all
  from openServerToCGI_ok [OF ok1 i1(1) n1 new(2)] obtain s2 where
    open2: "openServerToCGI a i i ?s1 = (None, s2)" "server_ok s2" "length (clients s2) = length (clients ?s1)"
      "cgi_to_server_fd (clients s2 ! i) = cgi_to_server_fd (clients ?s1 ! i)"
      "client_fd (clients s2 ! i) = client_fd (clients ?s1 ! i)"
      "cgi_pid (clients s2 ! i) = cgi_pid (clients ?s1 ! i)" "cgi_killed (clients s2 ! i) = cgi_killed (clients ?s1 ! i)"
      "\<forall>j. j \<noteq> i \<longrightarrow> clients s2 ! j = clients ?s1 ! j"
      "\<forall>f'. f' \<noteq> a \<longrightarrow> fd_to_fd_type s2 f' = fd_to_fd_type ?s1 f'" .
  have s2: "length (clients s2) = length (clients s)" "cgi_to_server_fd (clients s2 ! i) = - 1"
      "fd_to_fd_type s2 b = None" "client_fd (clients s2 ! i) = client_fd (clients s ! i)"
      "cgi_pid (clients s2 ! i) = pid" "cgi_killed (clients s2 ! i) = cgi_killed (clients s ! i)"
      "\<forall>j. j \<noteq> i \<longrightarrow> clients s2 ! j = clients s ! j"
    using open2(3-9) none(2) new(3,5) i by simp_all
  let ?f = "\<lambda>c. c\<lparr>cgi_to_server_fd := b, cgi_to_server_state := CGI2S_READING\<rparr>"
  have f: "fd_of CGI_TO_SERVER (?f c) = b" "t' \<noteq> CGI_TO_SERVER \<Longrightarrow> fd_of t' (?f c) = fd_of t' c" for c t'
    by simp (cases t'; simp)
  from open_role [OF open2(2) _ s2(3) new(4), of i CGI_TO_SERVER ?f POLLIN] i s2(1,2) f obtain s3 where
    s3: "addClientFd b i CGI_TO_SERVER POLLIN s2 = (None, s3)" "server_ok (upd_client i ?f s3)" "clients s3 = clients s2"
      "\<forall>f'. f' \<noteq> b \<longrightarrow> fd_to_fd_type s3 f' = fd_to_fd_type s2 f'"
    by (auto simp: pipe_ok_def)
  let ?s = "(upd_client i ?f s3)\<lparr>unreaped_cgi_count := unreaped_cgi_count (upd_client i ?f s3) + 1\<rparr>"
  have "server_ok ?s" by (rule server_ok_quiet [OF s3(2)]) (simp_all add: same_fds_def)
  moreover have "startCGI pid a b i s = (None, ?s)"
    using ci open2(1) s3(1) by (simp add: startCGI_def openCGIToServer_def Let_def)
  moreover have "clients ?s = (clients s2)[i := ?f (clients s2 ! i)]" using s3(3) by (simp add: upd_client_def)
  ultimately show thesis using that [of ?s] i s2 by simp
qed

end
