(* ===== verification/Config.thy ===== *)
theory Config
  imports Json "HOL-Library.Product_Lexorder"
begin

text \<open>
  \<open>src/src/config/Config.cpp\<close>: the configuration that is read off the JSON value. The resolver
  \<open>getaddrinfo\<close> is a parameter; \<open>None\<close> is its failure. Every exception of the code is a value of
  \<open>config_exception\<close>. The lemmas show what holds of every configuration that is accepted: the
  bounds of its numbers, the shape of its servers and locations, and that every address leads to
  servers that can be told apart by their names.
\<close>

section \<open>Data\<close>

record LocationDirective =
  uri :: string
  cgi_execve_path :: string
  get_allowed :: bool
  post_allowed :: bool
  delete_allowed :: bool
  autoindex :: bool
  index :: string
  loc_redirect :: string
  loc_root :: string

record ListenEntry =
  address :: string
  port :: string

record ServerDirective =
  listen :: "ListenEntry list"
  server_names :: "string list"
  locations :: "LocationDirective list"
  error_pages :: "(nat \<times> string) list"

text \<open>\<open>BindInfo\<close>: the address and the port, ordered lexicographically.\<close>

type_synonym BindInfo = "32 word \<times> 16 word"

record config =
  connection_queue_length :: nat
  max_body_size :: "64 word"
  poll_timeout_ms :: nat
  client_timeout_ms :: nat
  servers :: "ServerDirective list"
  bind_info_to_server_indices :: "(BindInfo \<times> nat list) list"

datatype config_exception =
    NodeError node_exception
  | ExpectedConnectionQueueLength | ConnectionQueueLengthIsGreaterThanIntMax | ConnectionQueueLengthIsLessThanOne
  | ExpectedClientMaxBodySize
  | ExpectedPollTimeoutMs | PollTimeoutMsIsLessThan1 | PollTimeoutMsIsGreaterThan10000
  | ExpectedClientTimeoutMs | ClientTimeoutMsIsLessThan1 | ClientTimeoutMsIsGreaterThan10000
  | ExpectedServers | ExpectedListen | ExpectedServerNames | ExpectedLocations | ExpectedErrorPages
  | ListenColonIsRequired | MissingAddressBeforePortColon | NoPortAfterColon
  | NeedEitherRootOrRedirect | CantHaveOtherPropertiesWithRedirect | CantHaveBothIndexAndAutoindex
  | LocationNeedsToStartWithSlash | InvalidErrorPageCode | UnknownKey
  | GetAddrInfo | DuplicateLocationInServer | ConflictingServerNameOnListen

definition ofNode :: "node_exception + 'a \<Rightarrow> config_exception + 'a" where
  "ofNode r = (case r of Inl e \<Rightarrow> Inl (NodeError e) | Inr v \<Rightarrow> Inr v)"

lemma ofNode_Inr_iff [result_iff]: "ofNode r = Inr v \<longleftrightarrow> r = Inr v"
  by (cases r) (auto simp: ofNode_def)

section \<open>Numbers\<close>

definition parseConnectionQueueLength :: "(string \<times> node) list \<Rightarrow> config_exception + nat" where
  "parseConnectionQueueLength root_object =
     (case map_of root_object ''connection_queue_length'' of
        None \<Rightarrow> Inl ExpectedConnectionQueueLength
      | Some n \<Rightarrow>
          bindR (ofNode (getInteger n)) (\<lambda>v.
            if unat v > 2147483647 then Inl ConnectionQueueLengthIsGreaterThanIntMax
            else if unat v < 1 then Inl ConnectionQueueLengthIsLessThanOne
            else Inr (unat v)))"

definition parseClientMaxBodySize :: "(string \<times> node) list \<Rightarrow> config_exception + 64 word" where
  "parseClientMaxBodySize root_object =
     (case map_of root_object ''client_max_body_size'' of
        None \<Rightarrow> Inl ExpectedClientMaxBodySize
      | Some n \<Rightarrow> ofNode (getInteger n))"

definition parsePollTimeoutMs :: "(string \<times> node) list \<Rightarrow> config_exception + nat" where
  "parsePollTimeoutMs root_object =
     (case map_of root_object ''poll_timeout_ms'' of
        None \<Rightarrow> Inl ExpectedPollTimeoutMs
      | Some n \<Rightarrow>
          bindR (ofNode (getInteger n)) (\<lambda>v.
            if unat v < 1 then Inl PollTimeoutMsIsLessThan1
            else if unat v > 10000 then Inl PollTimeoutMsIsGreaterThan10000
            else Inr (unat v)))"

definition parseClientTimeoutMs :: "(string \<times> node) list \<Rightarrow> config_exception + nat" where
  "parseClientTimeoutMs root_object =
     (case map_of root_object ''client_timeout_ms'' of
        None \<Rightarrow> Inl ExpectedClientTimeoutMs
      | Some n \<Rightarrow>
          bindR (ofNode (getInteger n)) (\<lambda>v.
            if unat v < 1 then Inl ClientTimeoutMsIsLessThan1
            else if unat v > 10000 then Inl ClientTimeoutMsIsGreaterThan10000
            else Inr (unat v)))"

section \<open>Servers\<close>

definition parseListen :: "node \<Rightarrow> config_exception + ListenEntry" where
  "parseListen listen_node =
     bindR (ofNode (getString listen_node)) (\<lambda>text.
       case find_str '':'' text of
         None \<Rightarrow> Inl ListenColonIsRequired
       | Some colon_index \<Rightarrow>
           if colon_index = 0 then Inl MissingAddressBeforePortColon
           else if colon_index = length text - 1 then Inl NoPortAfterColon
           else Inr \<lparr>address = substr text 0 colon_index, port = drop (colon_index + 1) text\<rparr>)"

definition locationProperty ::
  "string \<times> node \<Rightarrow> LocationDirective \<Rightarrow> config_exception + LocationDirective" where
  "locationProperty kv d =
     (let key = fst kv; value = snd kv in
      if key = ''cgi_execve_path'' then bindR (ofNode (getString value)) (\<lambda>v. Inr (d\<lparr>cgi_execve_path := v\<rparr>))
      else if key = ''get_allowed'' then bindR (ofNode (getBoolean value)) (\<lambda>v. Inr (d\<lparr>get_allowed := v\<rparr>))
      else if key = ''post_allowed'' then bindR (ofNode (getBoolean value)) (\<lambda>v. Inr (d\<lparr>post_allowed := v\<rparr>))
      else if key = ''delete_allowed'' then bindR (ofNode (getBoolean value)) (\<lambda>v. Inr (d\<lparr>delete_allowed := v\<rparr>))
      else if key = ''autoindex'' then bindR (ofNode (getBoolean value)) (\<lambda>v. Inr (d\<lparr>autoindex := v\<rparr>))
      else if key = ''index'' then bindR (ofNode (getString value)) (\<lambda>v. Inr (d\<lparr>index := v\<rparr>))
      else if key = ''redirect'' then bindR (ofNode (getString value)) (\<lambda>v. Inr (d\<lparr>loc_redirect := v\<rparr>))
      else if key = ''root'' then bindR (ofNode (getString value)) (\<lambda>v. Inr (d\<lparr>loc_root := v\<rparr>))
      else Inl UnknownKey)"

definition empty_location :: LocationDirective where
  "empty_location = \<lparr>uri = [], cgi_execve_path = [], get_allowed = False, post_allowed = False,
     delete_allowed = False, autoindex = False, index = [], loc_redirect = [], loc_root = []\<rparr>"

text \<open>The front of an empty URI is the terminating zero, which is not a slash.\<close>

definition parseLocation :: "string \<times> node \<Rightarrow> config_exception + LocationDirective" where
  "parseLocation location_node =
     bindR (ofNode (getObject (snd location_node))) (\<lambda>location_object.
       if \<not> contains location_object ''root'' \<and> \<not> contains location_object ''redirect''
       then Inl NeedEitherRootOrRedirect
       else if contains location_object ''redirect'' \<and> length location_object > 1
       then Inl CantHaveOtherPropertiesWithRedirect
       else if contains location_object ''index'' \<and> contains location_object ''autoindex''
       then Inl CantHaveBothIndexAndAutoindex
       else if take 1 (fst location_node) \<noteq> ''/'' then Inl LocationNeedsToStartWithSlash
       else foldR locationProperty location_object (empty_location\<lparr>uri := fst location_node\<rparr>))"

definition error_codes :: "nat list" where
  "error_codes = [200, 301, 302, 400, 403, 404, 405, 413, 500]"

definition errorPage ::
  "string \<times> node \<Rightarrow> (nat \<times> string) list \<Rightarrow> config_exception + (nat \<times> string) list" where
  "errorPage kv pages =
     (let (ok, code) = parseNumber (fst kv) (2147483647 :: 32 word) in
      if \<not> ok then Inl InvalidErrorPageCode
      else bindR (ofNode (getString (snd kv))) (\<lambda>page_path.
        if unat code \<notin> set error_codes then Inl InvalidErrorPageCode
        else Inr (if map_of pages (unat code) = None then pages @ [(unat code, page_path)] else pages)))"

definition serverProperty ::
  "(string \<times> node) list \<Rightarrow> string \<times> node \<Rightarrow> ServerDirective \<Rightarrow> config_exception + ServerDirective" where
  "serverProperty server kv d =
     (let key = fst kv; value = snd kv in
      if \<not> contains server ''listen'' then Inl ExpectedListen
      else if \<not> contains server ''server_names'' then Inl ExpectedServerNames
      else if \<not> contains server ''locations'' then Inl ExpectedLocations
      else if \<not> contains server ''error_pages'' then Inl ExpectedErrorPages
      else if key = ''listen'' then
        bindR (ofNode (getArray value)) (\<lambda>nodes.
        bindR (mapR parseListen nodes) (\<lambda>es. Inr (d\<lparr>listen := listen d @ es\<rparr>)))
      else if key = ''server_names'' then
        bindR (ofNode (getArray value)) (\<lambda>nodes.
        bindR (mapR (\<lambda>n. bindR (ofNode (getString n)) (\<lambda>s. Inr (upper s))) nodes) (\<lambda>ns.
          Inr (d\<lparr>server_names := server_names d @ ns\<rparr>)))
      else if key = ''locations'' then
        bindR (ofNode (getObject value)) (\<lambda>nodes.
        bindR (mapR parseLocation nodes) (\<lambda>ls. Inr (d\<lparr>locations := locations d @ ls\<rparr>)))
      else if key = ''error_pages'' then
        bindR (ofNode (getObject value)) (\<lambda>nodes.
        bindR (foldR errorPage nodes (error_pages d)) (\<lambda>ps. Inr (d\<lparr>error_pages := ps\<rparr>)))
      else Inl UnknownKey)"

definition empty_server :: ServerDirective where
  "empty_server = \<lparr>listen = [], server_names = [], locations = [], error_pages = []\<rparr>"

definition parseServer :: "node \<Rightarrow> config_exception + ServerDirective" where
  "parseServer server_it =
     bindR (ofNode (getObject server_it)) (\<lambda>server. foldR (serverProperty server) server empty_server)"

section \<open>Addresses\<close>

text \<open>\<open>m[k]\<close> of an ordered map, which creates a missing entry, and an update of that entry.\<close>

definition update_at :: "'k::linorder \<Rightarrow> 'v \<Rightarrow> ('v \<Rightarrow> 'v) \<Rightarrow> ('k \<times> 'v) list \<Rightarrow> ('k \<times> 'v) list" where
  "update_at k d f m =
     (if contains m k then map (\<lambda>kv. if fst kv = k then (k, f (snd kv)) else kv) m else emplace k (f d) m)"

definition values_at :: "('k \<times> 'v list) list \<Rightarrow> 'k \<Rightarrow> 'v list" where
  "values_at m k = (case map_of m k of None \<Rightarrow> [] | Some vs \<Rightarrow> vs)"

type_synonym names = "(BindInfo \<times> string list) list"

definition addName :: "BindInfo \<Rightarrow> string \<Rightarrow> names \<Rightarrow> config_exception + names" where
  "addName b server_name names =
     (if server_name \<in> set (values_at names b) then Inl ConflictingServerNameOnListen
      else Inr (update_at b [] (\<lambda>ns. ns @ [server_name]) names))"

definition bindListen ::
  "(string \<Rightarrow> string \<Rightarrow> BindInfo option) \<Rightarrow> nat \<Rightarrow> ServerDirective \<Rightarrow> ListenEntry \<Rightarrow>
     BindInfo list \<times> (BindInfo \<times> nat list) list \<times> names \<Rightarrow>
     config_exception + BindInfo list \<times> (BindInfo \<times> nat list) list \<times> names" where
  "bindListen resolve server_index server entry st =
     (case st of (seen, bindings, names) \<Rightarrow>
       case resolve (address entry) (port entry) of
         None \<Rightarrow> Inl GetAddrInfo
       | Some b \<Rightarrow>
           if b \<in> set seen then Inl DuplicateLocationInServer
           else bindR (foldR (addName b) (server_names server) names) (\<lambda>names.
             Inr (b # seen, update_at b [] (\<lambda>is. is @ [server_index]) bindings, names)))"

definition bindServer ::
  "(string \<Rightarrow> string \<Rightarrow> BindInfo option) \<Rightarrow> nat \<times> ServerDirective \<Rightarrow> (BindInfo \<times> nat list) list \<times> names \<Rightarrow>
     config_exception + (BindInfo \<times> nat list) list \<times> names" where
  "bindServer resolve iserver st =
     bindR (foldR (bindListen resolve (fst iserver) (snd iserver)) (listen (snd iserver)) ([], st)) (\<lambda>r. Inr (snd r))"

definition fillBindInfoToServerIndices ::
  "(string \<Rightarrow> string \<Rightarrow> BindInfo option) \<Rightarrow> ServerDirective list \<Rightarrow>
     config_exception + (BindInfo \<times> nat list) list \<times> names" where
  "fillBindInfoToServerIndices resolve ss = foldR (bindServer resolve) (enumerate 0 ss) ([], [])"

section \<open>The configuration\<close>

definition Config :: "(string \<Rightarrow> string \<Rightarrow> BindInfo option) \<Rightarrow> node \<Rightarrow> config_exception + config" where
  "Config resolve root =
     bindR (ofNode (getObject root)) (\<lambda>root_object.
     bindR (parseConnectionQueueLength root_object) (\<lambda>queue.
     bindR (parseClientMaxBodySize root_object) (\<lambda>body_size.
     bindR (parsePollTimeoutMs root_object) (\<lambda>poll_ms.
     bindR (parseClientTimeoutMs root_object) (\<lambda>client_ms.
       case map_of root_object ''servers'' of
         None \<Rightarrow> Inl ExpectedServers
       | Some n \<Rightarrow>
           bindR (ofNode (getArray n)) (\<lambda>nodes.
           bindR (mapR parseServer nodes) (\<lambda>ss.
           bindR (fillBindInfoToServerIndices resolve ss) (\<lambda>r.
             Inr \<lparr>connection_queue_length = queue, max_body_size = body_size, poll_timeout_ms = poll_ms,
                  client_timeout_ms = client_ms, servers = ss, bind_info_to_server_indices = fst r\<rparr>))))))))"

section \<open>The shape of an accepted configuration\<close>

definition listen_wf :: "ListenEntry \<Rightarrow> bool" where
  "listen_wf e \<longleftrightarrow> address e \<noteq> [] \<and> CHR '':'' \<notin> set (address e) \<and> port e \<noteq> []"

text \<open>A location has no two ways to answer for a directory, and a redirection nothing but its target.\<close>

definition location_wf :: "LocationDirective \<Rightarrow> bool" where
  "location_wf d \<longleftrightarrow>
     take 1 (uri d) = ''/'' \<and> \<not> (autoindex d \<and> index d \<noteq> []) \<and>
     (loc_redirect d \<noteq> [] \<longrightarrow> d = empty_location\<lparr>uri := uri d, loc_redirect := loc_redirect d\<rparr>)"

definition server_wf :: "ServerDirective \<Rightarrow> bool" where
  "server_wf d \<longleftrightarrow>
     (\<forall>e \<in> set (listen d). listen_wf e) \<and> (\<forall>n \<in> set (server_names d). upper n = n) \<and>
     (\<forall>l \<in> set (locations d). location_wf l) \<and> (\<forall>p \<in> set (error_pages d). fst p \<in> set error_codes)"

definition config_wf :: "config \<Rightarrow> bool" where
  "config_wf cfg \<longleftrightarrow>
     1 \<le> connection_queue_length cfg \<and> connection_queue_length cfg \<le> 2147483647 \<and>
     1 \<le> poll_timeout_ms cfg \<and> poll_timeout_ms cfg \<le> 10000 \<and>
     1 \<le> client_timeout_ms cfg \<and> client_timeout_ms cfg \<le> 10000 \<and>
     (\<forall>d \<in> set (servers cfg). server_wf d)"

lemma parseListen_wf: "parseListen n = Inr e \<Longrightarrow> listen_wf e"
proof -
  assume "parseListen n = Inr e"
  then obtain s i where s: "find_str '':'' s = Some i" "i \<noteq> 0" "i \<noteq> length s - 1"
    "e = \<lparr>address = substr s 0 i, port = drop (i + 1) s\<rparr>"
    by (auto simp: parseListen_def result_iff split: option.splits if_splits)
  from find_str_Some_split [OF s(1)] have "CHR '':'' \<notin> set (take i s)" "i < length s"
    using s(1) find_str_bound [OF s(1)]
    by (auto simp: find_str_single find_first_of_Some_iff in_set_conv_nth)
  with s show ?thesis by (auto simp: listen_wf_def substr_def)
qed

text \<open>What the properties of a location leave alone.\<close>

lemma locationProperty_frame:
  assumes "locationProperty kv d = Inr d'"
  shows "uri d' = uri d" "fst kv \<noteq> ''autoindex'' \<Longrightarrow> autoindex d' = autoindex d"
    "fst kv \<noteq> ''index'' \<Longrightarrow> index d' = index d" "fst kv \<noteq> ''redirect'' \<Longrightarrow> loc_redirect d' = loc_redirect d"
    "fst kv = ''redirect'' \<Longrightarrow> d' = d\<lparr>loc_redirect := loc_redirect d'\<rparr>"
  using assms by (auto simp: locationProperty_def Let_def result_iff split: if_splits)

lemma foldR_keep:
  assumes "foldR f xs s = Inr s'" "\<And>x s s'. x \<in> set xs \<Longrightarrow> f x s = Inr s' \<Longrightarrow> g s' = g s"
  shows "g s' = g s"
  by (rule foldR_invariant [OF assms(1), of "\<lambda>t. g t = g s"]) (simp_all add: assms(2))

lemma mapR_all: "mapR f xs = Inr ys \<Longrightarrow> (\<And>x y. f x = Inr y \<Longrightarrow> P y) \<Longrightarrow> \<forall>y \<in> set ys. P y"
  by (induction xs arbitrary: ys) (auto simp: result_iff list_all2_Cons1)

lemma not_contains_fst: "\<not> contains m k \<Longrightarrow> kv \<in> set m \<Longrightarrow> fst kv \<noteq> k"
  by (auto simp: contains_iff)

lemma locationProperties_frame:
  assumes "foldR locationProperty obj d = Inr d'"
  shows "uri d' = uri d" "\<not> contains obj ''autoindex'' \<Longrightarrow> autoindex d' = autoindex d"
    "\<not> contains obj ''index'' \<Longrightarrow> index d' = index d"
    "\<not> contains obj ''redirect'' \<Longrightarrow> loc_redirect d' = loc_redirect d"
proof -
  show "uri d' = uri d" by (rule foldR_keep [OF assms]) (rule locationProperty_frame(1))
  show "autoindex d' = autoindex d" if "\<not> contains obj ''autoindex''"
    by (rule foldR_keep [OF assms]) (rule locationProperty_frame(2), assumption, rule not_contains_fst [OF that])
  show "index d' = index d" if "\<not> contains obj ''index''"
    by (rule foldR_keep [OF assms]) (rule locationProperty_frame(3), assumption, rule not_contains_fst [OF that])
  show "loc_redirect d' = loc_redirect d" if "\<not> contains obj ''redirect''"
    by (rule foldR_keep [OF assms]) (rule locationProperty_frame(4), assumption, rule not_contains_fst [OF that])
qed

lemma parseLocation_wf:
  assumes "parseLocation n = Inr d"
  shows "location_wf d"
proof -
  from assms obtain obj where obj: "take 1 (fst n) = ''/''"
    "\<not> (contains obj ''redirect'' \<and> length obj > 1)" "\<not> (contains obj ''index'' \<and> contains obj ''autoindex'')"
    "foldR locationProperty obj (empty_location\<lparr>uri := fst n\<rparr>) = Inr d"
    by (auto simp: parseLocation_def result_iff split: if_splits)
  note frame = locationProperties_frame [OF obj(4)]
  have "d = empty_location\<lparr>uri := uri d, loc_redirect := loc_redirect d\<rparr>" if "loc_redirect d \<noteq> []"
  proof -
    have "contains obj ''redirect''" using frame(4) that by (auto simp: empty_location_def)
    with obj(2) obtain kv where "obj = [kv]" "fst kv = ''redirect''"
      by (cases obj) (auto simp: contains_iff)
    with obj(4) have "locationProperty kv (empty_location\<lparr>uri := fst n\<rparr>) = Inr d" "fst kv = ''redirect''"
      by (simp_all add: result_iff)
    from locationProperty_frame(5) [OF this] frame(1) show ?thesis by simp
  qed
  moreover have "\<not> (autoindex d \<and> index d \<noteq> [])" using frame(2,3) obj(3) by (auto simp: empty_location_def)
  ultimately show ?thesis using frame(1) obj(1) by (simp add: location_wf_def)
qed

lemma errorPages_wf:
  assumes "foldR errorPage nodes ps = Inr ps'" "\<forall>p \<in> set ps. fst p \<in> set error_codes"
  shows "\<forall>p \<in> set ps'. fst p \<in> set error_codes"
  by (rule foldR_invariant [OF assms(1), of "\<lambda>ps. \<forall>p \<in> set ps. fst p \<in> set error_codes"])
    (use assms(2) in \<open>auto simp: errorPage_def result_iff split: prod.splits if_splits\<close>)

lemma serverProperty_cases:
  assumes "serverProperty server kv d = Inr d'"
  obtains nodes es where "mapR parseListen nodes = Inr es" "d' = d\<lparr>listen := listen d @ es\<rparr>"
  | nodes ns where "mapR (\<lambda>n. bindR (ofNode (getString n)) (\<lambda>s. Inr (upper s))) nodes = Inr ns"
      "d' = d\<lparr>server_names := server_names d @ ns\<rparr>"
  | nodes ls where "mapR parseLocation nodes = Inr ls" "d' = d\<lparr>locations := locations d @ ls\<rparr>"
  | nodes ps where "foldR errorPage nodes (error_pages d) = Inr ps" "d' = d\<lparr>error_pages := ps\<rparr>"
  using assms unfolding serverProperty_def Let_def
  by (auto simp: bindR_Inr_iff split: if_splits)

lemma serverProperty_wf:
  assumes "serverProperty server kv d = Inr d'" "server_wf d"
  shows "server_wf d'"
  using assms(1)
proof (cases rule: serverProperty_cases)
  case (1 nodes es)
  with mapR_all [OF 1(1), of listen_wf] parseListen_wf assms(2) show ?thesis by (auto simp: server_wf_def)
next
  case (2 nodes ns)
  have "\<forall>n \<in> set ns. upper n = n" by (rule mapR_all [OF 2(1)]) (auto simp: bindR_Inr_iff upper_idem)
  with 2 assms(2) show ?thesis by (auto simp: server_wf_def)
next
  case (3 nodes ls)
  with mapR_all [OF 3(1), of location_wf] parseLocation_wf assms(2) show ?thesis by (auto simp: server_wf_def)
next
  case (4 nodes ps)
  with errorPages_wf [OF 4(1)] assms(2) show ?thesis by (auto simp: server_wf_def)
qed

lemma parseServer_wf: "parseServer n = Inr d \<Longrightarrow> server_wf d"
proof -
  assume "parseServer n = Inr d"
  then obtain server where "foldR (serverProperty server) server empty_server = Inr d"
    by (auto simp: parseServer_def result_iff)
  then show ?thesis
    by (rule foldR_invariant [where P = server_wf]) (simp_all add: serverProperty_wf, simp add: server_wf_def empty_server_def)
qed

section \<open>The servers behind an address\<close>

lemma map_of_update_at:
  "map_of (update_at k d f m) = (map_of m)(k \<mapsto> f (case map_of m k of None \<Rightarrow> d | Some v \<Rightarrow> v))"
proof (cases "contains m k")
  case True
  have "map_of (map (\<lambda>kv. if fst kv = k then (k, f (snd kv)) else kv) m) k' =
      (if k' = k then map_option f (map_of m k) else map_of m k')" for k'
    by (induction m) auto
  with True show ?thesis by (auto simp: update_at_def contains_def fun_eq_iff)
next
  case False
  then show ?thesis by (simp add: update_at_def map_of_emplace contains_def)
qed

lemma values_at_update:
  "values_at (update_at b [] (\<lambda>vs. vs @ [v]) m) b' = (if b' = b then values_at m b @ [v] else values_at m b')"
  by (auto simp: values_at_def map_of_update_at split: option.splits)

lemma addNames_effect:
  "foldR (addName b) ns nm = Inr nm' \<Longrightarrow>
     distinct ns \<and> set ns \<inter> set (values_at nm b) = {} \<and>
     (\<forall>b'. values_at nm' b' = (if b' = b then values_at nm b @ ns else values_at nm b'))"
proof (induction ns arbitrary: nm)
  case (Cons n ns)
  then obtain nm1 where step: "addName b n nm = Inr nm1" and rest: "foldR (addName b) ns nm1 = Inr nm'"
    by (auto simp: bindR_Inr_iff)
  from step have nm1: "n \<notin> set (values_at nm b)" "nm1 = update_at b [] (\<lambda>ns. ns @ [n]) nm"
    by (auto simp: addName_def split: if_splits)
  from Cons.IH [OF rest] nm1(1) show ?case by (auto simp: nm1(2) values_at_update)
qed simp

definition bound_at :: "(string \<Rightarrow> string \<Rightarrow> BindInfo option) \<Rightarrow> ListenEntry list \<Rightarrow> BindInfo set" where
  "bound_at resolve es = {b. \<exists>e \<in> set es. resolve (address e) (port e) = Some b}"

lemma bindListens_effect:
  "foldR (bindListen resolve i srv) es (seen, bd, nm) = Inr (seen', bd', nm') \<Longrightarrow>
     (\<forall>e \<in> set es. resolve (address e) (port e) \<noteq> None) \<and> bound_at resolve es \<inter> set seen = {} \<and>
     (\<forall>b. values_at bd' b = (if b \<in> bound_at resolve es then values_at bd b @ [i] else values_at bd b)) \<and>
     (\<forall>b. values_at nm' b = (if b \<in> bound_at resolve es then values_at nm b @ server_names srv else values_at nm b)) \<and>
     (\<forall>b \<in> bound_at resolve es. distinct (server_names srv) \<and> set (server_names srv) \<inter> set (values_at nm b) = {})"
proof (induction es arbitrary: seen bd nm)
  case Nil
  then show ?case by (simp add: bound_at_def)
next
  case (Cons e es)
  from Cons.prems obtain st where st: "bindListen resolve i srv e (seen, bd, nm) = Inr st"
    "foldR (bindListen resolve i srv) es st = Inr (seen', bd', nm')"
    by (auto simp: bindR_Inr_iff)
  from st(1) obtain b nm1 where b: "resolve (address e) (port e) = Some b" "b \<notin> set seen"
    "foldR (addName b) (server_names srv) nm = Inr nm1"
    and st': "st = (b # seen, update_at b [] (\<lambda>is. is @ [i]) bd, nm1)"
    by (auto simp: bindListen_def bindR_Inr_iff split: option.splits if_splits)
  note IH = Cons.IH [OF st(2) [unfolded st']]
  note names = addNames_effect [OF b(3)]
  have B: "bound_at resolve (e # es) = insert b (bound_at resolve es)" using b(1) by (auto simp: bound_at_def)
  have new: "b \<notin> bound_at resolve es" using IH by auto
  show ?case
  proof (intro conjI)
    show "\<forall>e' \<in> set (e # es). resolve (address e') (port e') \<noteq> None" using IH b(1) by simp
    show "bound_at resolve (e # es) \<inter> set seen = {}" using IH b(2) by (auto simp: B)
    show "\<forall>b'. values_at bd' b' = (if b' \<in> bound_at resolve (e # es) then values_at bd b' @ [i] else values_at bd b')"
      using IH new by (auto simp: B values_at_update)
    show "\<forall>b'. values_at nm' b' =
        (if b' \<in> bound_at resolve (e # es) then values_at nm b' @ server_names srv else values_at nm b')"
      using IH names new by (auto simp: B)
    show "\<forall>b' \<in> bound_at resolve (e # es).
        distinct (server_names srv) \<and> set (server_names srv) \<inter> set (values_at nm b') = {}"
    proof
      fix b'
      assume "b' \<in> bound_at resolve (e # es)"
      then consider "b' = b" | "b' \<noteq> b" "b' \<in> bound_at resolve es" using B by auto
      then show "distinct (server_names srv) \<and> set (server_names srv) \<inter> set (values_at nm b') = {}"
      proof cases
        case 1
        with names show ?thesis by simp
      next
        case 2
        from 2(1) names have "values_at nm1 b' = values_at nm b'" by metis
        with IH 2(2) show ?thesis by metis
      qed
    qed
  qed
qed

text \<open>
  The map that the constructor fills: the servers behind an address are those with a \<open>listen\<close>
  entry that resolves to it, in the order of the configuration, and all their names are different.
\<close>

lemma fillBind_spec:
  "fillBindInfoToServerIndices resolve ss = Inr (bd, nm) \<Longrightarrow>
     (\<forall>srv \<in> set ss. \<forall>e \<in> set (listen srv). resolve (address e) (port e) \<noteq> None) \<and>
     (\<forall>b. values_at bd b = filter (\<lambda>i. b \<in> bound_at resolve (listen (ss ! i))) [0..<length ss]) \<and>
     (\<forall>b. values_at nm b = concat (map (\<lambda>i. server_names (ss ! i)) (values_at bd b))) \<and>
     (\<forall>b. distinct (values_at nm b))"
  supply split_paired_All [simp del] split_paired_Ex [simp del]
proof (induction ss arbitrary: bd nm rule: rev_induct)
  case Nil
  then show ?case by (simp add: fillBindInfoToServerIndices_def values_at_def)
next
  case (snoc srv ss)
  from snoc.prems obtain bd0 nm0 where
    0: "fillBindInfoToServerIndices resolve ss = Inr (bd0, nm0)" "bindServer resolve (length ss, srv) (bd0, nm0) = Inr (bd, nm)"
    by (auto simp: fillBindInfoToServerIndices_def enumerate_append_eq foldR_append bindR_Inr_iff)
  from 0(2) obtain seen where "foldR (bindListen resolve (length ss) srv) (listen srv) ([], bd0, nm0) = Inr (seen, bd, nm)"
    by (auto simp: bindServer_def bindR_Inr_iff)
  note new = bindListens_effect [OF this]
  note IH = snoc.IH [OF 0(1)]
  have old: "filter (\<lambda>i. b \<in> bound_at resolve (listen ((ss @ [srv]) ! i))) [0..<length ss] = values_at bd0 b" for b
  proof -
    have "values_at bd0 b = filter (\<lambda>i. b \<in> bound_at resolve (listen (ss ! i))) [0..<length ss]" using IH by blast
    moreover have "filter (\<lambda>i. b \<in> bound_at resolve (listen ((ss @ [srv]) ! i))) [0..<length ss] =
        filter (\<lambda>i. b \<in> bound_at resolve (listen (ss ! i))) [0..<length ss]"
      by (rule filter_cong [OF refl]) (simp add: nth_append)
    ultimately show ?thesis by simp
  qed
  have bd: "values_at bd b = filter (\<lambda>i. b \<in> bound_at resolve (listen ((ss @ [srv]) ! i))) [0..<length (ss @ [srv])]" for b
    using new old [of b] by simp
  have idx: "i < length ss" if "i \<in> set (values_at bd0 b)" for i b using that IH by auto
  then have names0: "map (\<lambda>i. server_names ((ss @ [srv]) ! i)) (values_at bd0 b) = map (\<lambda>i. server_names (ss ! i)) (values_at bd0 b)" for b
    by (auto simp: nth_append)
  have nm: "values_at nm b = concat (map (\<lambda>i. server_names ((ss @ [srv]) ! i)) (values_at bd b))" for b
  proof -
    let ?F = "\<lambda>i. server_names ((ss @ [srv]) ! i)"
    have "values_at nm0 b = concat (map ?F (values_at bd0 b))" using IH arg_cong [OF names0 [of b], of concat] by metis
    moreover have "?F (length ss) = server_names srv" by simp
    ultimately show ?thesis using new by (cases "b \<in> bound_at resolve (listen srv)") simp_all
  qed
  have "distinct (values_at nm b)" for b
  proof (cases "b \<in> bound_at resolve (listen srv)")
    case True
    then have "distinct (server_names srv)" "set (server_names srv) \<inter> set (values_at nm0 b) = {}"
      "values_at nm b = values_at nm0 b @ server_names srv" using new by auto
    moreover have "distinct (values_at nm0 b)" using IH by blast
    ultimately show ?thesis by auto
  next
    case False
    then have "values_at nm b = values_at nm0 b" using new by metis
    moreover have "distinct (values_at nm0 b)" using IH by blast
    ultimately show ?thesis by (simp only:)
  qed
  moreover have "\<forall>s \<in> set (ss @ [srv]). \<forall>e \<in> set (listen s). resolve (address e) (port e) \<noteq> None"
    using IH new by auto
  ultimately show ?case using bd nm by blast
qed

lemma names_distinguish:
  assumes "distinct (concat (map f is))" "i \<in> set is" "j \<in> set is" "n \<in> set (f i)" "n \<in> set (f j)" "distinct is"
  shows "i = j"
  using assms by (induction "is") auto

definition bindings_ok :: "(string \<Rightarrow> string \<Rightarrow> BindInfo option) \<Rightarrow> config \<Rightarrow> bool" where
  "bindings_ok resolve cfg \<longleftrightarrow>
     (let at = values_at (bind_info_to_server_indices cfg) in
      (\<forall>b. at b = filter (\<lambda>i. b \<in> bound_at resolve (listen (servers cfg ! i))) [0..<length (servers cfg)]) \<and>
      (\<forall>b i j n. i \<in> set (at b) \<longrightarrow> j \<in> set (at b) \<longrightarrow> n \<in> set (server_names (servers cfg ! i)) \<longrightarrow>
         n \<in> set (server_names (servers cfg ! j)) \<longrightarrow> i = j))"

lemma Config_bindings: "Config resolve root = Inr cfg \<Longrightarrow> bindings_ok resolve cfg"
proof -
  assume "Config resolve root = Inr cfg"
  then obtain r where "fillBindInfoToServerIndices resolve (servers cfg) = Inr r"
    and bd: "bind_info_to_server_indices cfg = fst r"
    by (auto simp: Config_def bindR_Inr_iff split: option.splits)
  then have "fillBindInfoToServerIndices resolve (servers cfg) = Inr (fst r, snd r)" by simp
  note spec = fillBind_spec [OF this]
  have "i = j" if "i \<in> set (values_at (fst r) b)" "j \<in> set (values_at (fst r) b)"
    "n \<in> set (server_names (servers cfg ! i))" "n \<in> set (server_names (servers cfg ! j))" for b i j n
  proof (rule names_distinguish [where f = "\<lambda>i. server_names (servers cfg ! i)", OF _ that])
    show "distinct (concat (map (\<lambda>i. server_names (servers cfg ! i)) (values_at (fst r) b)))" using spec by metis
    show "distinct (values_at (fst r) b)" using spec by (metis distinct_filter distinct_upt)
  qed
  with spec bd show ?thesis by (auto simp: bindings_ok_def Let_def)
qed

lemma Config_shape: "Config resolve root = Inr cfg \<Longrightarrow> config_wf cfg"
proof -
  assume "Config resolve root = Inr cfg"
  then obtain obj nodes where
    "parseConnectionQueueLength obj = Inr (connection_queue_length cfg)"
    "parsePollTimeoutMs obj = Inr (poll_timeout_ms cfg)" "parseClientTimeoutMs obj = Inr (client_timeout_ms cfg)"
    "mapR parseServer nodes = Inr (servers cfg)"
    by (auto simp: Config_def bindR_Inr_iff split: option.splits)
  then show ?thesis
    using mapR_all [of parseServer nodes "servers cfg" server_wf] parseServer_wf
    by (auto simp: config_wf_def parseConnectionQueueLength_def parsePollTimeoutMs_def parseClientTimeoutMs_def
        bindR_Inr_iff split: option.splits if_splits)
qed

text \<open>A small configuration, of one server that listens on one address.\<close>

definition sample_root :: node where
  "sample_root = NObject
     [(''client_max_body_size'', NInteger 1000), (''client_timeout_ms'', NInteger 500),
      (''connection_queue_length'', NInteger 10), (''poll_timeout_ms'', NInteger 100),
      (''servers'', NArray [NObject
        [(''error_pages'', NObject [(''404'', NString ''404.html'')]),
         (''listen'', NArray [NString ''127.0.0.1:8080'']),
         (''locations'', NObject [(''/'', NObject [(''root'', NString ''public''), (''autoindex'', NBoolean True)])]),
         (''server_names'', NArray [NString ''localhost''])]])]"

lemma sample_upper: "upper ''localhost'' = ''LOCALHOST''" by code_simp

lemma sample_config:
  "Config (\<lambda>_ _. Some (0x0100007F, 0x901F)) sample_root = Inr
     \<lparr>connection_queue_length = 10, max_body_size = 1000, poll_timeout_ms = 100, client_timeout_ms = 500,
      servers = [\<lparr>listen = [\<lparr>address = ''127.0.0.1'', port = ''8080''\<rparr>], server_names = [''LOCALHOST''],
        locations = [empty_location\<lparr>uri := ''/'', loc_root := ''public'', autoindex := True\<rparr>],
        error_pages = [(404, ''404.html'')]\<rparr>],
      bind_info_to_server_indices = [((0x0100007F, 0x901F), [0])]\<rparr>"
  by (simp add: sample_root_def Config_def parseConnectionQueueLength_def parseClientMaxBodySize_def
      parsePollTimeoutMs_def parseClientTimeoutMs_def ofNode_def parseServer_def serverProperty_def contains_def
      empty_server_def parseListen_def substr_def parseLocation_def locationProperty_def empty_location_def
      errorPage_def parseNumber_def is_digit_def error_codes_def sample_upper Let_def
      fillBindInfoToServerIndices_def bindServer_def bindListen_def addName_def values_at_def update_at_def)

text \<open>
  C5: every configuration that the constructor accepts is well formed: its numbers are within the
  bounds that the system calls and the clock need, every location starts with a slash, does not ask
  for both an index file and a listing, and has nothing else when it redirects, every error page
  belongs to a status that the server can answer with, and every address leads to exactly the
  servers that listen on it, in the order of the file, no two of which share a name.
\<close>

theorem Config_accepted:
  assumes "Config resolve root = Inr cfg"
  shows "config_wf cfg \<and> bindings_ok resolve cfg"
  using Config_shape [OF assms] Config_bindings [OF assms] by simp

theorem Config_accepted_witness:
  "let resolve = (\<lambda>_ _. Some (0x0100007F, 0x901F)); cfg = projr (Config resolve sample_root) in
   config_wf cfg \<and> bindings_ok resolve cfg"
proof -
  let ?r = "\<lambda>_ _. Some (0x0100007F, 0x901F) :: BindInfo option"
  have "Config ?r sample_root = Inr (projr (Config ?r sample_root))" by (simp add: sample_config)
  from Config_accepted [OF this] show ?thesis by simp
qed

end
