(* ===== verification/Server_Route.thy ===== *)
theory Server_Route
  imports Config Client_Response
begin

text \<open>
  The choice of a server by its name and of a location by the request target,
  \<open>_getServerIndexFromClientServerName\<close>, \<open>_resolveToLocation\<close> and \<open>_isAllowedMethod\<close> of
  \<open>src/src/Server.cpp\<close>. \<open>std::filesystem::weakly_canonical\<close> is a component of the file system. The
  lemmas show that the location with the longest matching URI answers, how the path of a CGI
  script is separated from what follows it, and, with the theorem on configurations, that the
  name of a request leads to at most one server.
\<close>

section \<open>Locations\<close>

record ResolvedLocation =
  resolved :: bool
  is_cgi_directory :: bool
  execve_path :: string
  path_info :: string
  query_string :: string
  has_index :: bool
  lists_directory :: bool
  has_redirect :: bool
  path :: string
  index_path :: string
  index_directive :: string
  allows_get :: bool
  allows_post :: bool
  allows_delete :: bool

definition unresolved :: ResolvedLocation where
  "unresolved = \<lparr>resolved = False, is_cgi_directory = False, execve_path = [], path_info = [], query_string = [],
     has_index = False, lists_directory = False, has_redirect = False, path = [], index_path = [],
     index_directive = [], allows_get = False, allows_post = False, allows_delete = False\<rparr>"

text \<open>\<open>s.back() == c\<close>; the code asks it of a non-empty string.\<close>

definition ends_with :: "string \<Rightarrow> char \<Rightarrow> bool" where
  "ends_with s c \<longleftrightarrow> s \<noteq> [] \<and> last s = c"

text \<open>The two nested loops that look for the end of the script's path.\<close>

function skipSegment :: "string \<Rightarrow> nat \<Rightarrow> nat" where
  "skipSegment s i =
     (if i < length s \<and> s ! i \<noteq> CHR ''/'' \<and> s ! i \<noteq> CHR ''?'' then skipSegment s (i + 1) else i)"
  by pat_completeness auto
termination by (relation "measure (\<lambda>(s, i). length s - i)") auto

declare skipSegment.simps [simp del]

lemma skipSegment_bounds: "i \<le> skipSegment s i" "i \<le> length s \<Longrightarrow> skipSegment s i \<le> length s"
  by (induction s i rule: skipSegment.induct; subst skipSegment.simps; auto)+

function cgiPath :: "filesystem \<Rightarrow> string \<Rightarrow> nat \<Rightarrow> string \<times> bool \<Rightarrow> string \<times> bool" where
  "cgiPath fs s i st =
     (if i < length s then
        let e = skipSegment s i; p = take e s; is_dir = is_directory fs p
        in if \<not> is_dir \<or> e \<ge> length s \<or> s ! e = CHR ''?'' then (p, is_dir)
           else cgiPath fs s (e + 1) (p, is_dir)
      else st)"
  by pat_completeness auto
termination
  by (relation "measure (\<lambda>(fs, s, i, st). length s - i)")
    (auto simp: less_Suc_eq_le skipSegment_bounds intro!: diff_less_mono2)

declare cgiPath.simps [simp del]

definition resolveCGI :: "filesystem \<Rightarrow> string \<Rightarrow> ResolvedLocation \<Rightarrow> ResolvedLocation" where
  "resolveCGI fs unsplit_path r =
     (let (p, target_is_directory) = cgiPath fs unsplit_path 0 ([], True) in
      if target_is_directory then
        r\<lparr>path := (if \<not> ends_with p (CHR ''/'') \<and> ends_with unsplit_path (CHR ''/'') then p @ ''/'' else p)\<rparr>
      else
        let path_len = length p;
            info = (case find_str_from ''?'' unsplit_path path_len of
                      None \<Rightarrow> drop path_len unsplit_path
                    | Some q \<Rightarrow> substr unsplit_path path_len (q - path_len));
            query = drop (path_len + length info) unsplit_path
        in r\<lparr>path := canonical fs p, path_info := canonical fs info, query_string := query\<rparr>)"

definition resolveLocation :: "filesystem \<Rightarrow> string \<Rightarrow> LocationDirective \<Rightarrow> ResolvedLocation" where
  "resolveLocation fs request_target' location =
     (let r = \<lparr>resolved = True, is_cgi_directory = cgi_execve_path location \<noteq> [],
               execve_path = cgi_execve_path location, path_info = [], query_string = [],
               has_index = index location \<noteq> [], lists_directory = autoindex location,
               has_redirect = loc_redirect location \<noteq> [],
               path = loc_root location @ canonical fs request_target', index_path = [], index_directive = [],
               allows_get = get_allowed location, allows_post = post_allowed location,
               allows_delete = delete_allowed location\<rparr>
      in if has_redirect r then r\<lparr>path := loc_redirect location\<rparr>
         else if is_cgi_directory r then
           resolveCGI fs (loc_root location @ request_target') (r\<lparr>path := []\<rparr>)
         else if has_index r then
           r\<lparr>index_path := path r @ (if take 1 (index location) = ''/'' then drop 1 (index location) else index location),
             index_directive := index location\<rparr>
         else r)"

definition resolveStep ::
  "filesystem \<Rightarrow> string \<Rightarrow> LocationDirective \<Rightarrow> ResolvedLocation \<times> nat \<Rightarrow> ResolvedLocation \<times> nat" where
  "resolveStep fs request_target' location st =
     (if startsWith request_target' (uri location) \<and> length (uri location) > snd st
      then (resolveLocation fs request_target' location, length (uri location))
      else st)"

definition resolveToLocation :: "filesystem \<Rightarrow> string \<Rightarrow> LocationDirective list \<Rightarrow> ResolvedLocation" where
  "resolveToLocation fs request_target' ls = fst (fold (resolveStep fs request_target') ls (unresolved, 0))"

definition isAllowedMethod :: "ResolvedLocation \<Rightarrow> RequestMethod \<Rightarrow> bool" where
  "isAllowedMethod location m \<longleftrightarrow>
     (m = GET \<and> allows_get location) \<or> (m = POST \<and> allows_post location) \<or> (m = DELETE \<and> allows_delete location)"

section \<open>Servers\<close>

text \<open>\<open>None\<close> is the exception of \<open>at\<close>.\<close>

definition getServerIndex :: "ServerDirective list \<Rightarrow> nat list \<Rightarrow> string \<Rightarrow> nat option" where
  "getServerIndex ss server_indices name =
     (case find (\<lambda>i. name \<in> set (server_names (ss ! i))) server_indices of
        Some i \<Rightarrow> Some i
      | None \<Rightarrow> (case server_indices of [] \<Rightarrow> None | i # _ \<Rightarrow> Some i))"

section \<open>The longest match answers\<close>

definition matches :: "string \<Rightarrow> LocationDirective \<Rightarrow> bool" where
  "matches target l \<longleftrightarrow> uri l \<noteq> [] \<and> startsWith target (uri l)"

text \<open>The state of the loop: nothing matched yet, or the first of the longest matches so far.\<close>

definition best :: "string \<Rightarrow> LocationDirective list \<Rightarrow> LocationDirective \<Rightarrow> bool" where
  "best target ls l \<longleftrightarrow>
     l \<in> set ls \<and> matches target l \<and> (\<forall>l' \<in> set ls. matches target l' \<longrightarrow> length (uri l') \<le> length (uri l))"

lemma resolve_fold:
  "(\<forall>l \<in> set ls. \<not> matches target l) \<and> fold (resolveStep fs target) ls (unresolved, 0) = (unresolved, 0) \<or>
   (\<exists>l. best target ls l \<and>
      fold (resolveStep fs target) ls (unresolved, 0) = (resolveLocation fs target l, length (uri l)))"
proof (induction ls rule: rev_induct)
  case (snoc x ls)
  let ?st = "fold (resolveStep fs target) ls (unresolved, 0)"
  have step: "fold (resolveStep fs target) (ls @ [x]) (unresolved, 0) = resolveStep fs target x ?st" by simp
  from snoc show ?case
  proof (elim disjE exE conjE)
    assume none: "\<forall>l \<in> set ls. \<not> matches target l" and st: "?st = (unresolved, 0)"
    show ?thesis
    proof (cases "matches target x")
      case True
      then have "resolveStep fs target x (unresolved, 0) = (resolveLocation fs target x, length (uri x))"
        by (simp add: resolveStep_def matches_def)
      moreover from True none have "best target (ls @ [x]) x" by (auto simp: best_def)
      ultimately show ?thesis unfolding step st by blast
    next
      case False
      then have "resolveStep fs target x (unresolved, 0) = (unresolved, 0)"
        by (auto simp: resolveStep_def matches_def)
      with False none show ?thesis unfolding step st by auto
    qed
  next
    fix l
    assume l: "best target ls l" and st: "?st = (resolveLocation fs target l, length (uri l))"
    show ?thesis
    proof (cases "matches target x \<and> length (uri l) < length (uri x)")
      case True
      then have "resolveStep fs target x (resolveLocation fs target l, length (uri l)) =
          (resolveLocation fs target x, length (uri x))"
        by (simp add: resolveStep_def matches_def)
      moreover from True l have "best target (ls @ [x]) x" by (fastforce simp: best_def)
      ultimately show ?thesis unfolding step st by blast
    next
      case False
      with l have "best target (ls @ [x]) l" by (auto simp: best_def not_less)
      moreover have "resolveStep fs target x (resolveLocation fs target l, length (uri l)) =
          (resolveLocation fs target l, length (uri l))"
        using False l by (auto simp: resolveStep_def matches_def best_def)
      ultimately show ?thesis unfolding step st by blast
    qed
  qed
qed simp

lemma best_unique:
  assumes "best target ls l" "best target ls l'" "distinct (map uri ls)"
  shows "l = l'"
proof -
  have len: "length (uri l) = length (uri l')" using assms(1,2) by (auto simp: best_def intro: antisym)
  have "prefix (uri l) target" "prefix (uri l') target"
    using assms(1,2) by (auto simp: best_def matches_def startsWith_def)
  with len have "uri l = uri l'" by (metis append_eq_append_conv prefix_def)
  with assms show ?thesis by (auto simp: best_def distinct_map dest: inj_onD)
qed

section \<open>Splitting the path of a script\<close>

text \<open>The path that the loop finds is a prefix that ends before a slash or question mark or at the
  end, and every shorter prefix that ends before a slash is a directory.\<close>

lemma cgiPath_prefix: "\<exists>e \<le> length s. i < length s \<longrightarrow> cgiPath fs s i st = (take e s, is_directory fs (take e s)) \<and> i \<le> e"
proof (induction fs s i st rule: cgiPath.induct)
  case (1 fs s i st)
  let ?e = "skipSegment s i"
  show ?case
  proof (cases "i < length s")
    case True
    have e: "i \<le> ?e" "?e \<le> length s" using skipSegment_bounds [of i s] True by auto
    show ?thesis
    proof (cases "\<not> is_directory fs (take ?e s) \<or> ?e \<ge> length s \<or> s ! ?e = CHR ''?''")
      case True
      with e show ?thesis by (intro exI [of _ ?e]) (auto simp: cgiPath.simps [of fs s i st] Let_def)
    next
      case False
      then have next_step: "cgiPath fs s i st = cgiPath fs s (?e + 1) (take ?e s, is_directory fs (take ?e s))"
        using \<open>i < length s\<close> by (subst cgiPath.simps) (simp add: Let_def)
      show ?thesis
      proof (cases "?e + 1 < length s")
        case True
        from 1 [OF \<open>i < length s\<close> refl refl refl] False obtain e' where
          "e' \<le> length s" "cgiPath fs s (?e + 1) (take ?e s, is_directory fs (take ?e s)) = (take e' s, is_directory fs (take e' s))"
          "?e + 1 \<le> e'" using True by auto
        with next_step e show ?thesis by (intro exI [of _ e']) auto
      next
        case last: False
        then have "cgiPath fs s (?e + 1) st' = st'" for st' by (subst cgiPath.simps) simp
        with next_step e show ?thesis by (intro exI [of _ ?e]) simp
      qed
    qed
  qed auto
qed

lemma find_str_from_bound: "find_str_from n s p = Some q \<Longrightarrow> p \<le> q \<and> q \<le> length s"
  using find_str_bound by (fastforce simp: find_str_from_def split: if_splits)

text \<open>Path, additional path and query of a CGI request are the request's path cut in three, the
  first two of which are made canonical.\<close>

lemma resolveCGI_split:
  assumes "s \<noteq> []" "\<not> snd (cgiPath fs s 0 ([], True))"
  obtains p info where "s = p @ info @ query_string (resolveCGI fs s r)" "\<not> is_directory fs p"
    "path (resolveCGI fs s r) = canonical fs p" "path_info (resolveCGI fs s r) = canonical fs info"
    "CHR ''?'' \<notin> set info"
    "query_string (resolveCGI fs s r) \<noteq> [] \<Longrightarrow> hd (query_string (resolveCGI fs s r)) = CHR ''?''"
proof -
  from cgiPath_prefix [of s 0 fs "([], True)"] assms obtain e where
    e: "e \<le> length s" "cgiPath fs s 0 ([], True) = (take e s, is_directory fs (take e s))" by auto
  with assms(2) have nd: "\<not> is_directory fs (take e s)" by simp
  have len: "length (take e s) = e" using e(1) by simp
  show thesis
  proof (cases "find_str ''?'' (drop e s)")
    case None
    then have q: "find_str_from ''?'' s e = None" by (simp add: find_str_from_def)
    have no: "CHR ''?'' \<notin> set (drop e s)" using None by (simp add: find_str_single find_first_of_None)
    show thesis
      by (rule that [of "take e s" "drop e s"]) (use e nd q no in \<open>simp_all add: resolveCGI_def Let_def\<close>)
  next
    case (Some k)
    then have q: "find_str_from ''?'' s e = Some (e + k)" using e(1) by (simp add: find_str_from_def)
    from Some have k: "k < length (drop e s)" "drop e s ! k = CHR ''?''" "CHR ''?'' \<notin> set (take k (drop e s))"
      by (auto simp: find_str_single find_first_of_Some_iff in_set_conv_nth)
    have info: "length (take k (drop e s)) = k" using k(1) by simp
    have r: "resolveCGI fs s r = r\<lparr>path := canonical fs (take e s), path_info := canonical fs (take k (drop e s)),
        query_string := drop (e + k) s\<rparr>"
      using e nd q len info by (simp add: resolveCGI_def substr_def)
    show thesis
    proof (rule that [of "take e s" "take k (drop e s)"])
      have "drop e s = take k (drop e s) @ drop (e + k) s" by (metis append_take_drop_id drop_drop add.commute)
      then show "s = take e s @ take k (drop e s) @ query_string (resolveCGI fs s r)"
        by (simp add: r)
      show "hd (query_string (resolveCGI fs s r)) = CHR ''?''"
        using k by (simp add: r hd_drop_conv_nth)
    qed (use nd k(3) in \<open>simp_all add: r\<close>)
  qed
qed

lemma resolveLocation_resolved: "resolved (resolveLocation fs target l)"
  by (auto simp: resolveLocation_def resolveCGI_def Let_def split: prod.splits)

text \<open>
  C6: a request target is answered by the location with the longest URI that it starts with,
  wherever that location stands in the configuration, with exactly that location's settings, and
  it is unresolved when no URI matches.
\<close>

theorem route_longest:
  assumes "distinct (map uri ls)"
  shows "(resolved (resolveToLocation fs target ls) \<longleftrightarrow> (\<exists>l \<in> set ls. matches target l)) \<and>
    (\<forall>l. best target ls l \<longrightarrow> resolveToLocation fs target ls = resolveLocation fs target l)"
proof (cases "\<exists>l \<in> set ls. matches target l")
  case True
  with resolve_fold [of ls target fs] obtain l where
    l: "best target ls l" "fold (resolveStep fs target) ls (unresolved, 0) = (resolveLocation fs target l, length (uri l))"
    by auto
  then have "resolveToLocation fs target ls = resolveLocation fs target l" by (simp add: resolveToLocation_def)
  with True best_unique [OF l(1) _ assms] show ?thesis by (auto simp: resolveLocation_resolved)
next
  case False
  with resolve_fold [of ls target fs] have "resolveToLocation fs target ls = unresolved"
    by (auto simp: resolveToLocation_def best_def)
  with False show ?thesis by (auto simp: unresolved_def best_def)
qed

theorem route_longest_witness:
  "let fs = \<lparr>regular = Map.empty, directory = Map.empty, creatable = (\<lambda>_. False), canonical = (\<lambda>p. p)\<rparr>;
       a = empty_location\<lparr>uri := ''/'', loc_root := ''public''\<rparr>;
       b = empty_location\<lparr>uri := ''/img/'', loc_root := ''assets''\<rparr> in
   path (resolveToLocation fs ''/img/x.png'' [b, a]) = ''assets/img/x.png''"
proof -
  let ?fs = "\<lparr>regular = Map.empty, directory = Map.empty, creatable = (\<lambda>_. False), canonical = (\<lambda>p. p)\<rparr>"
  let ?a = "empty_location\<lparr>uri := ''/'', loc_root := ''public''\<rparr>"
  let ?b = "empty_location\<lparr>uri := ''/img/'', loc_root := ''assets''\<rparr>"
  have "distinct (map uri [?b, ?a])" by simp
  moreover have "best ''/img/x.png'' [?b, ?a] ?b" by (simp add: best_def matches_def startsWith_def)
  ultimately have "resolveToLocation ?fs ''/img/x.png'' [?b, ?a] = resolveLocation ?fs ''/img/x.png'' ?b"
    using route_longest by blast
  then show ?thesis by (simp add: Let_def resolveLocation_def empty_location_def)
qed

text \<open>
  C4: in an accepted configuration, the server that answers on an address listens there; it is the
  only server on that address with the requested name when there is one, and otherwise the first
  server of the configuration that listens on the address.
\<close>

theorem route_by_name:
  assumes "Config resolve root = Inr cfg" "at = values_at (bind_info_to_server_indices cfg) b"
    and "getServerIndex (servers cfg) at name = Some i"
  shows "i < length (servers cfg) \<and> b \<in> bound_at resolve (listen (servers cfg ! i)) \<and>
    (\<forall>j \<in> set at. name \<in> set (server_names (servers cfg ! j)) \<longrightarrow> j = i) \<and>
    (name \<in> set (server_names (servers cfg ! i)) \<or> (\<forall>j \<in> set at. i \<le> j))"
proof -
  have at: "at = filter (\<lambda>i. b \<in> bound_at resolve (listen (servers cfg ! i))) [0..<length (servers cfg)]"
    and one: "\<And>i j n. i \<in> set at \<Longrightarrow> j \<in> set at \<Longrightarrow> n \<in> set (server_names (servers cfg ! i)) \<Longrightarrow>
      n \<in> set (server_names (servers cfg ! j)) \<Longrightarrow> i = j"
    using Config_bindings [OF assms(1)] assms(2) unfolding bindings_ok_def Let_def by blast+
  have mem: "i \<in> set at"
    using assms(3) by (auto simp: getServerIndex_def find_Some_iff split: option.splits list.splits)
  have sorted: "sorted at" unfolding at by (rule sorted_wrt_filter) simp
  have here: "i < length (servers cfg)" "b \<in> bound_at resolve (listen (servers cfg ! i))"
    using mem unfolding at by simp_all
  show ?thesis
  proof (cases "find (\<lambda>i. name \<in> set (server_names (servers cfg ! i))) at")
    case None
    with assms(3) obtain rest where "at = i # rest" by (auto simp: getServerIndex_def split: list.splits)
    with sorted have "\<forall>j \<in> set at. i \<le> j" by simp
    moreover have "\<forall>j \<in> set at. name \<notin> set (server_names (servers cfg ! j))" using None by (simp add: find_None_iff)
    ultimately show ?thesis using here by blast
  next
    case (Some k)
    with assms(3) have "k = i" "name \<in> set (server_names (servers cfg ! i))"
      by (auto simp: getServerIndex_def find_Some_iff)
    with one mem here show ?thesis by blast
  qed
qed

theorem route_by_name_witness:
  "let resolve = (\<lambda>_ _. Some (0x0100007F, 0x901F)); cfg = projr (Config resolve sample_root);
       at = values_at (bind_info_to_server_indices cfg) (0x0100007F, 0x901F) in
   getServerIndex (servers cfg) at ''LOCALHOST'' = Some 0 \<and>
   (0x0100007F, 0x901F) \<in> bound_at resolve (listen (servers cfg ! 0))"
proof -
  let ?r = "\<lambda>_ _. Some (0x0100007F, 0x901F) :: BindInfo option"
  let ?cfg = "projr (Config ?r sample_root)"
  let ?at = "values_at (bind_info_to_server_indices ?cfg) (0x0100007F, 0x901F)"
  have c: "Config ?r sample_root = Inr ?cfg" by (simp add: sample_config)
  have g: "getServerIndex (servers ?cfg) ?at ''LOCALHOST'' = Some 0"
    by (simp add: sample_config getServerIndex_def values_at_def)
  from route_by_name [OF c refl g] g show ?thesis by simp
qed

end
