(* ===== verification/Server_Loop.thy ===== *)
theory Server_Loop
  imports Server_Run Server_Route
begin

text \<open>
  The event handlers of \<open>src/src/Server.cpp\<close> and the loop over the polled descriptors. What the
  system calls return during one event, the bytes read, the number of bytes written, a new
  connection, the pid and the pipes of a CGI script, is the argument \<open>io\<close>. The theory
  \<open>Server_Keep\<close> has the properties.
\<close>

record io_results =
  accepted_fd :: int
  received :: string
  write_result :: int
  forked_pid :: int
  pipe_to_cgi :: int
  pipe_from_cgi :: int

definition MAX_CGI_WRITE_LEN :: nat where "MAX_CGI_WRITE_LEN = 10000"
definition MAX_CLIENT_WRITE_LEN :: nat where "MAX_CLIENT_WRITE_LEN = 10000"

section \<open>The constructor\<close>

text \<open>\<open>ntohs\<close> on a little-endian machine. One descriptor per call of \<open>socket\<close>, in the order of the calls.\<close>

definition ntohs :: "16 word \<Rightarrow> 16 word" where
  "ntohs w = push_bit 8 w OR drop_bit 8 w"

definition bindSocket :: "int \<times> BindInfo \<times> nat list \<Rightarrow> server \<Rightarrow> server_outcome" where
  "bindSocket entry s =
     (let (bind_fd, bind_info, server_indices) = entry in
      addFd bind_fd SERVER POLLIN
        (s\<lparr>bind_fd_to_server_indices := emplace_map bind_fd server_indices (bind_fd_to_server_indices s),
           bind_fd_to_port := emplace_map bind_fd (to_dec (unat (ntohs (snd bind_info)))) (bind_fd_to_port s)\<rparr>))"

definition initial_server :: "filesystem \<Rightarrow> server" where
  "initial_server fs =
     \<lparr>unreaped_cgi_count = 0, bind_fd_to_server_indices = (\<lambda>_. None), bind_fd_to_port = (\<lambda>_. None),
      cgi_pid_to_client_fd = (\<lambda>_. None), fd_to_client_index = (\<lambda>_. None), fd_to_pfd_index = (\<lambda>_. None),
      fd_to_fd_type = (\<lambda>_. None), clients = [], pfds = [], closed = [], killed = [], sent = [],
      errno_is_ECHILD = False, files = fs\<rparr>"

fun bindSockets :: "(int \<times> BindInfo \<times> nat list) list \<Rightarrow> server \<Rightarrow> server_outcome" where
  "bindSockets [] s = (None, s)"
| "bindSockets (entry # entries) s = thenS (bindSocket entry s) (bindSockets entries)"

definition startServer :: "config \<Rightarrow> int list \<Rightarrow> filesystem \<Rightarrow> server_outcome" where
  "startServer cfg bind_fds fs = bindSockets (zip bind_fds (bind_info_to_server_indices cfg)) (initial_server fs)"

section \<open>Calling a member function of a client\<close>

fun of_client_error :: "client_error \<Rightarrow> server_error" where
  "of_client_error (ClientException st) = Respond st"
| "of_client_error OutOfRange = OutOfRangeAt"
| "of_client_error AssertionFailed = Assertion"

definition onClient :: "nat \<Rightarrow> (client \<Rightarrow> outcome) \<Rightarrow> server \<Rightarrow> server_outcome" where
  "onClient i f s =
     (let r = f (clients s ! i)
      in (map_option of_client_error (fst r), s\<lparr>clients := (clients s)[i := snd r]\<rparr>))"

definition onClientFiles ::
  "nat \<Rightarrow> (filesystem \<times> client \<Rightarrow> client_error option \<times> filesystem \<times> client) \<Rightarrow> server \<Rightarrow> server_outcome" where
  "onClientFiles i f s =
     (let (e, fs, c) = f (files s, clients s ! i)
      in (map_option of_client_error e, s\<lparr>clients := (clients s)[i := c], files := fs\<rparr>))"

section \<open>Errors and the end of a CGI script\<close>

text \<open>The server that a client talks to; the continuation gets its directive.\<close>

definition withServer ::
  "config \<Rightarrow> nat \<Rightarrow> server \<Rightarrow> (ServerDirective \<Rightarrow> server_outcome) \<Rightarrow> server_outcome" where
  "withServer cfg i s k =
     (case bind_fd_to_server_indices s (server_fd (clients s ! i)) of
        None \<Rightarrow> (Some OutOfRangeAt, s)
      | Some server_indices \<Rightarrow>
          (case getServerIndex (servers cfg) server_indices (server_name (clients s ! i)) of
             None \<Rightarrow> (Some OutOfRangeAt, s)
           | Some si \<Rightarrow> if si < length (servers cfg) then k (servers cfg ! si) else (Some OutOfRangeAt, s)))"

definition respondClientException :: "config \<Rightarrow> status \<Rightarrow> nat \<Rightarrow> server \<Rightarrow> server_outcome" where
  "respondClientException cfg st i s =
     (let s = upd_client i (\<lambda>c. c\<lparr>status := st\<rparr>) s in
      thenS (killCGI (client_fd (clients s ! i)) s) (\<lambda>s.
      thenS (disableReadingFromClient i s) (\<lambda>s.
      withServer cfg i s (\<lambda>server.
        thenS (onClient i (respondWithError (files s) (error_pages server)) s) (enableWritingToClient i)))))"

definition cgiEnd :: "config \<Rightarrow> nat \<Rightarrow> server \<Rightarrow> server_outcome" where
  "cgiEnd cfg i s =
     (if cgi_exit_status (clients s ! i) \<noteq> 0 then respondClientException cfg INTERNAL_SERVER_ERROR i s
      else
        thenS (onClient i (\<lambda>c. prependResponseHeader (extractCGIDocumentResponseHeaders c)) s)
          (enableWritingToClient i))"

definition pollhupCGIToServer :: "config \<Rightarrow> int \<Rightarrow> server \<Rightarrow> server_outcome" where
  "pollhupCGIToServer cfg fd s =
     getClient fd s (\<lambda>i.
       thenS (removeServerToCGIFd fd (upd_client i (\<lambda>c. c\<lparr>client_to_server_state := C2S_DONE\<rparr>) s)) (\<lambda>s.
       thenS (removeCGIToServerFd fd s) (\<lambda>s.
         if cgi_pid (clients s ! i) = - 1 then cgiEnd cfg i s else (None, s))))"

text \<open>
  \<open>_reapChildCGIScripts\<close>: what \<open>waitpid\<close> reports, one value per call. \<open>waitpid\<close> sets \<open>errno\<close> when
  there is no child and leaves it alone otherwise, and the code tests \<open>errno\<close> without the result.
  An exited child comes with its exit status.
\<close>

datatype wait_result = NoChild | NotReady | Reaped int "int option"

definition reapClient :: "config \<Rightarrow> int \<Rightarrow> int option \<Rightarrow> server \<Rightarrow> server_outcome" where
  "reapClient cfg pid exited s =
     (let s = s\<lparr>unreaped_cgi_count := unreaped_cgi_count s - 1\<rparr> in
      case cgi_pid_to_client_fd s pid of
        None \<Rightarrow> (None, s)
      | Some fd \<Rightarrow>
          (case fd_to_client_index s fd of
             None \<Rightarrow> (Some OutOfRangeAt, s)
           | Some i \<Rightarrow>
               if \<not> i < length (clients s) then (Some OutOfRangeAt, s)
               else
                 let s = s\<lparr>cgi_pid_to_client_fd := (cgi_pid_to_client_fd s)(cgi_pid (clients s ! i) := None)\<rparr>;
                     s = upd_client i (\<lambda>c. c\<lparr>cgi_pid := - 1\<rparr>) s
                 in thenS (assertS (client_to_server_state (clients s ! i) = C2S_DONE) s) (\<lambda>s.
                    thenS (assertS (server_to_cgi_state (clients s ! i) = S2CGI_DONE) s) (\<lambda>s.
                    thenS (assertS (cgi_to_server_state (clients s ! i) \<noteq> CGI2S_NOT_READING) s) (\<lambda>s.
                    thenS (assertS (server_to_client_state (clients s ! i) = S2C_NOT_WRITING) s) (\<lambda>s.
                      let s = (case exited of
                                 Some code \<Rightarrow> upd_client i (\<lambda>c. c\<lparr>cgi_exit_status := code\<rparr>) s
                               | None \<Rightarrow> s)
                      in if being_removed (clients s ! i) then removeClient fd s
                         else if cgi_to_server_state (clients s ! i) = CGI2S_DONE then cgiEnd cfg i s
                         else (None, s)))))))"

fun reapChildCGIScripts :: "config \<Rightarrow> wait_result list \<Rightarrow> server \<Rightarrow> server_outcome" where
  "reapChildCGIScripts cfg [] s = (None, s)"
| "reapChildCGIScripts cfg (w # ws) s =
     (let s = (if w = NoChild then s\<lparr>errno_is_ECHILD := True\<rparr> else s) in
      if errno_is_ECHILD s then (None, s)
      else case w of
             Reaped pid exited \<Rightarrow> thenS (reapClient cfg pid exited s) (reapChildCGIScripts cfg ws)
           | _ \<Rightarrow> (None, s))"

section \<open>Requests\<close>

text \<open>The answer to a complete request, in the order of the code's tests.\<close>

definition respondDirectory :: "ResolvedLocation \<Rightarrow> nat \<Rightarrow> server \<Rightarrow> server_outcome" where
  "respondDirectory location i s =
     (if request_method (clients s ! i) = GET then
        if has_index location then
          if \<not> is_regular_file (files s) (index_path location) then
            if is_open (files s) (index_path location) \<and> index_directive location \<noteq> [] \<and>
               (\<not> ends_with (index_directive location) (CHR ''/'') \<or>
                (hd (index_directive location) = CHR ''/'' \<and> ends_with (index_directive location) (CHR ''/'')))
            then
              if ends_with (index_directive location) (CHR ''/'') then (Some (Respond INTERNAL_SERVER_ERROR), s)
              else (Some (Respond MOVED_PERMANENTLY),
                upd_client i (\<lambda>c. c\<lparr>request_target :=
                  (if hd (index_directive location) = CHR ''/'' then index_directive location
                   else ''/'' @ index_directive location)\<rparr>) s)
            else (Some (Respond FORBIDDEN), s)
          else thenS (onClient i (respondWithFile (files s) (index_path location)) s) (enableWritingToClient i)
        else if lists_directory location then
          thenS (onClient i (respondWithDirectoryListing (files s) (path location)) s) (enableWritingToClient i)
        else (Some (Respond FORBIDDEN), s)
      else (Some (Respond FORBIDDEN), s))"

definition respondPath :: "io_results \<Rightarrow> ResolvedLocation \<Rightarrow> nat \<Rightarrow> server \<Rightarrow> server_outcome" where
  "respondPath io location i s =
     (if is_directory (files s) (path location) then
        (Some (Respond (if request_method (clients s ! i) = DELETE then METHOD_NOT_ALLOWED else MOVED_PERMANENTLY)), s)
      else if is_cgi_directory location then
        startCGI (forked_pid io) (pipe_to_cgi io) (pipe_from_cgi io) i s
      else if request_method (clients s ! i) = GET then
        thenS (onClient i (respondWithFile (files s) (path location)) s) (enableWritingToClient i)
      else if request_method (clients s ! i) = POST then
        thenS (onClientFiles i (respondWithCreateFile (path location)) s) (enableWritingToClient i)
      else thenS (onClientFiles i (respondWithDeleteFile (path location)) s) (enableWritingToClient i))"

definition respondRequest :: "config \<Rightarrow> io_results \<Rightarrow> nat \<Rightarrow> server \<Rightarrow> server_outcome" where
  "respondRequest cfg io i s =
     withServer cfg i s (\<lambda>server.
       let location = resolveToLocation (files s) (request_target (clients s ! i)) (locations server) in
       if \<not> resolved location then (Some (Respond NOT_FOUND), s)
       else if has_redirect location then
         (Some (Respond MOVED_TEMPORARILY), upd_client i (\<lambda>c. c\<lparr>redirect := path location\<rparr>) s)
       else if \<not> isAllowedMethod location (request_method (clients s ! i)) then (Some (Respond METHOD_NOT_ALLOWED), s)
       else if ends_with (path location) (CHR ''/'') then respondDirectory location i s
       else respondPath io location i s)"

text \<open>\<open>_readFd\<close>; the flag is \<open>skip_client\<close>.\<close>

definition readFd :: "config \<Rightarrow> io_results \<Rightarrow> nat \<Rightarrow> FdType \<Rightarrow> server \<Rightarrow> bool \<times> server_outcome" where
  "readFd cfg io i fd_type s =
     (if received io = [] then
        (True, thenS (assertS (fd_type = CLIENT) s) (removeClient (client_fd (clients s ! i))))
      else
        (False,
         thenS (assertS (server_to_client_state (clients s ! i) \<noteq> S2C_DONE) s) (\<lambda>s.
           if fd_type = CLIENT then
             thenS (onClient i (appendReadString (received io)) s) (\<lambda>s.
               if client_to_server_state (clients s ! i) = C2S_DONE then respondRequest cfg io i s else (None, s))
           else if fd_type = CGI_TO_SERVER then
             thenS (assertS (cgi_to_server_state (clients s ! i) = CGI2S_READING) s) (\<lambda>s.
               (None, upd_client i (\<lambda>c. c\<lparr>response := response c @ received io\<rparr>) s))
           else (Some Assertion, s))))"

definition handlePollin :: "config \<Rightarrow> io_results \<Rightarrow> int \<Rightarrow> FdType \<Rightarrow> server \<Rightarrow> bool \<times> server_outcome" where
  "handlePollin cfg io fd fd_type s =
     (if fd_type = SERVER then (False, acceptClient (max_body_size cfg) fd (accepted_fd io) s)
      else if fd_type \<noteq> CLIENT \<and> fd_type \<noteq> CGI_TO_SERVER then (False, (Some Assertion, s))
      else case fd_to_client_index s fd of
             None \<Rightarrow> (False, (Some OutOfRangeAt, s))
           | Some i \<Rightarrow>
               if \<not> i < length (clients s) then (False, (Some Undefined_Behaviour, s))
               else case readFd cfg io i fd_type s of
                      (skip, Some (Respond st), s) \<Rightarrow> (True, respondClientException cfg st i s)
                    | r \<Rightarrow> r)"

section \<open>Writing\<close>

text \<open>What \<open>write\<close> reports: \<open>- 1\<close>, or the number of bytes that were taken.\<close>

definition writeString :: "io_results \<Rightarrow> int \<Rightarrow> string \<Rightarrow> server \<Rightarrow> server" where
  "writeString io fd msg s =
     (if write_result io = - 1 then s else s\<lparr>sent := sent s @ [(fd, take (nat (write_result io)) msg)]\<rparr>)"

definition writeToCGI :: "io_results \<Rightarrow> nat \<Rightarrow> server \<Rightarrow> server_outcome" where
  "writeToCGI io i s =
     thenS (assertS (server_to_cgi_state (clients s ! i) = S2CGI_WRITING) s) (\<lambda>s.
       let c = clients s ! i; len = min (length (body c) - body_index c) MAX_CGI_WRITE_LEN in
       thenS (assertS (len > 0) s) (\<lambda>s.
         let s = upd_client i (\<lambda>c. c\<lparr>body_index := body_index c + len\<rparr>) s;
             s = writeString io (server_to_cgi_fd c) (substr (body c) (body_index c) len) s
         in if write_result io = - 1 then removeServerToCGIFd (server_to_cgi_fd c) s
            else thenS (assertS (write_result io \<noteq> 0) s) (\<lambda>s.
              if body_index (clients s ! i) = length (body c) then removeServerToCGIFd (server_to_cgi_fd c) s
              else (None, s))))"

definition writeToClient :: "io_results \<Rightarrow> nat \<Rightarrow> server \<Rightarrow> server_outcome" where
  "writeToClient io i s =
     thenS (assertS (server_to_client_state (clients s ! i) = S2C_WRITING) s) (\<lambda>s.
       let c = clients s ! i; len = min (length (response c) - response_index c) MAX_CLIENT_WRITE_LEN in
       thenS (assertS (len > 0) s) (\<lambda>s.
         let s = upd_client i (\<lambda>c. c\<lparr>response_index := response_index c + len\<rparr>) s;
             s = writeString io (client_fd c) (substr (response c) (response_index c) len) s
         in if write_result io = - 1 then removeClient (client_fd c) s
            else thenS (assertS (write_result io \<noteq> 0) s) (\<lambda>s.
              if response_index (clients s ! i) = length (response c) then removeClient (client_fd c) s
              else (None, s))))"

definition handlePollout :: "io_results \<Rightarrow> int \<Rightarrow> FdType \<Rightarrow> server \<Rightarrow> server_outcome" where
  "handlePollout io fd fd_type s =
     getClient fd s (\<lambda>i.
       if fd_type = SERVER_TO_CGI then writeToCGI io i s
       else if fd_type = CLIENT then writeToClient io i s
       else (Some Assertion, s))"

section \<open>One polled descriptor\<close>

abbreviation raised :: "16 word \<Rightarrow> 16 word \<Rightarrow> bool" where
  "raised ev bits \<equiv> ev AND bits \<noteq> 0"

text \<open>\<open>_printEvents\<close> looks the client of the descriptor up for its message.\<close>

definition printEvents :: "int \<Rightarrow> FdType \<Rightarrow> server \<Rightarrow> server_outcome" where
  "printEvents fd fd_type s =
     (if fd_type = SERVER then (None, s)
      else case fd_to_client_index s fd of
             None \<Rightarrow> (Some OutOfRangeAt, s)
           | Some i \<Rightarrow> if i < length (clients s) then (None, s) else (Some OutOfRangeAt, s))"

text \<open>The part of \<open>_processPfd\<close> behind its early returns. \<open>revents\<close> is read again between the
  steps, at the same position.\<close>

definition processEvents :: "config \<Rightarrow> io_results \<Rightarrow> nat \<Rightarrow> int \<Rightarrow> FdType \<Rightarrow> server \<Rightarrow> server_outcome" where
  "processEvents cfg io p fd fd_type s =
     (if raised (revents (pfds s ! p)) POLLNVAL then (Some Assertion, s)
      else if raised (revents (pfds s ! p)) POLLERR then handlePollerr fd fd_type s
      else if raised (revents (pfds s ! p)) POLLHUP \<and> fd_type \<noteq> CGI_TO_SERVER then (Some Assertion, s)
      else if raised (revents (pfds s ! p)) POLLHUP \<and> \<not> raised (revents (pfds s ! p)) POLLIN
      then pollhupCGIToServer cfg fd s
      else
        let (skip, r) = (if raised (revents (pfds s ! p)) POLLIN then handlePollin cfg io fd fd_type s else (False, (None, s)))
        in thenS r (\<lambda>s.
             if skip then (None, s)
             else if \<not> p < length (pfds s) then (Some Undefined_Behaviour, s)
             else if raised (revents (pfds s ! p)) POLLOUT then handlePollout io fd fd_type s
             else (None, s)))"

definition processPfd :: "config \<Rightarrow> io_results \<Rightarrow> nat \<Rightarrow> int set \<times> server \<Rightarrow> int set \<times> server_outcome" where
  "processPfd cfg io p st =
     (let seen_fds = fst st; s = snd st in
      if \<not> p < length (pfds s) then (seen_fds, (Some Undefined_Behaviour, s))
      else if revents (pfds s ! p) = 0 then (seen_fds, (None, s))
      else
        let fd = pfd_fd (pfds s ! p) in
        if fd_to_pfd_index s fd = None \<or> fd \<in> seen_fds then (seen_fds, (None, s))
        else case fd_to_fd_type s fd of
               None \<Rightarrow> (insert fd seen_fds, (Some OutOfRangeAt, s))
             | Some fd_type \<Rightarrow>
                 (insert fd seen_fds, thenS (printEvents fd fd_type s) (processEvents cfg io p fd fd_type)))"

section \<open>The main loop\<close>

text \<open>
  The loop of \<open>run\<close> over the positions of \<open>_pfds\<close>, from the last to the first; \<open>ios p\<close> is what the
  system calls return during the event at position \<open>p\<close>.
\<close>

fun processPfds :: "config \<Rightarrow> (nat \<Rightarrow> io_results) \<Rightarrow> nat \<Rightarrow> int set \<times> server \<Rightarrow> server_outcome" where
  "processPfds cfg ios 0 st = (None, snd st)"
| "processPfds cfg ios (Suc p) st =
     (let (seen_fds, r) = processPfd cfg (ios p) p st
      in thenS r (\<lambda>s. processPfds cfg ios p (seen_fds, s)))"

text \<open>
  The branch of \<open>run\<close> for a \<open>poll\<close> that timed out. The range-based loop has the end of the vector
  from before the first round, so its positions are those of that moment; \<open>expired\<close> tells which
  clients have sent nothing for too long.
\<close>

fun timeoutClients :: "(int \<Rightarrow> bool) \<Rightarrow> nat list \<Rightarrow> server \<Rightarrow> server_outcome" where
  "timeoutClients expired [] s = (None, s)"
| "timeoutClients expired (i # is) s =
     (if \<not> i < length (clients s) then (Some Undefined_Behaviour, s)
      else if expired (client_fd (clients s ! i))
      then thenS (removeClient (client_fd (clients s ! i)) s) (timeoutClients expired is)
      else timeoutClients expired is s)"

definition handleTimeout :: "config \<Rightarrow> wait_result list \<Rightarrow> (int \<Rightarrow> bool) \<Rightarrow> server \<Rightarrow> server_outcome" where
  "handleTimeout cfg reaped expired s =
     thenS (assertS (unreaped_cgi_count s \<ge> 0) s) (\<lambda>s.
     thenS (if unreaped_cgi_count s > 0 then reapChildCGIScripts cfg reaped s else (None, s)) (\<lambda>s.
       timeoutClients expired [0..<length (clients s)] s))"

end
