(* ===== verification/Server_Keep.thy ===== *)
theory Server_Keep
  imports Server_Loop
begin

text \<open>
  What the event handlers do to the tables of the server. A handler that touches no descriptor is
  \<open>quiet\<close>; the others are the operations of \<open>Server_Run\<close>. Together they show that every event, every
  timeout and every shutdown keeps the tables in agreement.
\<close>

section \<open>The member functions of a client keep its descriptors\<close>

text \<open>
  The client has the descriptors and the script of \<open>c'\<close>; with the flag, its pipe to the script is in order
  if that of \<open>c'\<close> is. Reading a request keeps the pipe in order only when there is none.
\<close>

definition kept :: "bool \<Rightarrow> client \<Rightarrow> client \<Rightarrow> bool" where
  "kept b c c' \<longleftrightarrow>
     client_fd c = client_fd c' \<and> server_to_cgi_fd c = server_to_cgi_fd c' \<and> cgi_to_server_fd c = cgi_to_server_fd c' \<and>
     cgi_pid c = cgi_pid c' \<and> cgi_killed c = cgi_killed c' \<and> (b \<longrightarrow> pipe_ok c' \<longrightarrow> pipe_ok c)"

abbreviation same_cgi :: "client \<Rightarrow> client \<Rightarrow> bool" where
  "same_cgi \<equiv> kept True"

lemma kept_refl [simp]: "kept b c c"
  by (simp add: kept_def)

lemma kept_trans: "kept b c d \<Longrightarrow> kept b d e \<Longrightarrow> kept b c e"
  by (simp add: kept_def)

lemma kept_strict: "kept False c c' \<Longrightarrow> server_to_cgi_fd c' = - 1 \<Longrightarrow> same_cgi c c'"
  by (simp add: kept_def pipe_ok_def)

lemma kept_upd [simp]:
  "kept b (c\<lparr>status := x_0\<rparr>) d \<longleftrightarrow> kept b c d"
  "kept b (c\<lparr>client_to_server_state := x_1\<rparr>) d \<longleftrightarrow> kept b c d"
  "kept False (c\<lparr>server_to_cgi_state := x_2\<rparr>) d \<longleftrightarrow> kept False c d"
  "kept b (c\<lparr>cgi_to_server_state := x_3\<rparr>) d \<longleftrightarrow> kept b c d"
  "kept b (c\<lparr>server_to_client_state := x_4\<rparr>) d \<longleftrightarrow> kept b c d"
  "kept b (c\<lparr>request_method := x_5\<rparr>) d \<longleftrightarrow> kept b c d"
  "kept b (c\<lparr>request_target := x_6\<rparr>) d \<longleftrightarrow> kept b c d"
  "kept b (c\<lparr>protocol := x_7\<rparr>) d \<longleftrightarrow> kept b c d"
  "kept b (c\<lparr>headers := x_8\<rparr>) d \<longleftrightarrow> kept b c d"
  "kept b (c\<lparr>body := x_9\<rparr>) d \<longleftrightarrow> kept b c d"
  "kept b (c\<lparr>body_index := x_10\<rparr>) d \<longleftrightarrow> kept b c d"
  "kept b (c\<lparr>response := x_11\<rparr>) d \<longleftrightarrow> kept b c d"
  "kept b (c\<lparr>response_index := x_12\<rparr>) d \<longleftrightarrow> kept b c d"
  "kept b (c\<lparr>cgi_exit_status := x_13\<rparr>) d \<longleftrightarrow> kept b c d"
  "kept b (c\<lparr>being_removed := x_14\<rparr>) d \<longleftrightarrow> kept b c d"
  "kept b (c\<lparr>redirect := x_15\<rparr>) d \<longleftrightarrow> kept b c d"
  "kept b (c\<lparr>server_name := x_16\<rparr>) d \<longleftrightarrow> kept b c d"
  "kept b (c\<lparr>unuppercased_server_name := x_17\<rparr>) d \<longleftrightarrow> kept b c d"
  "kept b (c\<lparr>content_type := x_18\<rparr>) d \<longleftrightarrow> kept b c d"
  "kept b (c\<lparr>content_length := x_19\<rparr>) d \<longleftrightarrow> kept b c d"
  "kept b (c\<lparr>custom_reason_phrase := x_20\<rparr>) d \<longleftrightarrow> kept b c d"
  "kept b (c\<lparr>response_content_type := x_21\<rparr>) d \<longleftrightarrow> kept b c d"
  "kept b (c\<lparr>header := x_22\<rparr>) d \<longleftrightarrow> kept b c d"
  "kept b (c\<lparr>is_chunked := x_23\<rparr>) d \<longleftrightarrow> kept b c d"
  "kept b (c\<lparr>chunked_remaining_content_length := x_24\<rparr>) d \<longleftrightarrow> kept b c d"
  "kept b (c\<lparr>chunked_body_buffer := x_25\<rparr>) d \<longleftrightarrow> kept b c d"
  "kept b (c\<lparr>chunked_read_state := x_26\<rparr>) d \<longleftrightarrow> kept b c d"
  by (simp_all add: kept_def pipe_ok_def)

lemma kept_andThen:
  "kept b (snd r) c \<Longrightarrow> (\<And>d. kept b d c \<Longrightarrow> kept b (snd (f d)) c) \<Longrightarrow> kept b (snd (andThen r f)) c"
  by (cases r) (auto simp: andThen_def split: option.splits)

lemma throw_same [simp]: "snd (throw st c) = c"
  by (simp add: throw_def)

lemma addLocation_same: "same_cgi (snd (addLocation c)) c"
  by (simp add: addLocation_def addResponseHeader_def)

lemma prepend_same:
  assumes "same_cgi d c"
  shows "same_cgi (snd (prependResponseHeader d)) c"
proof -
  have "same_cgi (snd (andThen (addLocation e) (\<lambda>f. (None, f\<lparr>response := response f @ tl\<rparr>)))) c"
    if "same_cgi e c" for e tl
    by (rule kept_andThen [OF kept_trans [OF addLocation_same that]]) simp
  then show ?thesis using assms
    by (simp add: prependResponseHeader_def addResponseHeader_def Let_def split: option.split)
qed

lemma respondWithError_same: "same_cgi (snd (respondWithError fs pages c)) c"
  by (simp add: respondWithError_def prepend_same split: option.split)

lemma respondWithFile_same: "same_cgi (snd (respondWithFile fs file c)) c"
  unfolding respondWithFile_def
  by (rule kept_andThen)
    (simp_all add: assertEmptyResponse_def Let_def prepend_same split: option.split)

lemma respondWithDirectoryListing_same: "same_cgi (snd (respondWithDirectoryListing fs file c)) c"
  unfolding respondWithDirectoryListing_def
  by (rule kept_andThen)
    (simp_all add: assertEmptyResponse_def Let_def prepend_same split: option.split)

lemma createFile_same: "same_cgi (snd (snd (respondWithCreateFile file (fs, c)))) c"
  by (simp add: respondWithCreateFile_def Let_def prepend_same)

lemma deleteFile_same: "same_cgi (snd (snd (respondWithDeleteFile file (fs, c)))) c"
  by (simp add: respondWithDeleteFile_def Let_def prepend_same)

lemma extractCGI_same: "same_cgi (extractCGIDocumentResponseHeaders c) c"
  by (simp add: extractCGIDocumentResponseHeaders_def useCGIStatus_def Let_def split: option.split prod.split)

lemmas response_same = prepend_same respondWithError_same respondWithFile_same
  respondWithDirectoryListing_same createFile_same deleteFile_same extractCGI_same

text \<open>Reading a request.\<close>

lemma chunkPass_same: "kept False (flow_client (chunkPass c)) c"
proof -
  have a: "kept False (flow_client (chunkReadLen c)) c" for c
    by (simp add: chunkReadLen_def split: option.split prod.split)
  have b: "kept False (flow_client (chunkReadBody c)) c" for c
    by (simp add: chunkReadBody_def Let_def)
  have d: "kept False (flow_client (chunkReadEndline c)) c" for c
    by (simp add: chunkReadEndline_def Let_def)
  have f: "kept False (flow_client (flowThen r g)) c"
    if "kept False (flow_client r) c" "\<And>x. kept False (flow_client (g x)) x" for r g c
    using that by (cases r) (auto intro: kept_trans)
  show ?thesis unfolding chunkPass_def by (intro f a b d)
qed

lemma chunkLoop_same: "kept False (snd (chunkLoop c)) c"
proof (induction c rule: chunkLoop.induct)
  case (1 c)
  show ?case
    using chunkPass_same [of c] 1 by (subst chunkLoop.simps) (auto intro: kept_trans split: flow.splits)
qed

lemma parseBodyAppend_same: "kept False (snd (parseBodyAppend extra c)) c"
  unfolding parseBodyAppend_def
proof (rule kept_andThen)
  have "kept False (appendBuffer extra c) c" by simp
  from kept_trans [OF chunkLoop_same this]
  show "kept False (snd (if is_chunked c then chunkLoop (appendBuffer extra c) else (None, plainBody extra c))) c"
    by (simp add: plainBody_def)
qed (simp add: checkBodySize_def)

lemma parseRequestLine_same: "kept False (snd (parseRequestLine line c)) c"
  by (simp add: parseRequestLine_def decodeRequestTarget_def Let_def split: option.split)

lemma useHeaders_same: "kept False (snd (useHeaders c)) c"
  unfolding useHeaders_def
proof (intro kept_andThen)
  show "kept False (snd (useContentLength (useTransferEncoding c))) c"
    by (simp add: useContentLength_def useTransferEncoding_def Let_def split: option.split prod.split)
  show "kept False (snd (useHost d)) c" if "kept False d c" for d
    using that by (simp add: useHost_def Let_def split: option.split)
  show "kept False (snd (None, useContentType d)) c" if "kept False d c" for d
    using that by (simp add: useContentType_def split: option.split)
qed

lemma finishHeader_same: "kept False (snd (finishHeader extra c)) c"
  using kept_trans [OF parseBodyAppend_same [of extra "c\<lparr>client_to_server_state := C2S_BODY\<rparr>"], of c]
  by (simp add: finishHeader_def Let_def)

lemma parseHeader_same: "kept False (snd (parseHeader extra c)) c"
proof (cases "getHeaderLines c")
  case (Cons line ls)
  have "kept False (snd (let (ok, filled) = fillHeaders ls (headers d); e = d\<lparr>headers := filled\<rparr> in
      if \<not> ok then throw BAD_REQUEST e else andThen (useHeaders e) (finishHeader extra))) c" if d: "kept False d c" for d
  proof -
    have e: "kept False (d\<lparr>headers := h\<rparr>) c" for h using d by simp
    then have "kept False (snd (andThen (useHeaders (d\<lparr>headers := h\<rparr>)) (finishHeader extra))) c" for h
      by (intro kept_andThen) (meson kept_trans useHeaders_same finishHeader_same)+
    with e show ?thesis by (simp add: Let_def split: prod.split)
  qed
  then show ?thesis by (simp add: parseHeader_def Cons kept_andThen [OF parseRequestLine_same])
qed (simp add: parseHeader_def)

lemma appendReadString_same: "kept False (snd (appendReadString piece c)) c"
proof -
  have "kept False (snd (parseHeader extra (c\<lparr>header := h\<rparr>))) c" for extra h
    by (rule kept_trans [OF parseHeader_same]) simp
  then show ?thesis
    by (simp add: appendReadString_def Let_def parseBodyAppend_same split: ClientToServerState.split option.split)
qed

section \<open>Steps that touch no descriptor\<close>

definition quiet :: "server \<Rightarrow> server \<Rightarrow> bool" where
  "quiet s s' \<longleftrightarrow>
     polled s' = polled s \<and> fd_to_pfd_index s' = fd_to_pfd_index s \<and> fd_to_fd_type s' = fd_to_fd_type s \<and>
     fd_to_client_index s' = fd_to_client_index s \<and> bind_fd_to_port s' = bind_fd_to_port s \<and>
     length (clients s') = length (clients s) \<and>
     (\<forall>i < length (clients s). same_cgi (clients s' ! i) (clients s ! i))"

lemma quiet_refl [simp]: "quiet s s"
  by (simp add: quiet_def)

lemma quiet_trans: "quiet s s' \<Longrightarrow> quiet s' s'' \<Longrightarrow> quiet s s''"
  unfolding quiet_def by (metis kept_trans)

lemma quiet_length: "quiet s s' \<Longrightarrow> length (clients s') = length (clients s)"
  by (simp add: quiet_def)

lemma quiet_ok:
  assumes "quiet s s'" "server_ok s"
  shows "server_ok s'"
proof (rule server_ok_quiet [OF assms(2)])
  show "same_fds (clients s' ! i) (clients s ! i)" if "i < length (clients s)" for i
    using that assms(1) by (simp add: quiet_def kept_def same_fds_fields)
qed (use assms(1) in \<open>simp_all add: quiet_def\<close>)

lemma quiet_client:
  assumes "quiet s s'" "i < length (clients s)"
  shows "same_cgi (clients s' ! i) (clients s ! i)"
  using assms by (simp add: quiet_def)

lemma quiet_settled:
  assumes "quiet s s'" "i < length (clients s)" "settled (clients s ! i)"
  shows "settled (clients s' ! i)"
  using quiet_client [OF assms(1,2)] assms(3) by (simp add: kept_def settled_def busy_cgi_def)

lemma quiet_thenS:
  assumes "quiet s (snd r)" "\<And>s'. quiet s s' \<Longrightarrow> quiet s (snd (f s'))"
  shows "quiet s (snd (thenS r f))"
  using assms by (cases r) (auto simp: thenS_def split: option.splits)

lemma quiet_assertS [simp]: "snd (assertS b s) = s"
  by (simp add: assertS_def)

lemma same_cgi_update: "same_cgi x (xs ! i) \<Longrightarrow> same_cgi (xs[i := x] ! j) (xs ! j)"
  by (cases "j = i"; cases "i < length xs") (auto simp: list_update_beyond)

lemma quiet_upd: "(\<And>c. same_cgi (f c) c) \<Longrightarrow> quiet s (upd_client i f s)"
  by (simp add: quiet_def upd_client_def same_cgi_update)

lemma quiet_onClient: "same_cgi (snd (f (clients s ! i))) (clients s ! i) \<Longrightarrow> quiet s (snd (onClient i f s))"
  by (simp add: quiet_def onClient_def Let_def same_cgi_update)

lemma quiet_onClientFiles:
  "(\<And>fs c. same_cgi (snd (snd (f (fs, c)))) c) \<Longrightarrow> quiet s (snd (onClientFiles i f s))"
  by (simp add: quiet_def onClientFiles_def split_beta same_cgi_update)

lemma quiet_event: "quiet s (enableEvent p ev s)" "quiet s (disableEvent p ev s)"
  by (simp_all add: quiet_def)

lemma quiet_enableWritingToClient: "quiet s (snd (enableWritingToClient i s))"
  by (auto simp: enableWritingToClient_def intro: quiet_trans [OF quiet_event(1) quiet_upd] split: option.splits)

lemma quiet_disableReading: "quiet s (snd (disableReadingFromClient i s))"
  by (auto simp: disableReadingFromClient_def intro: quiet_trans [OF quiet_event(2) quiet_upd] split: option.splits)

lemma quiet_after: "quiet s t \<Longrightarrow> (\<And>t. quiet t (snd (f t))) \<Longrightarrow> quiet s (snd (f t))"
  using quiet_trans by blast

lemma quiet_answer:
  "(\<And>c. same_cgi (snd (f c)) c) \<Longrightarrow> quiet s (snd (thenS (onClient i f s) (enableWritingToClient i)))"
  by (rule quiet_thenS [OF quiet_onClient]) (auto intro: quiet_after quiet_enableWritingToClient)

lemma quiet_answerFiles:
  "(\<And>fs c. same_cgi (snd (snd (f (fs, c)))) c) \<Longrightarrow>
     quiet s (snd (thenS (onClientFiles i f s) (enableWritingToClient i)))"
  by (rule quiet_thenS [OF quiet_onClientFiles]) (auto intro: quiet_after quiet_enableWritingToClient)

lemma quiet_withServer: "(\<And>server. quiet s (snd (k server))) \<Longrightarrow> quiet s (snd (withServer cfg i s k))"
  by (auto simp: withServer_def split: option.splits)

lemma quiet_respondDirectory: "quiet s (snd (respondDirectory location i s))"
  by (simp add: respondDirectory_def quiet_answer response_same quiet_upd)

section \<open>Handlers that close descriptors\<close>

lemma connection_open: "server_ok s \<Longrightarrow> i < length (clients s) \<Longrightarrow> client_fd (clients s ! i) \<noteq> - 1"
  using roles_okD(3) [OF server_okD(2)] by blast

lemma removeServerToCGIFd_keeps:
  assumes "server_ok s" "i < length (clients s)" "fd_of t (clients s ! i) = fd" "fd \<noteq> - 1"
  shows "server_ok (snd (removeServerToCGIFd fd s))"
proof -
  have "fd_of t (clients s ! i) \<noteq> - 1" using assms(3,4) by simp
  from removeServerToCGIFd_ok [OF assms(1,2) this] obtain s' where
    "removeServerToCGIFd (fd_of t (clients s ! i)) s = (None, s')" "server_ok s'" .
  then show ?thesis using assms(3) by simp
qed

lemma respondClientException_keeps:
  assumes ok: "server_ok s" and i: "i < length (clients s)"
  shows "server_ok (snd (respondClientException cfg st i s))"
proof -
  let ?s = "upd_client i (\<lambda>c. c\<lparr>status := st\<rparr>) s"
  have ok1: "server_ok ?s" by (rule quiet_ok [OF quiet_upd ok]) simp
  have fd: "fd_of CLIENT (clients ?s ! i) \<noteq> - 1" using connection_open [OF ok i] i by simp
  from killCGI_ok [OF ok1 _ fd] i obtain s1 where s1: "killCGI (client_fd (clients ?s ! i)) ?s = (None, s1)" "server_ok s1"
    by auto
  have "quiet s1 (snd (thenS (disableReadingFromClient i s1) (\<lambda>t. withServer cfg i t (\<lambda>server.
      thenS (onClient i (respondWithError (files t) (error_pages server)) t) (enableWritingToClient i)))))"
    by (rule quiet_thenS [OF quiet_disableReading])
      (rule quiet_trans, assumption, intro quiet_withServer quiet_answer response_same)
  from quiet_ok [OF this s1(2)] show ?thesis using s1(1) by (simp add: respondClientException_def Let_def)
qed

lemma cgiEnd_keeps:
  assumes ok: "server_ok s" and i: "i < length (clients s)"
  shows "server_ok (snd (cgiEnd cfg i s))"
proof -
  have "same_cgi (snd (prependResponseHeader (extractCGIDocumentResponseHeaders c))) c" for c
    by (intro response_same)
  then show ?thesis
    using respondClientException_keeps [OF ok i] quiet_ok [OF quiet_answer ok] by (simp add: cgiEnd_def)
qed

lemma pollhupCGIToServer_keeps:
  assumes ok: "server_ok s" and i: "i < length (clients s)" and fd: "cgi_to_server_fd (clients s ! i) \<noteq> - 1"
  shows "server_ok (snd (pollhupCGIToServer cfg (cgi_to_server_fd (clients s ! i)) s))"
proof -
  let ?fd = "cgi_to_server_fd (clients s ! i)"
  let ?s = "upd_client i (\<lambda>c. c\<lparr>client_to_server_state := C2S_DONE\<rparr>) s"
  have ok1: "server_ok ?s" by (rule quiet_ok [OF quiet_upd ok]) simp
  have i1: "i < length (clients ?s)" and fd1: "fd_of CGI_TO_SERVER (clients ?s ! i) = ?fd" using i by simp_all
  from removeServerToCGIFd_ok [OF ok1 i1, of CGI_TO_SERVER] fd fd1 obtain s1 where
    s1: "removeServerToCGIFd ?fd ?s = (None, s1)" "server_ok s1"
      "clients s1 = (clients ?s)[i := without_s2c (clients ?s ! i)]" by auto
  have i2: "i < length (clients s1)" and fd2: "fd_of CGI_TO_SERVER (clients s1 ! i) = ?fd"
    using s1(3) i by (simp_all add: without_s2c_def)
  from removeCGIToServerFd_ok [OF s1(2) i2, of CGI_TO_SERVER] fd fd2 obtain s2 where
    s2: "removeCGIToServerFd ?fd s1 = (None, s2)" "server_ok s2"
      "clients s2 = (clients s1)[i := without_c2s (clients s1 ! i)]" by auto
  have "server_ok (snd (if cgi_pid (clients s2 ! i) = - 1 then cgiEnd cfg i s2 else (None, s2)))"
    using cgiEnd_keeps [OF s2(2)] i2 s2(2,3) by simp
  then show ?thesis
    using getClient_role [OF ok i, of CGI_TO_SERVER] fd s1(1) s2(1) by (simp add: pollhupCGIToServer_def)
qed

text \<open>\<open>_removeClient\<close> on a client that has no open pipe to a script that is gone.\<close>

lemma removeClient_keeps:
  assumes "server_ok s" "i < length (clients s)" "settled (clients s ! i)"
  shows "server_ok (snd (removeClient (client_fd (clients s ! i)) s))"
    "fst (removeClient (client_fd (clients s ! i)) s) = None"
proof -
  obtain s' where "removeClient (client_fd (clients s ! i)) s = (None, s')" "server_ok s'"
    using removeClient_ok [OF assms(1,2) _ connection_open [OF assms(1,2)] assms(3), of CLIENT] by auto
  then show "server_ok (snd (removeClient (client_fd (clients s ! i)) s))"
    "fst (removeClient (client_fd (clients s ! i)) s) = None" by simp_all
qed

lemma handlePollerr_keeps:
  assumes ok: "server_ok s" and i: "i < length (clients s)" and fd: "fd_of t (clients s ! i) \<noteq> - 1"
    and settled: "t = CLIENT \<Longrightarrow> settled (clients s ! i)"
  shows "server_ok (snd (handlePollerr (fd_of t (clients s ! i)) t s))"
proof (cases t)
  case CLIENT
  then show ?thesis using removeClient_keeps [OF ok i] settled by (simp add: handlePollerr_def)
next
  case SERVER_TO_CGI
  then show ?thesis using removeServerToCGIFd_keeps [OF ok i refl fd] by (simp add: handlePollerr_def)
qed (use ok in \<open>simp_all add: handlePollerr_def\<close>)

section \<open>Writing\<close>

lemma quiet_writeString: "quiet s (writeString io fd msg s)"
  by (simp add: writeString_def quiet_def)

lemma quiet_write: "(\<And>c. same_cgi (f c) c) \<Longrightarrow> quiet s (writeString io fd msg (upd_client i f s))"
  using quiet_trans [OF quiet_upd quiet_writeString] by blast

lemma thenS_assertS [simp]: "thenS (assertS b s) f = (if b then f s else (Some Assertion, s))"
  by (simp add: assertS_def)

lemma writeToCGI_keeps:
  assumes ok: "server_ok s" and i: "i < length (clients s)" and fd: "server_to_cgi_fd (clients s ! i) \<noteq> - 1"
  shows "server_ok (snd (writeToCGI io i s))"
proof -
  let ?fd = "server_to_cgi_fd (clients s ! i)"
  have rm: "server_ok (snd (removeServerToCGIFd ?fd s'))" if q: "quiet s s'" for s'
  proof -
    have "i < length (clients s')" "fd_of SERVER_TO_CGI (clients s' ! i) = ?fd"
      using i quiet_length [OF q] quiet_client [OF q i] by (simp_all add: kept_def)
    from removeServerToCGIFd_keeps [OF quiet_ok [OF q ok] this fd] show ?thesis .
  qed
  have q: "quiet s (writeString io fd msg (upd_client i (\<lambda>c. c\<lparr>body_index := g c\<rparr>) s))" for fd msg g
    by (rule quiet_write) simp
  show ?thesis
    using rm [OF q] quiet_ok [OF q ok] ok by (simp add: writeToCGI_def Let_def)
qed

lemma writeToClient_keeps:
  assumes ok: "server_ok s" and i: "i < length (clients s)" and settled: "settled (clients s ! i)"
  shows "server_ok (snd (writeToClient io i s))"
proof -
  let ?fd = "client_fd (clients s ! i)"
  have rm: "server_ok (snd (removeClient ?fd s'))" if q: "quiet s s'" for s'
  proof -
    have "i < length (clients s')" "client_fd (clients s' ! i) = ?fd"
      using i quiet_length [OF q] quiet_client [OF q i] by (simp_all add: kept_def)
    with removeClient_keeps(1) [OF quiet_ok [OF q ok] _ quiet_settled [OF q i settled]] show ?thesis by metis
  qed
  have q: "quiet s (writeString io fd msg (upd_client i (\<lambda>c. c\<lparr>response_index := g c\<rparr>) s))" for fd msg g
    by (rule quiet_write) simp
  show ?thesis
    using rm [OF q] quiet_ok [OF q ok] ok by (simp add: writeToClient_def Let_def)
qed

lemma handlePollout_keeps:
  assumes ok: "server_ok s" and i: "i < length (clients s)"
    and fd: "fd_of t (clients s ! i) = fd" "fd \<noteq> - 1" and settled: "t = CLIENT \<Longrightarrow> settled (clients s ! i)"
  shows "server_ok (snd (handlePollout io fd t s))"
proof -
  have "getClient fd s k = k i" for k using getClient_role [OF ok i, of t] fd by simp
  then show ?thesis
    using writeToClient_keeps [OF ok i] writeToCGI_keeps [OF ok i] fd ok settled
    by (cases t) (simp_all add: handlePollout_def)
qed

section \<open>Reading\<close>

text \<open>
  The descriptors that the operating system hands out are in no table; not even the number of a
  listening socket that was shut down comes back, since \<open>_shutDownServers\<close> leaves its type behind.
\<close>

definition fresh_io :: "io_results \<Rightarrow> server \<Rightarrow> bool" where
  "fresh_io io s \<longleftrightarrow>
     (\<forall>fd \<in> {accepted_fd io, pipe_to_cgi io, pipe_from_cgi io}. fd \<noteq> - 1 \<and> fd_to_fd_type s fd = None) \<and>
     pipe_to_cgi io \<noteq> pipe_from_cgi io \<and> forked_pid io \<noteq> - 1"

definition unserved :: "client \<Rightarrow> bool" where
  "unserved c \<longleftrightarrow> server_to_cgi_fd c = - 1 \<and> cgi_to_server_fd c = - 1 \<and> \<not> cgi_killed c"

text \<open>The client \<open>i\<close> is still there, on the same connection.\<close>

definition stays :: "nat \<Rightarrow> server \<Rightarrow> server \<Rightarrow> bool" where
  "stays i s s' \<longleftrightarrow> server_ok s' \<and> i < length (clients s') \<and> client_fd (clients s' ! i) = client_fd (clients s ! i) \<and>
     (settled (clients s ! i) \<longrightarrow> settled (clients s' ! i))"

lemma quiet_stays:
  assumes "quiet s s'" "server_ok s" "i < length (clients s)"
  shows "stays i s s'"
  using quiet_ok [OF assms(1,2)] quiet_settled [OF assms(1,3)] quiet_length [OF assms(1)] quiet_client [OF assms(1,3)] assms(3)
  by (simp add: stays_def kept_def)

lemma quiet_unserved:
  assumes "quiet s s'" "i < length (clients s)" "unserved (clients s ! i)"
  shows "unserved (clients s' ! i)"
  using quiet_client [OF assms(1,2)] assms(3) by (simp add: kept_def unserved_def)

lemma startCGI_stays:
  assumes ok: "server_ok s" and i: "i < length (clients s)" "unserved (clients s ! i)" and io: "fresh_io io s"
  shows "stays i s (snd (startCGI (forked_pid io) (pipe_to_cgi io) (pipe_from_cgi io) i s))"
proof -
  have c: "server_to_cgi_fd (clients s ! i) = - 1" "cgi_to_server_fd (clients s ! i) = - 1"
    using i(2) by (simp_all add: unserved_def)
  have new: "fd_to_fd_type s (pipe_to_cgi io) = None" "pipe_to_cgi io \<noteq> - 1"
      "fd_to_fd_type s (pipe_from_cgi io) = None" "pipe_from_cgi io \<noteq> - 1" "pipe_to_cgi io \<noteq> pipe_from_cgi io"
    using io by (simp_all add: fresh_io_def)
  from startCGI_ok [OF ok i(1) c new, of "forked_pid io"] obtain s' where
    s': "startCGI (forked_pid io) (pipe_to_cgi io) (pipe_from_cgi io) i s = (None, s')" "server_ok s'"
      "length (clients s') = length (clients s)" "client_fd (clients s' ! i) = client_fd (clients s ! i)"
      "cgi_pid (clients s' ! i) = forked_pid io" "cgi_killed (clients s' ! i) = cgi_killed (clients s ! i)"
      "\<forall>j. j \<noteq> i \<longrightarrow> clients s' ! j = clients s ! j" .
  have "busy_cgi (clients s' ! i)" using s'(5,6) i(2) io by (simp add: busy_cgi_def unserved_def fresh_io_def)
  with s' i(1) show ?thesis by (simp add: stays_def settled_def)
qed

lemma respondRequest_stays:
  assumes ok: "server_ok s" and i: "i < length (clients s)" "unserved (clients s ! i)" and io: "fresh_io io s"
  shows "stays i s (snd (respondRequest cfg io i s))"
proof -
  have q: "stays i s s'" if "quiet s s'" for s' by (rule quiet_stays [OF that ok i(1)])
  have "stays i s (snd (respondPath io location i s))" for location
    using startCGI_stays [OF assms]
    by (simp add: respondPath_def q quiet_answer quiet_answerFiles response_same)
  moreover have "stays i s (snd (respondDirectory location i s))" for location by (rule q [OF quiet_respondDirectory])
  moreover have "stays i s (upd_client i (\<lambda>c. c\<lparr>redirect := x\<rparr>) s)" for x by (rule q [OF quiet_upd]) simp
  moreover have "stays i s s" by (rule q) simp
  ultimately show ?thesis
    by (auto simp: respondRequest_def withServer_def Let_def split: option.splits)
qed

text \<open>
  \<open>_readFd\<close>: either the client went, with the flag set and no exception, or it stays. A client that
  sends bytes has no script running; when it has one, the code starts a second one.
\<close>

lemma readFd_keeps:
  assumes ok: "server_ok s" and i: "i < length (clients s)" and io: "fresh_io io s"
    and settled: "t = CLIENT \<Longrightarrow> settled (clients s ! i)"
    and served: "t = CLIENT \<Longrightarrow> received io \<noteq> [] \<Longrightarrow> unserved (clients s ! i)"
  shows "server_ok (snd (snd (readFd cfg io i t s)))"
    and "fst (readFd cfg io i t s) \<Longrightarrow> fst (snd (readFd cfg io i t s)) \<in> {None, Some Assertion}"
    and "\<not> fst (readFd cfg io i t s) \<Longrightarrow> stays i s (snd (snd (readFd cfg io i t s)))"
proof -
  have q: "stays i s s'" if "quiet s s'" for s' by (rule quiet_stays [OF that ok i])
  show "fst (readFd cfg io i t s) \<Longrightarrow> fst (snd (readFd cfg io i t s)) \<in> {None, Some Assertion}"
    using removeClient_keeps(2) [OF ok i] settled by (auto simp: readFd_def split: if_splits)
  have request: "stays i s (snd (thenS (onClient i (appendReadString (received io)) s) (\<lambda>s.
      if client_to_server_state (clients s ! i) = C2S_DONE then respondRequest cfg io i s else (None, s))))"
    if u: "unserved (clients s ! i)"
  proof (cases "onClient i (appendReadString (received io)) s")
    case (Pair e s1)
    have "same_cgi (snd (appendReadString (received io) (clients s ! i))) (clients s ! i)"
      using kept_strict [OF appendReadString_same] u by (simp add: unserved_def)
    then have q1: "quiet s s1" using quiet_onClient [of "appendReadString (received io)" s i] Pair by simp
    note st = q [OF q1]
    have "fresh_io io s1" using io q1 by (simp add: fresh_io_def quiet_def)
    with st quiet_unserved [OF q1 i u] have "stays i s1 (snd (respondRequest cfg io i s1))"
      by (intro respondRequest_stays) (simp_all add: stays_def)
    with st Pair show ?thesis by (cases e) (simp_all add: stays_def)
  qed
  have cgi: "stays i s (upd_client i (\<lambda>c. c\<lparr>response := response c @ x\<rparr>) s)" for x by (rule q [OF quiet_upd]) simp
  show st: "stays i s (snd (snd (readFd cfg io i t s)))" if "\<not> fst (readFd cfg io i t s)"
    using that request served cgi q [OF quiet_refl] by (simp add: readFd_def split: if_splits)
  show "server_ok (snd (snd (readFd cfg io i t s)))"
    using st removeClient_keeps(1) [OF ok i] settled ok by (cases "received io = []"; cases "t = CLIENT") (simp_all add: readFd_def stays_def)
qed

lemma handlePollin_keeps:
  assumes ok: "server_ok s" and i: "i < length (clients s)" and io: "fresh_io io s"
    and settled: "t = CLIENT \<Longrightarrow> settled (clients s ! i)"
    and served: "t = CLIENT \<Longrightarrow> received io \<noteq> [] \<Longrightarrow> unserved (clients s ! i)"
    and fd: "fd_of t (clients s ! i) = fd" "fd \<noteq> - 1"
  shows "server_ok (snd (snd (handlePollin cfg io fd t s)))"
    and "\<not> fst (handlePollin cfg io fd t s) \<Longrightarrow> fst (snd (handlePollin cfg io fd t s)) = None \<Longrightarrow>
      stays i s (snd (snd (handlePollin cfg io fd t s)))"
proof -
  note r = readFd_keeps [where t = t and cfg = cfg, OF ok i io settled served]
  have ci: "fd_to_client_index s fd = Some i" using roles_okD(4) [OF server_okD(2) [OF ok] i, of t] fd by simp
  have t: "t \<noteq> SERVER" using fd by auto
  have "server_ok (snd (snd (handlePollin cfg io fd t s))) \<and>
    (\<not> fst (handlePollin cfg io fd t s) \<longrightarrow> fst (snd (handlePollin cfg io fd t s)) = None \<longrightarrow>
       stays i s (snd (snd (handlePollin cfg io fd t s))))"
  proof (cases "t = CLIENT \<or> t = CGI_TO_SERVER")
    case True
    obtain skip e s1 where rd: "readFd cfg io i t s = (skip, e, s1)" by (cases "readFd cfg io i t s") auto
    show ?thesis
    proof (cases "\<exists>st. e = Some (Respond st)")
      case True
      then obtain st where e: "e = Some (Respond st)" by auto
      with r(2) rd have "\<not> skip" by auto
      with r(3) rd have "stays i s s1" by simp
      then have "server_ok (snd (respondClientException cfg st i s1))"
        using respondClientException_keeps by (simp add: stays_def)
      with e rd ci i t \<open>t = CLIENT \<or> t = CGI_TO_SERVER\<close> show ?thesis by (auto simp: handlePollin_def)
    next
      case False
      then have "handlePollin cfg io fd t s = (skip, e, s1)"
        using rd ci i t \<open>t = CLIENT \<or> t = CGI_TO_SERVER\<close> by (auto simp: handlePollin_def split: option.splits server_error.splits)
      with r(1) r(3) rd show ?thesis by simp
    qed
  qed (use t ok in \<open>auto simp: handlePollin_def\<close>)
  then show "server_ok (snd (snd (handlePollin cfg io fd t s)))"
    and "\<not> fst (handlePollin cfg io fd t s) \<Longrightarrow> fst (snd (handlePollin cfg io fd t s)) = None \<Longrightarrow>
      stays i s (snd (snd (handlePollin cfg io fd t s)))" by blast+
qed

section \<open>One event\<close>

text \<open>
  What is expected at the event at position \<open>p\<close>: the descriptors that the system hands out are new, and
  when the event is on the connection of a client, this client has no open pipe to a script that has
  ended or was killed, and sends no bytes while its script is running.
\<close>

definition expected :: "io_results \<Rightarrow> nat \<Rightarrow> server \<Rightarrow> bool" where
  "expected io p s \<longleftrightarrow>
     fresh_io io s \<and>
     (\<forall>i < length (clients s). pfd_fd (pfds s ! p) = client_fd (clients s ! i) \<longrightarrow>
        settled (clients s ! i) \<and> (received io = [] \<or> unserved (clients s ! i)))"

lemma processEvents_client:
  assumes ok: "server_ok s" and i: "i < length (clients s)" and io: "fresh_io io s"
    and settled: "t = CLIENT \<Longrightarrow> settled (clients s ! i)"
    and served: "t = CLIENT \<Longrightarrow> received io \<noteq> [] \<Longrightarrow> unserved (clients s ! i)"
    and fd: "fd_of t (clients s ! i) = fd" "fd \<noteq> - 1"
  shows "server_ok (snd (processEvents cfg io p fd t s))"
proof -
  note pollin = handlePollin_keeps [where t = t and cfg = cfg, OF ok i io settled served fd]
  note pollout = handlePollout_keeps [OF ok i fd settled]
  obtain skip e s1 where r: "handlePollin cfg io fd t s = (skip, e, s1)" by (cases "handlePollin cfg io fd t s") auto
  have later: "server_ok (snd (handlePollout io fd t s1))" if "\<not> skip" "e = None"
  proof -
    have st: "stays i s s1" using pollin(2) r that by simp
    have ci: "getClient fd s1 k = (Some OutOfRangeAt, s1) \<or> getClient fd s1 k = (Some Undefined_Behaviour, s1) \<or>
        (\<exists>j. getClient fd s1 k = k j)" for k
      by (auto simp: getClient_def split: option.splits)
    show ?thesis
    proof (cases "t = CLIENT")
      case True
      with st fd settled show ?thesis by (intro handlePollout_keeps) (auto simp: stays_def)
    next
      case False
      have "t \<noteq> SERVER_TO_CGI" using r that by (auto simp: handlePollin_def split: if_splits)
      with False st ci [of "\<lambda>_. (Some Assertion, s1)"] show ?thesis
        by (auto simp: handlePollout_def stays_def)
    qed
  qed
  define after where "after = (\<lambda>skip s. if skip then (None, s) else if \<not> p < length (pfds s) then (Some Undefined_Behaviour, s)
      else if raised (revents (pfds s ! p)) POLLOUT then handlePollout io fd t s else (None, s))"
  have "server_ok s1" using pollin(1) r by simp
  with later have read: "server_ok (snd (thenS (e, s1) (after skip)))" by (cases e) (auto simp: after_def)
  have rest: "server_ok (snd (after False s))" using pollout ok by (simp add: after_def)
  have hup: "server_ok (snd (pollhupCGIToServer cfg fd s))" if "t = CGI_TO_SERVER"
    using pollhupCGIToServer_keeps [OF ok i] fd that by auto
  have err: "server_ok (snd (handlePollerr fd t s))" using handlePollerr_keeps [OF ok i, of t] fd settled by simp
  let ?ev = "revents (pfds s ! p)"
  have "processEvents cfg io p fd t s =
      (if raised ?ev POLLNVAL then (Some Assertion, s) else if raised ?ev POLLERR then handlePollerr fd t s
       else if raised ?ev POLLHUP \<and> t \<noteq> CGI_TO_SERVER then (Some Assertion, s)
       else if raised ?ev POLLHUP \<and> \<not> raised ?ev POLLIN then pollhupCGIToServer cfg fd s
       else if raised ?ev POLLIN then thenS (e, s1) (after skip) else after False s)"
    unfolding processEvents_def after_def r by simp
  with ok err hup read rest show ?thesis by auto
qed

lemma processEvents_server:
  assumes ok: "server_ok s" and t: "fd_to_fd_type s fd = Some SERVER" and io: "fresh_io io s"
  shows "server_ok (snd (processEvents cfg io p fd SERVER s))"
proof -
  obtain port where port: "bind_fd_to_port s fd = Some port"
    using tables_okD(4) [OF server_okD(1) [OF ok] t] by auto
  from acceptClient_ok [OF ok _ _ port, of "accepted_fd io" "max_body_size cfg"] io obtain s1 where
    s1: "acceptClient (max_body_size cfg) fd (accepted_fd io) s = (None, s1)" "server_ok s1"
    by (auto simp: fresh_io_def)
  have out: "server_ok (snd (handlePollout io fd SERVER s'))" if "server_ok s'" for s'
    using that by (auto simp: handlePollout_def getClient_def split: option.splits)
  show ?thesis using ok s1 out by (simp add: processEvents_def handlePollerr_def handlePollin_def)
qed

lemma processPfd_keeps:
  assumes ok: "server_ok s" and io: "expected io p s"
  shows "server_ok (snd (snd (processPfd cfg io p (seen, s))))"
proof (cases "p < length (pfds s) \<and> fd_to_fd_type s (pfd_fd (pfds s ! p)) \<noteq> None")
  case False
  then show ?thesis using ok by (auto simp: processPfd_def Let_def)
next
  case True
  then obtain t where t: "fd_to_fd_type s (pfd_fd (pfds s ! p)) = Some t" by auto
  let ?fd = "pfd_fd (pfds s ! p)"
  have io': "fresh_io io s" using io by (simp add: expected_def)
  have "server_ok (snd (processEvents cfg io p ?fd t s))"
  proof (cases "t = SERVER")
    case True
    with processEvents_server [OF ok _ io'] t show ?thesis by simp
  next
    case False
    from roles_okD(5) [OF server_okD(2) [OF ok] t False] obtain i where
      i: "i < length (clients s)" "fd_of t (clients s ! i) = ?fd" by auto
    have "?fd \<noteq> - 1" using roles_okD(1) [OF server_okD(2) [OF ok]] t by auto
    moreover have "settled (clients s ! i)" if "t = CLIENT" using io that i by (auto simp: expected_def)
    moreover have "unserved (clients s ! i)" if "t = CLIENT" "received io \<noteq> []"
      using io that i by (auto simp: expected_def)
    ultimately show ?thesis using processEvents_client [OF ok i(1) io' _ _ i(2)] by blast
  qed
  then have "server_ok (snd (thenS (printEvents ?fd t s) (processEvents cfg io p ?fd t)))"
    using ok by (auto simp: printEvents_def split: option.splits)
  with ok t True show ?thesis by (simp add: processPfd_def Let_def)
qed

section \<open>Reaped scripts and timeouts\<close>

text \<open>A client whose script has ended is removed only when its pipe to the script is closed: the assertions of
  the code see to that.\<close>

lemma reapClient_keeps:
  assumes ok: "server_ok s"
  shows "server_ok (snd (reapClient cfg pid exited s))"
proof -
  let ?s0 = "s\<lparr>unreaped_cgi_count := unreaped_cgi_count s - 1\<rparr>"
  have ok0: "server_ok ?s0" by (rule server_ok_quiet [OF ok]) (simp_all add: same_fds_def)
  have "server_ok (snd (reapClient cfg pid exited s))"
    if fd: "cgi_pid_to_client_fd s pid = Some fd" and i: "fd_to_client_index s fd = Some i" "i < length (clients s)" for fd i
  proof -
    let ?s1 = "?s0\<lparr>cgi_pid_to_client_fd := (cgi_pid_to_client_fd s)(cgi_pid (clients s ! i) := None)\<rparr>"
    let ?s2 = "upd_client i (\<lambda>c. c\<lparr>cgi_pid := - 1\<rparr>) ?s1"
    let ?s3 = "case exited of Some code \<Rightarrow> upd_client i (\<lambda>c. c\<lparr>cgi_exit_status := code\<rparr>) ?s2 | None \<Rightarrow> ?s2"
    have "server_ok ?s1" by (rule server_ok_quiet [OF ok0]) (simp_all add: same_fds_def)
    then have ok2: "server_ok ?s2" by (rule upd_client_ok) (simp add: same_fdsI)
    have ok3: "server_ok ?s3" using ok2 upd_client_ok [OF ok2] by (auto simp: same_fdsI split: option.split)
    have i3: "i < length (clients ?s3)" "fd_to_client_index ?s3 fd = Some i" "server_to_cgi_state (clients ?s3 ! i) = server_to_cgi_state (clients ?s2 ! i)"
      using i by (auto split: option.split)
    have remove: "server_ok (snd (removeClient fd ?s3))" if st: "server_to_cgi_state (clients ?s2 ! i) = S2CGI_DONE"
    proof (cases "fd = - 1")
      case False
      then obtain t where t: "fd_of t (clients ?s3 ! i) = fd" using index_role [OF ok3 _ i3(2)] by metis
      have "settled (clients ?s3 ! i)" using server_okD(3) [OF ok3 i3(1)] st i3(3) by (simp add: settled_def pipe_ok_def)
      from removeClient_ok [OF ok3 i3(1) t False this] show ?thesis by (metis snd_conv)
    qed (use ok3 in \<open>simp add: removeClient_def\<close>)
    have "reapClient cfg pid exited s =
        (if client_to_server_state (clients ?s2 ! i) \<noteq> C2S_DONE \<or> server_to_cgi_state (clients ?s2 ! i) \<noteq> S2CGI_DONE \<or>
            cgi_to_server_state (clients ?s2 ! i) = CGI2S_NOT_READING \<or> server_to_client_state (clients ?s2 ! i) \<noteq> S2C_NOT_WRITING
         then (Some Assertion, ?s2)
         else if being_removed (clients ?s3 ! i) then removeClient fd ?s3
         else if cgi_to_server_state (clients ?s3 ! i) = CGI2S_DONE then cgiEnd cfg i ?s3 else (None, ?s3))"
      using fd i by (cases exited) (simp_all add: reapClient_def Let_def)
    then show ?thesis using ok2 ok3 remove cgiEnd_keeps [OF ok3 i3(1)] by simp
  qed
  moreover have "server_ok (snd (reapClient cfg pid exited s))"
    if "\<nexists>fd i. cgi_pid_to_client_fd s pid = Some fd \<and> fd_to_client_index s fd = Some i \<and> i < length (clients s)"
    using that ok0 by (auto simp: reapClient_def Let_def split: option.split)
  ultimately show ?thesis by blast
qed

lemma reapChildCGIScripts_keeps: "server_ok s \<Longrightarrow> server_ok (snd (reapChildCGIScripts cfg ws s))"
proof (induction ws arbitrary: s)
  case (Cons w ws)
  let ?s = "if w = NoChild then s\<lparr>errno_is_ECHILD := True\<rparr> else s"
  have ok: "server_ok ?s" using Cons.prems by (simp add: server_ok_def tables_ok_def)
  have "server_ok (snd (thenS (reapClient cfg pid exited ?s) (reapChildCGIScripts cfg ws)))" for pid exited
    using reapClient_keeps [OF ok, of cfg pid exited] Cons.IH by (cases "reapClient cfg pid exited ?s"; cases "fst (reapClient cfg pid exited ?s)") auto
  with ok show ?case by (auto simp: Let_def split: wait_result.split)
qed simp

text \<open>The loop over the clients comes to every position once; the removal of a client changes its own position only.\<close>

lemma removeClient_others:
  assumes "server_ok s" "i < length (clients s)" "settled (clients s ! i)" "removeClient (client_fd (clients s ! i)) s = (e, s')"
    "j < length (clients s')" "j \<noteq> i"
  shows "j < length (clients s) \<and> clients s' ! j = clients s ! j"
proof -
  have fd: "fd_of CLIENT (clients s ! i) = client_fd (clients s ! i)" by simp
  obtain s'' where s'': "removeClient (client_fd (clients s ! i)) s = (None, s'')" "clients s'' =
       (if busy_cgi (clients s ! i)
        then (clients s)[i := without_c2s ((leaving (clients s ! i))\<lparr>cgi_killed := True\<rparr>)]
        else butlast ((clients s)[i := assign (clients s ! i) (last (clients s))]))"
    by (rule removeClient_ok [OF assms(1,2) fd connection_open [OF assms(1,2)] assms(3)]) blast
  have "s'' = s'" using s''(1) assms(4) by simp
  with s''(2) assms(5,6) show ?thesis by (cases "busy_cgi (clients s ! i)") (simp_all add: nth_butlast)
qed

lemma timeoutClients_keeps:
  "server_ok s \<Longrightarrow> distinct is \<Longrightarrow>
   (\<And>i. i \<in> set is \<Longrightarrow> i < length (clients s) \<Longrightarrow> expired (client_fd (clients s ! i)) \<Longrightarrow> settled (clients s ! i)) \<Longrightarrow>
   server_ok (snd (timeoutClients expired is s))"
proof (induction "is" arbitrary: s)
  case (Cons i "is")
  show ?case
  proof (cases "i < length (clients s) \<and> expired (client_fd (clients s ! i))")
    case True
    then have i: "i < length (clients s)" and st: "settled (clients s ! i)" using Cons.prems(3) by auto
    obtain s' where r: "removeClient (client_fd (clients s ! i)) s = (None, s')"
      using removeClient_keeps(2) [OF Cons.prems(1) i st] by (metis prod.collapse)
    have "server_ok s'" using removeClient_keeps(1) [OF Cons.prems(1) i st] r by simp
    moreover have "settled (clients s' ! j)" if "j \<in> set is" "j < length (clients s')" "expired (client_fd (clients s' ! j))" for j
    proof -
      have "j \<noteq> i" using that(1) Cons.prems(2) by auto
      from removeClient_others [OF Cons.prems(1) i st r that(2) this] show ?thesis using that Cons.prems(3) [of j] by simp
    qed
    ultimately show ?thesis using Cons.IH [of s'] Cons.prems(2) True r by simp
  qed (use Cons in auto)
qed simp

text \<open>A \<open>poll\<close> that timed out: the clients that have sent nothing for too long are expected to have no
  open pipe to a script that has ended or was killed, after the reaping.\<close>

definition expected_timeout :: "config \<Rightarrow> wait_result list \<Rightarrow> (int \<Rightarrow> bool) \<Rightarrow> server \<Rightarrow> bool" where
  "expected_timeout cfg reaped expired s \<longleftrightarrow>
     (let s' = (if unreaped_cgi_count s > 0 then snd (reapChildCGIScripts cfg reaped s) else s)
      in \<forall>i < length (clients s'). expired (client_fd (clients s' ! i)) \<longrightarrow> settled (clients s' ! i))"

lemma handleTimeout_keeps:
  assumes ok: "server_ok s" and expected: "expected_timeout cfg reaped expired s"
  shows "server_ok (snd (handleTimeout cfg reaped expired s))"
proof -
  define r where "r = (if unreaped_cgi_count s > 0 then reapChildCGIScripts cfg reaped s else (None, s))"
  have "server_ok (snd r)" using ok reapChildCGIScripts_keeps by (simp add: r_def)
  moreover have "settled (clients (snd r) ! i)" if "i < length (clients (snd r))" "expired (client_fd (clients (snd r) ! i))" for i
    using expected that by (auto simp: expected_timeout_def r_def Let_def split: if_splits)
  ultimately have "server_ok (snd (thenS r (\<lambda>s. timeoutClients expired [0..<length (clients s)] s)))"
    using timeoutClients_keeps [of "snd r" "[0..<length (clients (snd r))]" expired] by (cases r; cases "fst r") auto
  with ok show ?thesis by (simp add: handleTimeout_def r_def)
qed

section \<open>From the constructor on\<close>

lemma bindSocket_ok:
  assumes ok: "server_ok s" "clients s = []" and new: "fd_to_fd_type s fd = None" "fd \<noteq> - 1"
  obtains s' where "bindSocket (fd, info, is) s = (None, s')" "server_ok s'" "clients s' = []"
    "\<forall>f. fd_to_fd_type s' f = None \<longleftrightarrow> f \<noteq> fd \<and> fd_to_fd_type s f = None"
proof
  let ?s1 = "s\<lparr>bind_fd_to_server_indices := emplace_map fd is (bind_fd_to_server_indices s),
    bind_fd_to_port := emplace_map fd (to_dec (unat (ntohs (snd info)))) (bind_fd_to_port s)\<rparr>"
  let ?s = "pushPfd SERVER POLLIN fd ?s1"
  note t = tables_okD [OF server_okD(1) [OF ok(1)]] and r = server_okD(2) [OF ok(1)]
  have idx: "indexed (polled ?s1) (fd_to_pfd_index ?s1)" "fd_to_pfd_index ?s1 fd = None" using t(1) t(2) [OF new(1)] by simp_all
  show "bindSocket (fd, info, is) s = (None, ?s)" using new(2) by (simp add: bindSocket_def addFd_def Let_def)
  have "fd_to_fd_type ?s = (fd_to_fd_type s)(fd \<mapsto> SERVER)" "fd_to_pfd_index ?s = (fd_to_pfd_index s)(fd \<mapsto> length (polled s))"
    "bind_fd_to_port ?s fd \<noteq> None" "\<And>f. f \<noteq> fd \<Longrightarrow> bind_fd_to_port ?s f = bind_fd_to_port s f"
    using new(1) polled.add_pos [OF idx(2)] by (simp_all add: pushPfd_def emplace_map_def)
  moreover have "indexed (polled ?s) (fd_to_pfd_index ?s)" by (rule polled.add_indexed [OF idx])
  ultimately have "tables_ok ?s" using t(2-4) unfolding tables_ok_def by (auto split: if_splits)
  moreover have "roles_ok ((fd_to_fd_type s)(fd \<mapsto> SERVER)) (fd_to_client_index s) (clients s)"
    using roles_okD [OF r] new ok(2) by (intro roles_okI) (auto split: if_splits)
  ultimately show "server_ok ?s" using new(1) ok(2) by (simp add: server_ok_def pushPfd_def emplace_map_def)
  show "clients ?s = []" using ok(2) by (simp add: pushPfd_def)
  show "\<forall>f. fd_to_fd_type ?s f = None \<longleftrightarrow> f \<noteq> fd \<and> fd_to_fd_type s f = None"
    using new(1) by (simp add: pushPfd_def emplace_map_def)
qed

lemma bindSockets_ok:
  "server_ok s \<Longrightarrow> clients s = [] \<Longrightarrow> distinct (map fst es) \<Longrightarrow>
     \<forall>fd \<in> set (map fst es). fd \<noteq> - 1 \<and> fd_to_fd_type s fd = None \<Longrightarrow>
     \<exists>s'. bindSockets es s = (None, s') \<and> server_ok s' \<and> clients s' = []"
proof (induction es arbitrary: s)
  case (Cons e es)
  obtain fd info "is" where e: "e = (fd, info, is)" by (cases e) auto
  from Cons.prems e have "fd_to_fd_type s fd = None" "fd \<noteq> - 1" by auto
  from bindSocket_ok [OF Cons.prems(1,2) this] obtain s1 where
    s1: "bindSocket e s = (None, s1)" "server_ok s1" "clients s1 = []"
      "\<forall>f. fd_to_fd_type s1 f = None \<longleftrightarrow> f \<noteq> fd \<and> fd_to_fd_type s f = None" unfolding e by blast
  have "\<forall>f \<in> set (map fst es). f \<noteq> - 1 \<and> fd_to_fd_type s1 f = None"
    using Cons.prems(3,4) s1(4) e by auto
  with Cons.IH [OF s1(2,3)] Cons.prems(3) s1(1) show ?case by simp
qed simp

lemma initial_server_ok: "server_ok (initial_server fs)"
  by (simp add: server_ok_def tables_ok_def roles_ok_def indexed_def initial_server_def)

lemma startServer_ok:
  assumes "distinct fds" "- 1 \<notin> set fds"
  shows "\<exists>s. startServer cfg fds fs = (None, s) \<and> server_ok s"
proof -
  let ?es = "zip fds (bind_info_to_server_indices cfg)"
  have "map fst ?es = take (length (bind_info_to_server_indices cfg)) fds" by (simp add: map_fst_zip_take min_def)
  then have d: "distinct (map fst ?es)" and "set (map fst ?es) \<subseteq> set fds"
    using assms(1) by (simp_all add: set_take_subset)
  then have "\<forall>fd \<in> set (map fst ?es). fd \<noteq> - 1 \<and> fd_to_fd_type (initial_server fs) fd = None"
    using assms(2) by (auto simp: initial_server_def)
  moreover have "clients (initial_server fs) = []" by (simp add: initial_server_def)
  ultimately show ?thesis unfolding startServer_def using bindSockets_ok [OF initial_server_ok _ d] by blast
qed

text \<open>
  The server at work: \<open>poll\<close> reports events, an event is handled at some position, a \<open>poll\<close> that timed
  out reaps the scripts that have ended and removes the clients that were silent for too long, and a
  signal shuts the listening sockets down. The system calls may fail and the handlers may end with any
  exception, which leaves the state as it was at the throw.
\<close>

inductive serving :: "config \<Rightarrow> server \<Rightarrow> server \<Rightarrow> bool" for cfg :: config where
  poll: "length evs = length (pfds s) \<Longrightarrow>
    serving cfg s (s\<lparr>pfds := map2 (\<lambda>p ev. p\<lparr>revents := ev\<rparr>) (pfds s) evs\<rparr>)"
| event: "expected io p s \<Longrightarrow> serving cfg s (snd (snd (processPfd cfg io p (seen, s))))"
| timed_out: "expected_timeout cfg reaped expired s \<Longrightarrow> serving cfg s (snd (handleTimeout cfg reaped expired s))"
| shut_down: "serving cfg s (shutDownServers fds s)"

lemma serving_ok: "serving cfg s s' \<Longrightarrow> server_ok s \<Longrightarrow> server_ok s'"
proof (induction rule: serving.induct)
  case (poll evs s)
  have "map pfd_fd (map2 (\<lambda>p ev. p\<lparr>revents := ev\<rparr>) (pfds s) evs) = map pfd_fd (pfds s)"
    using poll(1) by (intro nth_equalityI) simp_all
  then show ?case by (intro server_ok_quiet [OF poll(2)]) (simp_all add: same_fds_def)
qed (simp_all add: processPfd_keeps handleTimeout_keeps shutDownServers_ok)

interpretation served: step_invariant "serving cfg" server_ok for cfg
  by unfold_locales (rule serving_ok)

lemma server_ok_reach:
  assumes ok: "server_ok s" and p: "p < length (pfds s)"
  shows "\<exists>t. fd_to_pfd_index s (pfd_fd (pfds s ! p)) = Some p \<and> fd_to_fd_type s (pfd_fd (pfds s ! p)) = Some t \<and>
    (if t = SERVER then bind_fd_to_port s (pfd_fd (pfds s ! p)) \<noteq> None
     else \<exists>i < length (clients s). fd_to_client_index s (pfd_fd (pfds s ! p)) = Some i \<and> fd_of t (clients s ! i) = pfd_fd (pfds s ! p))"
proof -
  let ?fd = "pfd_fd (pfds s ! p)"
  note tab = tables_okD [OF server_okD(1) [OF ok]] and r = server_okD(2) [OF ok]
  have idx: "fd_to_pfd_index s ?fd = Some p" using tab(1) p by (simp add: indexed_def)
  with tab(2) [of ?fd] have "fd_to_fd_type s ?fd \<noteq> None" by auto
  then obtain t where t: "fd_to_fd_type s ?fd = Some t" by auto
  have "?fd \<noteq> - 1" using roles_okD(1) [OF r] t by auto
  with roles_okD(4) [OF r] roles_okD(5) [OF r t] tab(4) [of ?fd] t have
    "if t = SERVER then bind_fd_to_port s ?fd \<noteq> None
     else \<exists>i < length (clients s). fd_to_client_index s ?fd = Some i \<and> fd_of t (clients s ! i) = ?fd"
    by (cases "t = SERVER") (simp, metis)
  with idx t show ?thesis by blast
qed

text \<open>
  C1: from the constructor on, after any sequence of polls, events, timeouts with the reaping of scripts and
  the removal of silent clients, and shutdowns, in any order and with any exceptions on the way, every
  polled descriptor is at the position that \<open>_fd_to_pfd_index\<close> has for it and has a type; a listening
  socket has its port, and every other descriptor leads through \<open>_fd_to_client_index\<close> to the client that
  has exactly this descriptor in exactly this role. So no event is handled for the wrong client. The
  sequences are restricted by \<open>expected\<close> and \<open>expected_timeout\<close>: a descriptor that the system hands out is in
  no table and is not the number of a listening socket that was shut down, no client sends bytes while
  it has a script or after its script was killed, and a client with an open pipe to a script that has ended
  or was killed has no event on its connection and does not time out. \<open>Server_Faults\<close> shows what the code
  does otherwise.
\<close>

theorem events_reach_their_client:
  assumes "distinct bind_fds" "- 1 \<notin> set bind_fds" "(serving cfg)\<^sup>*\<^sup>* (snd (startServer cfg bind_fds fs)) s"
    "p < length (pfds s)" "fd = pfd_fd (pfds s ! p)"
  shows "fst (startServer cfg bind_fds fs) = None \<and>
    (\<exists>t. fd_to_pfd_index s fd = Some p \<and> fd_to_fd_type s fd = Some t \<and>
      (if t = SERVER then bind_fd_to_port s fd \<noteq> None
       else \<exists>i < length (clients s). fd_to_client_index s fd = Some i \<and> fd_of t (clients s ! i) = fd))"
proof -
  from startServer_ok [OF assms(1,2), of cfg fs] obtain s0 where s0: "startServer cfg bind_fds fs = (None, s0)" "server_ok s0"
    by blast
  from served.run_inv [OF assms(3)] s0 have "server_ok s" by simp
  from server_ok_reach [OF this assms(4)] show ?thesis unfolding assms(5) using s0(1) by simp
qed

text \<open>A server on one address, a \<open>poll\<close> that reports a connection, and its event.\<close>

definition demo_config :: config where
  "demo_config =
     \<lparr>connection_queue_length = 10, max_body_size = 100, poll_timeout_ms = 100, client_timeout_ms = 1000,
      servers = [], bind_info_to_server_indices = [((0x0100007F, 0x901F), [0])]\<rparr>"

definition demo_files :: filesystem where
  "demo_files = \<lparr>regular = (\<lambda>_. None), directory = (\<lambda>_. None), creatable = (\<lambda>_. True), canonical = (\<lambda>f. f)\<rparr>"

definition demo_io :: io_results where
  "demo_io = \<lparr>accepted_fd = 4, received = [], write_result = 0, forked_pid = 100, pipe_to_cgi = 5, pipe_from_cgi = 6\<rparr>"

definition demo_polled :: server where
  "demo_polled =
     (let s = snd (startServer demo_config [3] demo_files)
      in s\<lparr>pfds := map2 (\<lambda>p ev. p\<lparr>revents := ev\<rparr>) (pfds s) [POLLIN]\<rparr>)"

definition demo_server :: server where
  "demo_server = snd (snd (processPfd demo_config demo_io 0 ({}, demo_polled)))"

theorem events_reach_their_client_witness:
  "polled demo_server = [3, 4] \<and> length (clients demo_server) = 1 \<and>
   (\<exists>t. fd_to_pfd_index demo_server 4 = Some 1 \<and> fd_to_fd_type demo_server 4 = Some t \<and>
     (if t = SERVER then bind_fd_to_port demo_server 4 \<noteq> None
      else \<exists>i < length (clients demo_server). fd_to_client_index demo_server 4 = Some i \<and>
        fd_of t (clients demo_server ! i) = 4))"
proof -
  let ?s0 = "snd (startServer demo_config [3] demo_files)"
  note start = startServer_def bindSocket_def addFd_def pushPfd_def emplace_map_def initial_server_def demo_config_def
  have s0: "pfds ?s0 = [\<lparr>pfd_fd = 3, events = POLLIN, revents = 0\<rparr>]" "clients ?s0 = []"
    "fd_to_pfd_index ?s0 = [3 \<mapsto> 0]" "fd_to_fd_type ?s0 = [3 \<mapsto> SERVER]" "bind_fd_to_port ?s0 \<noteq> (\<lambda>_. None)"
    "fd_to_client_index ?s0 = (\<lambda>_. None)" "\<exists>port. bind_fd_to_port ?s0 3 = Some port"
    by (simp_all add: start)
  have s1: "pfds demo_polled = [\<lparr>pfd_fd = 3, events = POLLIN, revents = POLLIN\<rparr>]" "clients demo_polled = []"
    "fd_to_pfd_index demo_polled = [3 \<mapsto> 0]" "fd_to_fd_type demo_polled = [3 \<mapsto> SERVER]"
    "fd_to_client_index demo_polled = (\<lambda>_. None)" "\<exists>port. bind_fd_to_port demo_polled 3 = Some port"
    using s0 by (simp_all add: demo_polled_def Let_def)
  have "serving demo_config ?s0 demo_polled"
    using serving.poll [of "[POLLIN]" ?s0 demo_config] s0 by (simp add: demo_polled_def Let_def)
  moreover have "expected demo_io 0 demo_polled"
    using s1 by (simp add: expected_def fresh_io_def demo_io_def)
  then have "serving demo_config demo_polled demo_server" unfolding demo_server_def by (rule serving.event)
  ultimately have run: "(serving demo_config)\<^sup>*\<^sup>* ?s0 demo_server" by simp
  have s2: "polled demo_server = [3, 4]" "length (clients demo_server) = 1"
    using s1 by (auto simp: demo_server_def processPfd_def printEvents_def processEvents_def handlePollin_def handlePollout_def
        acceptClient_def addClientFd_def addFd_def pushPfd_def emplace_map_def demo_io_def Let_def getClient_def mk_client_def
        split: option.splits)
  then have "length (pfds demo_server) = 2" "pfd_fd (pfds demo_server ! 1) = 4"
    by (metis length_map length_Cons list.size(3) numeral_2_eq_2, metis length_map length_Cons list.size(3) nth_map nth_Cons_0 nth_Cons_Suc One_nat_def lessI)
  with s2 events_reach_their_client [of "[3]" demo_config demo_files demo_server 1 4] run show ?thesis by simp
qed

end
