(* ===== verification/Server_Write.thy ===== *)
theory Server_Write
  imports Server_Keep
begin

text \<open>
  Sending a response: \<open>_writeToClient\<close> is called at every \<open>POLLOUT\<close> until the response is sent, in
  pieces of at most \<open>MAX_CLIENT_WRITE_LEN\<close> bytes. When the socket takes every piece as a whole, the
  client gets exactly the rest of the response, in order, and its connection is closed.
\<close>

section \<open>Operations that write nothing\<close>

text \<open>What was written, the scripts that are waited for, and \<open>errno\<close>.\<close>

definition untouched :: "server \<Rightarrow> (int \<times> string) list \<times> (int \<Rightarrow> int option) \<times> bool" where
  "untouched s = (sent s, cgi_pid_to_client_fd s, errno_is_ECHILD s)"

lemma untouched_record [simp]:
  "untouched (s\<lparr>clients := x_0\<rparr>) = untouched s"
  "untouched (s\<lparr>pfds := x_1\<rparr>) = untouched s"
  "untouched (s\<lparr>fd_to_client_index := x_2\<rparr>) = untouched s"
  "untouched (s\<lparr>fd_to_pfd_index := x_3\<rparr>) = untouched s"
  "untouched (s\<lparr>fd_to_fd_type := x_4\<rparr>) = untouched s"
  "untouched (s\<lparr>closed := x_5\<rparr>) = untouched s"
  "untouched (s\<lparr>killed := x_6\<rparr>) = untouched s"
  by (simp_all add: untouched_def)

lemma untouched_thenS: "untouched (snd r) = x \<Longrightarrow> (\<And>s. untouched s = x \<Longrightarrow> untouched (snd (f s)) = x) \<Longrightarrow> untouched (snd (thenS r f)) = x"
  by (cases r) (auto simp: thenS_def split: option.splits)

lemma untouched_upd [simp]: "untouched (upd_client i f s) = untouched s"
  by (simp add: upd_client_def)

lemma untouched_getClient: "(\<And>i. untouched (snd (k i)) = untouched s) \<Longrightarrow> untouched (snd (getClient fd s k)) = untouched s"
  by (simp add: getClient_def split: option.split)

lemma untouched_removeClientFd: "untouched (snd (removeClientFd fd s)) = untouched s"
  by (simp add: removeClientFd_def removeFd_def dropPfd_def Let_def split: option.split)

lemma untouched_removeCGIToServerFd: "untouched (snd (removeCGIToServerFd fd s)) = untouched s"
  unfolding removeCGIToServerFd_def thenS_assertS
  by (simp, intro impI untouched_getClient) (simp, intro impI untouched_thenS [OF untouched_removeClientFd], simp)

lemma untouched_killCGI: "untouched (snd (killCGI fd s)) = untouched s"
  unfolding killCGI_def by (rule untouched_getClient) (simp add: Let_def untouched_removeCGIToServerFd)

lemma untouched_disableReading: "untouched (snd (disableReadingFromClient i s)) = untouched s"
  by (simp add: disableReadingFromClient_def disableEvent_def split: option.split)

lemma untouched_dropClient: "untouched (snd (dropClient i s)) = untouched s"
proof (cases "fd_to_client_index s (client_fd (clients s ! i))")
  case (Some ci)
  show ?thesis unfolding dropClient_def Let_def Some option.case
    by (rule untouched_thenS) (simp_all add: untouched_removeClientFd)
qed (simp add: dropClient_def)

lemma untouched_removeClient: "untouched (snd (removeClient fd s)) = untouched s"
proof -
  have "untouched (snd (thenS (removeCGIToServerFd fd s') (dropClient i))) = untouched s'" for i s'
    by (rule untouched_thenS [OF untouched_removeCGIToServerFd]) (simp add: untouched_dropClient)
  then have "untouched (snd (thenS (disableReadingFromClient i (upd_client i (\<lambda>c. c\<lparr>being_removed := True\<rparr>) s)) (\<lambda>s.
      if \<not> cgi_killed (clients s ! i) \<and> cgi_pid (clients s ! i) \<noteq> - 1 then killCGI fd s
      else thenS (removeCGIToServerFd fd s) (dropClient i)))) = untouched s" for i
    by (intro untouched_thenS) (simp_all add: untouched_disableReading untouched_killCGI)
  then show ?thesis by (simp add: removeClient_def untouched_getClient)
qed

section \<open>One piece\<close>

definition unsent :: "client \<Rightarrow> string" where
  "unsent c = drop (response_index c) (response c)"

definition whole_piece :: "client \<Rightarrow> io_results \<Rightarrow> io_results" where
  "whole_piece c io = io\<lparr>write_result := int (min (length (unsent c)) MAX_CLIENT_WRITE_LEN)\<rparr>"

definition advance :: "client \<Rightarrow> client" where
  "advance c = c\<lparr>response_index := response_index c + min (length (unsent c)) MAX_CLIENT_WRITE_LEN\<rparr>"

definition after_piece :: "nat \<Rightarrow> server \<Rightarrow> server" where
  "after_piece i s =
     (let c = clients s ! i
      in (upd_client i advance s)\<lparr>sent := sent s @ [(client_fd c, take MAX_CLIENT_WRITE_LEN (unsent c))]\<rparr>)"

lemma writeToClient_piece:
  assumes "i < length (clients s)" "server_to_client_state (clients s ! i) = S2C_WRITING" "unsent (clients s ! i) \<noteq> []"
  shows "writeToClient (whole_piece (clients s ! i) io) i s =
    (if length (unsent (clients s ! i)) \<le> MAX_CLIENT_WRITE_LEN then removeClient (client_fd (clients s ! i)) (after_piece i s)
     else (None, after_piece i s))"
proof -
  let ?c = "clients s ! i"
  let ?len = "min (length (response ?c) - response_index ?c) MAX_CLIENT_WRITE_LEN"
  have len: "?len > 0" "response_index ?c < length (response ?c)"
    using assms(3) by (simp_all add: unsent_def MAX_CLIENT_WRITE_LEN_def)
  have tk: "take (min (length xs) n) xs = take n xs" for xs :: string and n by (simp add: min_def)
  have "substr (response ?c) (response_index ?c) ?len = take MAX_CLIENT_WRITE_LEN (unsent ?c)"
    by (simp add: substr_def unsent_def min_def)
  then have w: "writeString (whole_piece ?c io) (client_fd ?c) (substr (response ?c) (response_index ?c) ?len)
      (upd_client i (\<lambda>c. c\<lparr>response_index := response_index c + ?len\<rparr>) s) = after_piece i s"
    using len tk [of "drop (response_index ?c) (response ?c)"]
    by (simp add: writeString_def whole_piece_def after_piece_def Let_def upd_client_def advance_def unsent_def)
  have idx: "response_index (clients (after_piece i s) ! i) = response_index ?c + ?len"
    using assms(1) by (simp add: after_piece_def Let_def advance_def unsent_def)
  have fin: "response_index ?c + ?len = length (response ?c) \<longleftrightarrow> length (unsent ?c) \<le> MAX_CLIENT_WRITE_LEN"
    using len(2) by (auto simp: unsent_def min_def)
  have res: "write_result (whole_piece ?c io) \<noteq> - 1" "write_result (whole_piece ?c io) \<noteq> 0"
    using len by (simp_all add: whole_piece_def unsent_def)
  show ?thesis unfolding writeToClient_def thenS_assertS Let_def w idx fin
    using assms(2) len(1) res by simp
qed

lemma quiet_after_piece: "quiet s (after_piece i s)"
proof -
  have "quiet s (upd_client i advance s)" by (rule quiet_upd) (simp add: advance_def)
  then show ?thesis by (simp add: after_piece_def Let_def quiet_def)
qed

section \<open>The whole response\<close>

fun sendPieces :: "io_results \<Rightarrow> nat \<Rightarrow> nat \<Rightarrow> server \<Rightarrow> server_outcome" where
  "sendPieces io 0 i s = (None, s)"
| "sendPieces io (Suc n) i s = thenS (writeToClient (whole_piece (clients s ! i) io) i s) (sendPieces io n i)"

definition pieces_of :: "string \<Rightarrow> nat" where
  "pieces_of text = (length text + MAX_CLIENT_WRITE_LEN - 1) div MAX_CLIENT_WRITE_LEN"

lemma pieces_of_step:
  assumes "text \<noteq> []"
  shows "pieces_of text = Suc (pieces_of (drop MAX_CLIENT_WRITE_LEN text))"
proof -
  have "(n + m - 1) div m = Suc ((n - m + m - 1) div m)" if "0 < n" "0 < m" for n m :: nat
  proof -
    have e: "n + m - 1 = m + (n - 1)" using that by simp
    have "(n + m - 1) div m = Suc ((n - 1) div m)" unfolding e using that(2) by (simp add: div_add_self1)
    moreover have "(n - m + m - 1) div m = (n - 1) div m" using that by (cases "n \<le> m") simp_all
    ultimately show ?thesis by simp
  qed
  from this [of "length text" MAX_CLIENT_WRITE_LEN] assms show ?thesis by (simp add: pieces_of_def MAX_CLIENT_WRITE_LEN_def)
qed

lemma pieces_of_Nil: "pieces_of [] = 0"
  by (simp add: pieces_of_def MAX_CLIENT_WRITE_LEN_def)

text \<open>The client goes with the last piece; until then it stays in its place.\<close>

lemma sendPieces_sends:
  assumes "server_ok s" "i < length (clients s)" "server_to_client_state (clients s ! i) = S2C_WRITING"
    "unsent (clients s ! i) \<noteq> []" "\<not> busy_cgi (clients s ! i)" "server_to_cgi_fd (clients s ! i) = - 1"
  shows "\<exists>s' pieces. sendPieces io (pieces_of (unsent (clients s ! i))) i s = (None, s') \<and>
    sent s' = sent s @ map (Pair (client_fd (clients s ! i))) pieces \<and> concat pieces = unsent (clients s ! i) \<and>
    server_ok s' \<and> clients s' = butlast ((clients s)[i := assign (clients s ! i) (last (clients s))]) \<and>
    closed s' = closed s @ filter (\<lambda>fd. fd \<noteq> - 1) [cgi_to_server_fd (clients s ! i), client_fd (clients s ! i)] \<and>
    fd_to_pfd_index s' (client_fd (clients s ! i)) = None \<and> fd_to_client_index s' (client_fd (clients s ! i)) = None"
  using assms
proof (induction "length (unsent (clients s ! i))" arbitrary: s rule: less_induct)
  case less
  let ?c = "clients s ! i"
  let ?s = "after_piece i s"
  let ?p = "take MAX_CLIENT_WRITE_LEN (unsent ?c)"
  have q: "quiet s ?s" by (rule quiet_after_piece)
  have ok: "server_ok ?s" by (rule quiet_ok [OF q less.prems(1)])
  have cs: "clients ?s = (clients s)[i := advance ?c]" and sent: "sent ?s = sent s @ [(client_fd ?c, ?p)]"
    and cl: "closed ?s = closed s"
    by (simp_all add: after_piece_def Let_def upd_client_def)
  have i: "i < length (clients ?s)" and c: "clients ?s ! i = advance ?c" using cs less.prems(2) by simp_all
  have adv: "client_fd (advance ?c) = client_fd ?c" "cgi_to_server_fd (advance ?c) = cgi_to_server_fd ?c" "server_to_client_state (advance ?c) = S2C_WRITING"
    "\<not> busy_cgi (advance ?c)" "server_to_cgi_fd (advance ?c) = - 1"
    "assign (advance ?c) x = assign ?c x" for x
    using less.prems by (simp_all add: advance_def busy_cgi_def assign_def)
  have lst: "butlast ((clients ?s)[i := assign (clients ?s ! i) (last (clients ?s))]) =
      butlast ((clients s)[i := assign ?c (last (clients s))])"
  proof (cases "i = length (clients s) - 1")
    case True
    then show ?thesis using less.prems(2) cs by (simp add: butlast_list_update)
  next
    case False
    then have "last (clients ?s) = last (clients s)"
      using less.prems(2) cs by (metis last_list_update length_0_conv not_less0)
    then show ?thesis using cs c adv by simp
  qed
  note step = writeToClient_piece [OF less.prems(2-4), of io]
  note n = pieces_of_step [OF less.prems(4)]
  show ?case
  proof (cases "length (unsent ?c) \<le> MAX_CLIENT_WRITE_LEN")
    case True
    have fd: "fd_of CLIENT (clients ?s ! i) = client_fd ?c" and settled: "settled (clients ?s ! i)"
      and idle: "\<not> busy_cgi (clients ?s ! i)" using c adv by (simp_all add: settled_def)
    obtain s' where rm: "removeClient (client_fd ?c) ?s = (None, s')" "server_ok s'"
        "clients s' = butlast ((clients ?s)[i := assign (clients ?s ! i) (last (clients ?s))])"
        "closed s' = closed ?s @ filter (\<lambda>fd. fd \<noteq> - 1) [cgi_to_server_fd (clients ?s ! i), client_fd (clients ?s ! i)]"
        "fd_to_pfd_index s' (client_fd (clients ?s ! i)) = None" "fd_to_client_index s' (client_fd (clients ?s ! i)) = None"
      using removeClient_ok [OF ok i fd connection_open [OF less.prems(1,2)] settled] idle by metis
    note s' = rm(1,2) rm(3) [unfolded lst] rm(4-6) [unfolded c adv(1,2) cl]
    have "sent s' = sent s @ [(client_fd ?c, unsent ?c)]"
      using untouched_removeClient [of "client_fd ?c" ?s] s'(1) sent True by (simp add: untouched_def)
    moreover have "sendPieces io (pieces_of (unsent ?c)) i s = (None, s')"
      using n True step s'(1) by (simp add: pieces_of_Nil)
    ultimately show ?thesis using s'(2-6) by (intro exI [of _ s'] exI [of _ "[unsent ?c]"]) simp
  next
    case False
    have r: "unsent (advance ?c) = drop MAX_CLIENT_WRITE_LEN (unsent ?c)"
      using False by (simp add: advance_def unsent_def min_def add.commute)
    have "length (unsent (clients ?s ! i)) < length (unsent ?c)" "unsent (clients ?s ! i) \<noteq> []"
      using False by (simp_all add: c r MAX_CLIENT_WRITE_LEN_def)
    from less.hyps [OF this(1) ok i _ this(2)] c adv obtain s' ps where
      s': "sendPieces io (pieces_of (unsent (advance ?c))) i ?s = (None, s')"
        "sent s' = sent ?s @ map (Pair (client_fd ?c)) ps" "concat ps = unsent (advance ?c)" "server_ok s'"
        "clients s' = butlast ((clients ?s)[i := assign (clients ?s ! i) (last (clients ?s))])"
        "closed s' = closed ?s @ filter (\<lambda>fd. fd \<noteq> - 1) [cgi_to_server_fd ?c, client_fd ?c]"
        "fd_to_pfd_index s' (client_fd ?c) = None" "fd_to_client_index s' (client_fd ?c) = None" by auto
    have "sendPieces io (pieces_of (unsent ?c)) i s = (None, s')" using n False step s'(1) r by simp
    moreover have "concat (?p # ps) = unsent ?c" using s'(3) r by simp
    ultimately show ?thesis using s' sent cl lst by (intro exI [of _ s'] exI [of _ "?p # ps"]) simp
  qed
qed

text \<open>
  C3: a response is delivered as a whole and its connection closed. Take a client that is being written
  to, that has no running script and no open pipe to one. As many calls of \<open>_writeToClient\<close> as the rest of
  the response has pieces, on a socket that takes every piece as a whole, hand
  exactly the rest of the response to the connection of that client, in order and nothing else to
  anyone. With the last piece the descriptor of the connection is closed, after the pipe
  from the script if that was still open, and no other descriptor is; it is no longer polled and leads to no
  client; the client is gone from the table, the other clients are still there,
  and the tables agree.
\<close>

theorem response_delivered:
  assumes "server_ok s" "i < length (clients s)" "server_to_client_state (clients s ! i) = S2C_WRITING"
    "unsent (clients s ! i) \<noteq> []" "\<not> busy_cgi (clients s ! i)" "server_to_cgi_fd (clients s ! i) = - 1"
  shows "\<exists>s' pieces. sendPieces io (pieces_of (unsent (clients s ! i))) i s = (None, s') \<and>
    sent s' = sent s @ map (Pair (client_fd (clients s ! i))) pieces \<and> concat pieces = unsent (clients s ! i) \<and>
    server_ok s' \<and> clients s' = butlast ((clients s)[i := assign (clients s ! i) (last (clients s))]) \<and>
    closed s' = closed s @ filter (\<lambda>fd. fd \<noteq> - 1) [cgi_to_server_fd (clients s ! i), client_fd (clients s ! i)] \<and>
    fd_to_pfd_index s' (client_fd (clients s ! i)) = None \<and> fd_to_client_index s' (client_fd (clients s ! i)) = None"
  by (rule sendPieces_sends [OF assms])

definition demo_client :: client where
  "demo_client = (mk_client 4 3 ''8080'' 100)\<lparr>response := ''HTTP/1.1 200 OK'', server_to_client_state := S2C_WRITING\<rparr>"

definition demo_writing :: server where
  "demo_writing = (initial_server demo_files)\<lparr>clients := [demo_client],
     pfds := [\<lparr>pfd_fd = 4, events = POLLOUT, revents = POLLOUT\<rparr>],
     fd_to_pfd_index := [4 \<mapsto> 0], fd_to_fd_type := [4 \<mapsto> CLIENT], fd_to_client_index := [4 \<mapsto> 0]\<rparr>"

theorem response_delivered_witness:
  "\<exists>s' pieces. sendPieces demo_io (pieces_of (unsent demo_client)) 0 demo_writing = (None, s') \<and>
    sent s' = map (Pair 4) pieces \<and> concat pieces = ''HTTP/1.1 200 OK'' \<and> server_ok s' \<and> clients s' = [] \<and>
    closed s' = [4] \<and> fd_to_pfd_index s' 4 = None \<and> fd_to_client_index s' 4 = None"
proof -
  have c: "clients demo_writing = [demo_client]" "sent demo_writing = []" "closed demo_writing = []"
    by (simp_all add: demo_writing_def initial_server_def)
  have roles: "fd_of t demo_client = (if t = CLIENT then 4 else - 1)" for t
    by (cases t) (simp_all add: demo_client_def mk_client_def)
  have "pipe_ok demo_client" by (simp add: pipe_ok_def demo_client_def mk_client_def)
  then have "server_ok demo_writing"
    by (auto simp: server_ok_def tables_ok_def roles_ok_def indexed_def demo_writing_def initial_server_def roles
        demo_client_def [THEN arg_cong, of client_fd] mk_client_def split: if_splits)
  moreover have "unsent demo_client = ''HTTP/1.1 200 OK''" "client_fd demo_client = 4"
    "server_to_client_state demo_client = S2C_WRITING" "\<not> busy_cgi demo_client" "server_to_cgi_fd demo_client = - 1"
    "cgi_to_server_fd demo_client = - 1"
    by (simp_all add: unsent_def demo_client_def mk_client_def busy_cgi_def)
  ultimately show ?thesis using response_delivered [of demo_writing 0 demo_io] c by simp
qed

end
