(* ===== verification/Server_Faults.thy ===== *)
theory Server_Faults
  imports Server_Write
begin

text \<open>
  Where the server does not do what it means to do. The events below are the ones that \<open>expected\<close>
  in \<open>Server_Keep\<close> rules out, the timeout of a connection, and a descriptor number that comes back after a shutdown. Each lemma follows the code to the
  exception, the assertion or the access behind the end of a vector that it runs into.
\<close>

section \<open>Bytes behind a request\<close>

text \<open>
  Reading goes on after a request is complete, to see the end of the connection. When more bytes
  arrive while the answer is still being sent, the request is answered a second time, and the
  assertion that there is no answer yet fails.
\<close>

lemma more_bytes_assert:
  assumes "i < length (clients s)" "c = clients s ! i" "received io \<noteq> []"
    and "client_to_server_state c = C2S_DONE" "server_to_client_state c \<noteq> S2C_DONE" "response c \<noteq> []"
    and "bind_fd_to_server_indices s (server_fd c) = Some is" "getServerIndex (servers cfg) is (server_name c) = Some si"
    and "si < length (servers cfg)"
    and "location = resolveToLocation (files s) (request_target c) (locations (servers cfg ! si))"
    and "resolved location" "\<not> has_redirect location" "isAllowedMethod location GET" "request_method c = GET"
    and "\<not> ends_with (path location) (CHR ''/'')" "\<not> is_directory (files s) (path location)" "\<not> is_cgi_directory location"
  shows "readFd cfg io i CLIENT s = (False, Some Assertion, s)"
proof -
  have "onClient i (appendReadString (received io)) s = (None, s)"
    using assms(1-4) by (simp add: onClient_def appendReadString_def)
  moreover have "onClient i (respondWithFile (files s) (path location)) s = (Some Assertion, s)"
    using assms(1,2,6) by (simp add: onClient_def respondWithFile_def assertEmptyResponse_def)
  ultimately show ?thesis
    using assms by (simp add: readFd_def respondRequest_def withServer_def Let_def respondPath_def)
qed

text \<open>With a running script, the same bytes start a second script for the client: the descriptors
  of the first one stay in the tables, but no client has them any more.\<close>

lemma more_bytes_second_script:
  assumes "i < length (clients s)" "c = clients s ! i" "received io \<noteq> []"
    and "client_to_server_state c = C2S_DONE" "server_to_client_state c \<noteq> S2C_DONE"
    and "bind_fd_to_server_indices s (server_fd c) = Some is" "getServerIndex (servers cfg) is (server_name c) = Some si"
    and "si < length (servers cfg)"
    and "location = resolveToLocation (files s) (request_target c) (locations (servers cfg ! si))"
    and "resolved location" "\<not> has_redirect location" "isAllowedMethod location (request_method c)"
    and "\<not> ends_with (path location) (CHR ''/'')" "\<not> is_directory (files s) (path location)" "is_cgi_directory location"
  shows "readFd cfg io i CLIENT s =
    (False, startCGI (forked_pid io) (pipe_to_cgi io) (pipe_from_cgi io) i s)"
proof -
  have "onClient i (appendReadString (received io)) s = (None, s)"
    using assms(1-4) by (simp add: onClient_def appendReadString_def)
  then show ?thesis
    using assms by (simp add: readFd_def respondRequest_def withServer_def Let_def respondPath_def)
qed

section \<open>A killed script outlives its client\<close>

text \<open>
  \<open>_removeClient\<close> keeps a client until its script is reaped, unless the script was killed already,
  which is what answering with an error does. Then the script is still in \<open>_cgi_pid_to_client_fd\<close>,
  and reaping it raises \<open>std::out_of_range\<close>, which nobody catches.
\<close>

lemma reap_after_removal:
  assumes "server_ok s" "i < length (clients s)" "c = clients s ! i"
    and "cgi_killed c" "server_to_cgi_fd c = - 1" "cgi_pid_to_client_fd s pid = Some (client_fd c)" "\<not> errno_is_ECHILD s"
    and "removeClient (client_fd c) s = (None, s')"
  shows "fst (reapChildCGIScripts cfg (Reaped pid exited # ws) s') = Some OutOfRangeAt"
proof -
  have idle: "\<not> busy_cgi (clients s ! i)" "server_to_cgi_fd (clients s ! i) = - 1"
    using assms(3-5) by (simp_all add: busy_cgi_def)
  then have fd: "fd_of CLIENT (clients s ! i) = client_fd (clients s ! i)" and settled: "settled (clients s ! i)"
    by (simp_all add: settled_def)
  obtain s2 where
    "removeClient (client_fd (clients s ! i)) s = (None, s2)"
    "busy_cgi (clients s ! i) \<or> fd_to_client_index s2 (client_fd (clients s ! i)) = None"
    using removeClient_ok [OF assms(1,2) fd connection_open [OF assms(1,2)] settled] by metis
  with idle(1) assms(3,8) have "fd_to_client_index s' (client_fd c) = None" by simp
  moreover have "cgi_pid_to_client_fd s' = cgi_pid_to_client_fd s" "errno_is_ECHILD s' = errno_is_ECHILD s"
    using untouched_removeClient [of "client_fd c" s] assms(8) by (simp_all add: untouched_def)
  ultimately show ?thesis using assms(6,7) by (simp add: reapClient_def Let_def thenS_def)
qed

section \<open>Timeouts\<close>

text \<open>
  The loop over the clients goes on to the end that the vector had before a client was removed, so
  it reads behind the end as soon as a client other than the last one times out.
\<close>

lemma timeout_rest:
  assumes "length (clients s) = n" "k \<le> n" "\<forall>j. k \<le> j \<and> j < n \<longrightarrow> \<not> expired (client_fd (clients s ! j))"
  shows "timeoutClients expired [k..<Suc n] s = (Some Undefined_Behaviour, s)"
  using assms(2,3)
proof (induction "n - k" arbitrary: k)
  case 0
  then have "[k..<Suc n] = [n]" by simp
  then show ?case using assms(1) by (simp only: timeoutClients.simps) simp
next
  case (Suc d)
  then have k: "k < n" "d = n - Suc k" by auto
  then have "[k..<Suc n] = k # [Suc k..<Suc n]" by (intro upt_conv_Cons) simp
  then show ?case using Suc.hyps(1) [OF k(2)] Suc.prems k(1) assms(1) by (simp only: timeoutClients.simps) simp
qed

lemma timeout_past_end:
  assumes "server_ok s" "length (clients s) = Suc (Suc n)" "expired (client_fd (clients s ! 0))"
    and "\<not> busy_cgi (clients s ! 0)" "server_to_cgi_fd (clients s ! 0) = - 1"
    and "\<forall>j. 0 < j \<and> j < length (clients s) \<longrightarrow> \<not> expired (client_fd (clients s ! j))"
  shows "fst (timeoutClients expired [0..<length (clients s)] s) = Some Undefined_Behaviour"
proof -
  have i: "0 < length (clients s)" using assms(2) by simp
  have fd: "fd_of CLIENT (clients s ! 0) = client_fd (clients s ! 0)" and settled: "settled (clients s ! 0)"
    using assms(5) by (simp_all add: settled_def)
  obtain s' where
    s': "removeClient (client_fd (clients s ! 0)) s = (None, s')"
      "clients s' = butlast ((clients s)[0 := assign (clients s ! 0) (last (clients s))])"
    using removeClient_ok [OF assms(1) i fd connection_open [OF assms(1) i] settled] assms(4) by metis
  have len: "length (clients s') = Suc n" using s'(2) assms(2) by simp
  have "\<not> expired (client_fd (clients s' ! j))" if "1 \<le> j" "j < Suc n" for j
    using that s'(2) assms(2,6) by (simp add: nth_butlast)
  with timeout_rest [OF len, of 1 expired] have
    "timeoutClients expired [1..<Suc (Suc n)] s' = (Some Undefined_Behaviour, s')" by simp
  moreover have "[0..<length (clients s)] = 0 # [1..<Suc (Suc n)]" using assms(2) by (simp add: upt_conv_Cons)
  ultimately show ?thesis using s'(1) assms(2,3) by simp
qed

section \<open>The number of a socket that was shut down\<close>

text \<open>
  \<open>_shutDownServers\<close> closes a listening socket but leaves its type in \<open>_fd_to_fd_type\<close>. The system may hand
  the number out again, for the pipe of a script of a client that is still being served; \<open>emplace\<close> does not
  replace the type, so that the events of the pipe are handled as those of a listening socket.
\<close>

lemma reused_socket_type:
  assumes "fd_to_fd_type s fd = Some SERVER" "fd_to_pfd_index s fd = Some p" "fd \<noteq> - 1"
    and "addClientFd fd i t ev (shutDownServers [fd] s) = (e, s')"
  shows "e = None \<and> fd_to_pfd_index s' fd \<noteq> None \<and> fd_to_fd_type s' fd = Some SERVER"
  using assms by (auto simp: shutDownServers_def addClientFd_def addFd_def pushPfd_def emplace_map_def dropPfd_def Let_def)

end
