(* ===== verification/Server_Cgi.thy ===== *)
theory Server_Cgi
  imports Server_Route
begin

text \<open>
  What a CGI script is started with: the arguments and the environment of \<open>_execveChild\<close> in
  \<open>src/src/Server.cpp\<close>. \<open>unordered_map\<close> lists its entries in any order, so the entries of the
  headers come as an argument, and so does the current directory. A script reads its environment
  with \<open>getenv\<close>, the first entry whose name matches. What reaches it are C strings, which end at the
  first null character; the lemmas show that a request header can
  never stand in for a variable of the server.
\<close>

section \<open>Arguments and environment\<close>

fun getRequestMethodString :: "RequestMethod \<Rightarrow> string option" where
  "getRequestMethodString NONE = None"
| "getRequestMethodString GET = Some ''GET''"
| "getRequestMethodString POST = Some ''POST''"
| "getRequestMethodString DELETE = Some ''DELETE''"

text \<open>The C string that \<open>c_str()\<close> points to, as its reader sees it.\<close>

definition c_str :: "string \<Rightarrow> string" where
  "c_str s = takeWhile (\<lambda>ch. ch \<noteq> CHR 0x00) s"

definition execveChild_argv :: "ResolvedLocation \<Rightarrow> string list" where
  "execveChild_argv location =
     [c_str (execve_path location), c_str (path location), c_str (path_info location)]"

text \<open>\<open>None\<close> is the assertion of \<open>getRequestMethodString\<close>.\<close>

definition execveChild_headers ::
  "string \<Rightarrow> (string \<times> string) list \<Rightarrow> ResolvedLocation \<Rightarrow> client \<Rightarrow> string list option" where
  "execveChild_headers cwd entries location c =
     (case getRequestMethodString (request_method c) of
        None \<Rightarrow> None
      | Some request_method' \<Rightarrow> Some (
          map (\<lambda>(key, v). ''HTTP_'' @ key @ ''='' @ v) entries @
          [''REQUEST_METHOD='' @ request_method', ''SCRIPT_NAME='' @ path location,
           ''PATH_INFO='' @ path_info location, ''QUERY_STRING='' @ query_string location,
           ''CONTENT_LENGTH='' @ to_dec (unat (content_length c)), ''CONTENT_TYPE='' @ content_type c,
           ''SERVER_NAME='' @ unuppercased_server_name c, ''SERVER_PORT='' @ server_port c,
           ''GATEWAY_INTERFACE=CGI/1.1'', ''PATH_TRANSLATED='' @ cwd @ path_info location,
           ''SERVER_PROTOCOL=HTTP/1.1'', ''AUTH_TYPE='', ''REMOTE_ADDR='', ''REMOTE_HOST='', ''REMOTE_IDENT='',
           ''REMOTE_USER='', ''SERVER_SOFTWARE='']))"

text \<open>\<open>_getCGIEnv\<close>: the pointers to the strings, with the null pointer behind them.\<close>

definition getCGIEnv :: "string list \<Rightarrow> string option list" where
  "getCGIEnv cgi_headers = map (\<lambda>cgi_header. Some (c_str cgi_header)) cgi_headers @ [None]"

section \<open>What the script finds\<close>

fun getenv :: "string \<Rightarrow> string option list \<Rightarrow> string option" where
  "getenv name (Some entry # env) =
     (if take (length name + 1) entry = name @ ''='' then Some (drop (length name + 1) entry) else getenv name env)"
| "getenv name _ = None"

definition server_variable :: "string \<Rightarrow> bool" where
  "server_variable name \<longleftrightarrow> take 5 (name @ ''='') \<noteq> take (length name + 1) ''HTTP_''"

lemma c_str_append: "CHR 0x00 \<notin> set xs \<Longrightarrow> c_str (xs @ ys) = xs @ c_str ys"
  unfolding c_str_def by (rule takeWhile_append2) auto

lemma c_str_equals: "c_str (CHR ''='' # ys) = CHR ''='' # c_str ys"
  by (simp add: c_str_def)

lemma c_str_id: "CHR 0x00 \<notin> set xs \<Longrightarrow> c_str xs = xs"
  using c_str_append [of xs "[]"] by (simp add: c_str_def)

lemma getenv_skip:
  assumes "\<forall>e \<in> set es. take (length name + 1) (c_str e) \<noteq> name @ ''=''"
  shows "getenv name (map (\<lambda>e. Some (c_str e)) es @ env) = getenv name env"
  using assms by (induction es) auto

lemma header_entry_differs:
  assumes "server_variable name"
  shows "take (length name + 1) (''HTTP_'' @ xs) \<noteq> name @ ''=''"
proof
  assume "take (length name + 1) (''HTTP_'' @ xs) = name @ ''=''"
  then have "take 5 (name @ ''='') = take 5 (take (length name + 1) (''HTTP_'' @ xs))" by simp
  also have "\<dots> = take (length name + 1) (take 5 (''HTTP_'' @ xs))" by (simp only: take_take min.commute)
  also have "\<dots> = take (length name + 1) ''HTTP_''" by simp
  finally show False using assms by (simp add: server_variable_def)
qed

lemma getenv_server:
  assumes "server_variable name"
  shows "getenv name (map (\<lambda>e. Some (c_str e)) (map (\<lambda>(key, v). ''HTTP_'' @ key @ ''='' @ v) entries) @ env) = getenv name env"
proof (rule getenv_skip, rule ballI)
  fix e
  assume "e \<in> set (map (\<lambda>(key, v). ''HTTP_'' @ key @ ''='' @ v) entries)"
  then obtain key v where e: "e = ''HTTP_'' @ (key @ ''='' @ v)" by auto
  have "c_str e = ''HTTP_'' @ c_str (key @ ''='' @ v)" unfolding e by (rule c_str_append) simp
  then show "take (length name + 1) (c_str e) \<noteq> name @ ''=''" using header_entry_differs [OF assms] by simp
qed

lemma upto_equals: "CHR ''='' \<notin> set xs \<Longrightarrow> takeWhile (\<lambda>ch. ch \<noteq> CHR ''='') (xs @ CHR ''='' # ys) = xs"
  by (induction xs) auto

text \<open>The entry of another header does not match: it has no equals sign behind the name.\<close>

lemma other_entry_differs:
  assumes "CHR ''='' \<notin> set k" "CHR ''='' \<notin> set key" "k \<noteq> key"
  shows "take (Suc (length key)) (k @ ''='' @ w) \<noteq> key @ ''=''"
proof
  assume eq: "take (Suc (length key)) (k @ ''='' @ w) = key @ ''=''"
  have "length k \<le> length key"
  proof (rule ccontr)
    assume "\<not> length k \<le> length key"
    with eq have "take (Suc (length key)) k = key @ ''=''" by simp
    then have "CHR ''='' \<in> set k" by (metis in_set_takeD in_set_conv_decomp)
    with assms(1) show False ..
  qed
  then have "take (Suc (length key)) (k @ ''='' @ w) = k @ CHR ''='' # take (length key - length k) w"
    by (simp add: Suc_diff_le)
  with eq upto_equals [OF assms(1)] upto_equals [OF assms(2), of "[]"] assms(3) show False by metis
qed

lemma c_str_other_entry:
  assumes "CHR ''='' \<notin> set k" "CHR ''='' \<notin> set key" "k \<noteq> key"
  shows "take (Suc (length key)) (c_str (k @ ''='' @ w)) \<noteq> key @ ''=''"
proof (cases "CHR 0x00 \<in> set k")
  case True
  then have "c_str (k @ ''='' @ w) = takeWhile (\<lambda>ch. ch \<noteq> CHR 0x00) k"
    unfolding c_str_def by (intro takeWhile_append1) auto
  with assms(1) have "CHR ''='' \<notin> set (take (Suc (length key)) (c_str (k @ ''='' @ w)))"
    by (auto dest!: in_set_takeD set_takeWhileD)
  then show ?thesis by (metis in_set_conv_decomp)
next
  case False
  then have "c_str (k @ ''='' @ w) = k @ ''='' @ c_str w" by (simp add: c_str_append c_str_equals)
  with other_entry_differs [OF assms] show ?thesis by simp
qed

lemma getenv_header:
  assumes "map_of entries key = Some v" "\<forall>k \<in> fst ` set entries. CHR ''='' \<notin> set k" "CHR 0x00 \<notin> set key"
  shows "getenv (''HTTP_'' @ key) (map (\<lambda>e. Some (c_str e)) (map (\<lambda>(key, v). ''HTTP_'' @ key @ ''='' @ v) entries) @ env)
    = Some (c_str v)"
  using assms
proof (induction entries)
  case (Cons kv entries)
  obtain k w where kv: "kv = (k, w)" by (cases kv)
  have nokey: "CHR ''='' \<notin> set key" using Cons.prems by (auto dest!: map_of_SomeD split: if_splits)
  have http: "c_str (''HTTP_'' @ k @ ''='' @ w) = ''HTTP_'' @ c_str (k @ ''='' @ w)" by (rule c_str_append) simp
  show ?case
  proof (cases "k = key")
    case True
    then have "c_str (k @ ''='' @ w) = k @ ''='' @ c_str w" using Cons.prems(3) by (simp add: c_str_append c_str_equals)
    with True Cons.prems(1) kv http show ?thesis by simp
  next
    case False
    have "CHR ''='' \<notin> set k" using Cons.prems(2) kv by simp
    from c_str_other_entry [OF this nokey False] False Cons kv http show ?thesis by simp
  qed
qed simp

text \<open>
  C8: whatever headers a request has and in whatever order they are listed, the CGI script finds in
  its environment exactly what the server says about the request, its method, script name, path,
  query, length, type, server name and port, each up to the first null character it may hold, and no
  header can stand in for one of these variables. When no header has an equals sign in its name,
  every header whose name has no null character is found under its name behind \<open>HTTP_\<close>, with its
  value up to the first null character.
\<close>

theorem cgi_environment:
  assumes "execveChild_headers cwd entries location c = Some cgi_headers"
  defines "env \<equiv> getCGIEnv cgi_headers"
  shows "getenv ''REQUEST_METHOD'' env = getRequestMethodString (request_method c) \<and>
    getenv ''SCRIPT_NAME'' env = Some (c_str (path location)) \<and>
    getenv ''PATH_INFO'' env = Some (c_str (path_info location)) \<and>
    getenv ''QUERY_STRING'' env = Some (c_str (query_string location)) \<and>
    getenv ''CONTENT_LENGTH'' env = Some (to_dec (unat (content_length c))) \<and>
    getenv ''CONTENT_TYPE'' env = Some (c_str (content_type c)) \<and>
    getenv ''SERVER_NAME'' env = Some (c_str (unuppercased_server_name c)) \<and>
    getenv ''SERVER_PORT'' env = Some (c_str (server_port c)) \<and>
    ((\<forall>k \<in> fst ` set entries. CHR ''='' \<notin> set k) \<longrightarrow>
      (\<forall>key v. map_of entries key = Some v \<and> CHR 0x00 \<notin> set key \<longrightarrow> getenv (''HTTP_'' @ key) env = Some (c_str v)))"
proof -
  obtain m vars where m: "getRequestMethodString (request_method c) = Some m"
    and env: "env = map (\<lambda>e. Some (c_str e)) (map (\<lambda>(key, v). ''HTTP_'' @ key @ ''='' @ v) entries) @ vars"
    and vars: "vars = map (\<lambda>e. Some (c_str e))
      [''REQUEST_METHOD='' @ m, ''SCRIPT_NAME='' @ path location,
       ''PATH_INFO='' @ path_info location, ''QUERY_STRING='' @ query_string location,
       ''CONTENT_LENGTH='' @ to_dec (unat (content_length c)), ''CONTENT_TYPE='' @ content_type c,
       ''SERVER_NAME='' @ unuppercased_server_name c, ''SERVER_PORT='' @ server_port c,
       ''GATEWAY_INTERFACE=CGI/1.1'', ''PATH_TRANSLATED='' @ cwd @ path_info location,
       ''SERVER_PROTOCOL=HTTP/1.1'', ''AUTH_TYPE='', ''REMOTE_ADDR='', ''REMOTE_HOST='', ''REMOTE_IDENT='',
       ''REMOTE_USER='', ''SERVER_SOFTWARE=''] @ [None]"
    using assms by (auto simp: execveChild_headers_def getCGIEnv_def comp_def split_def split: option.splits)
  have server: "server_variable name \<Longrightarrow> getenv name env = getenv name vars" for name
    unfolding env by (rule getenv_server)
  have dec: "c_str (to_dec n) = to_dec n" for n
    using to_dec_digits [of n] by (intro c_str_id) (auto simp: list_all_iff is_digit_def)
  have "c_str m = m" using m by (cases "request_method c") (auto simp: c_str_def)
  then have vs: "getenv ''REQUEST_METHOD'' env = Some m" "getenv ''SCRIPT_NAME'' env = Some (c_str (path location))"
    "getenv ''PATH_INFO'' env = Some (c_str (path_info location))"
    "getenv ''QUERY_STRING'' env = Some (c_str (query_string location))"
    "getenv ''CONTENT_LENGTH'' env = Some (to_dec (unat (content_length c)))"
    "getenv ''CONTENT_TYPE'' env = Some (c_str (content_type c))"
    "getenv ''SERVER_NAME'' env = Some (c_str (unuppercased_server_name c))"
    "getenv ''SERVER_PORT'' env = Some (c_str (server_port c))"
    by (subst server; simp add: server_variable_def vars c_str_def dec [unfolded c_str_def])+
  have "(\<forall>k \<in> fst ` set entries. CHR ''='' \<notin> set k) \<longrightarrow>
      (\<forall>key v. map_of entries key = Some v \<and> CHR 0x00 \<notin> set key \<longrightarrow> getenv (''HTTP_'' @ key) env = Some (c_str v))"
    unfolding env using getenv_header by blast
  with vs show ?thesis unfolding m by blast
qed

theorem cgi_environment_witness:
  "let c = (mk_client 4 3 ''8080'' 100)\<lparr>request_method := GET, unuppercased_server_name := ''localhost''\<rparr>;
       location = unresolved\<lparr>path := ''cgis/a.py'', query_string := ''?x=1''\<rparr>;
       env = getCGIEnv (the (execveChild_headers ''/srv'' [(''SERVER_NAME'', ''evil''), (''HOST'', ''localhost'')] location c))
   in getenv ''SERVER_NAME'' env = Some ''localhost'' \<and> getenv ''QUERY_STRING'' env = Some ''?x=1'' \<and>
      getenv ''HTTP_SERVER_NAME'' env = Some ''evil''"
proof -
  let ?c = "(mk_client 4 3 ''8080'' 100)\<lparr>request_method := GET, unuppercased_server_name := ''localhost''\<rparr>"
  let ?l = "unresolved\<lparr>path := ''cgis/a.py'', query_string := ''?x=1''\<rparr>"
  let ?e = "[(''SERVER_NAME'', ''evil''), (''HOST'', ''localhost'')]"
  have r: "request_method ?c = GET" "unuppercased_server_name ?c = ''localhost''" "query_string ?l = ''?x=1''" by simp_all
  then obtain hs where hs: "execveChild_headers ''/srv'' ?e ?l ?c = Some hs" by (simp add: execveChild_headers_def)
  have "\<forall>k \<in> fst ` set ?e. CHR ''='' \<notin> set k"
    "map_of ?e ''SERVER_NAME'' = Some ''evil'' \<and> CHR 0x00 \<notin> set ''SERVER_NAME''"
    "c_str ''evil'' = ''evil''" "c_str ''localhost'' = ''localhost''" "c_str ''?x=1'' = ''?x=1''"
    by (simp_all add: c_str_def)
  with cgi_environment [OF hs] r have
    "getenv ''SERVER_NAME'' (getCGIEnv hs) = Some ''localhost''" "getenv ''QUERY_STRING'' (getCGIEnv hs) = Some ''?x=1''"
    "getenv (''HTTP_'' @ ''SERVER_NAME'') (getCGIEnv hs) = Some ''evil''" by metis+
  then show ?thesis unfolding Let_def hs by simp
qed

end
