(* ===== verification/Search_Index.thy ===== *)
theory Search_Index
  imports Js "HOL-Library.List_Lexorder" "HOL-Library.Sublist"
begin

text \<open>
  The search index of Bloodhound, the suggestion engine of the bundled page: \<open>SearchIndex\<close> in
  \<open>script.js\<close>, a trie over the tokens of the data. What the page hands in, the tokenizers and the
  function that gives a datum its id, are arguments, and so are the host's \<open>toLowerCase\<close>, the names
  that every object inherits, the string of an id and the comparison of ids. The lemmas show that a
  search finds exactly the data that have, for every token of the query, a token that starts with it.
\<close>

section \<open>The trie\<close>

datatype 'i trie = Trie (ids: "'i list") (children: "(code_unit \<times> 'i trie) list")

definition newNode :: "'i trie" where
  "newNode = Trie [] []"

fun set_child :: "code_unit \<Rightarrow> 'i trie \<Rightarrow> (code_unit \<times> 'i trie) list \<Rightarrow> (code_unit \<times> 'i trie) list" where
  "set_child ch t [] = [(ch, t)]"
| "set_child ch t ((ch', t') # cs) = (if ch' = ch then (ch, t) # cs else (ch', t') # set_child ch t cs)"

text \<open>The loop of \<open>add\<close> over the characters of a token, from the node it has reached.\<close>

fun insert_token :: "'i \<Rightarrow> js_string \<Rightarrow> 'i trie \<Rightarrow> 'i trie" where
  "insert_token i [] node = node"
| "insert_token i (ch # chars) node =
     (let child = (case map_of (children node) ch of Some t \<Rightarrow> t | None \<Rightarrow> newNode)
      in Trie (ids node)
           (set_child ch (insert_token i chars (Trie (ids child @ [i]) (children child))) (children node)))"

text \<open>The loop of \<open>search\<close> over the characters of a token; \<open>None\<close> is \<open>undefined\<close>.\<close>

fun walk :: "js_string \<Rightarrow> 'i trie \<Rightarrow> 'i trie option" where
  "walk [] node = Some node"
| "walk (ch # chars) node = (case map_of (children node) ch of None \<Rightarrow> None | Some t \<Rightarrow> walk chars t)"

section \<open>The index\<close>

record ('i, 'd, 'q) search_options =
  identify :: "'d \<Rightarrow> 'i"
  datumTokenizer :: "'d \<Rightarrow> js_string list"
  queryTokenizer :: "'q \<Rightarrow> js_string list"
  matchAnyQueryToken :: bool

text \<open>\<open>id_string\<close> is the conversion of an id to a string, as a property name and for \<open>sort\<close>.\<close>

record 'i js_host =
  toLower :: "js_string \<Rightarrow> js_string"
  inherited :: "js_string set"
  id_string :: "'i \<Rightarrow> js_string"
  id_less :: "'i \<Rightarrow> 'i \<Rightarrow> bool"

record ('i, 'd) search_index =
  datums :: "js_string \<Rightarrow> 'd option"
  trie :: "'i trie"

definition reset :: "('i, 'd) search_index" where
  "reset = \<lparr>datums = Map.empty, trie = newNode\<rparr>"

definition normalizeTokens :: "'i js_host \<Rightarrow> js_string list \<Rightarrow> js_string list" where
  "normalizeTokens host tokens = map (toLower host) (filter (\<lambda>token. token \<noteq> []) tokens)"

definition add_datum ::
  "'i js_host \<Rightarrow> ('i, 'd, 'q) search_options \<Rightarrow> 'd \<Rightarrow> ('i, 'd) search_index \<Rightarrow> ('i, 'd) search_index" where
  "add_datum host opts datum s =
     (let i = identify opts datum
      in \<lparr>datums = (datums s)(id_string host i \<mapsto> datum),
          trie = fold (insert_token i) (normalizeTokens host (datumTokenizer opts datum)) (trie s)\<rparr>)"

definition add ::
  "'i js_host \<Rightarrow> ('i, 'd, 'q) search_options \<Rightarrow> 'd list \<Rightarrow> ('i, 'd) search_index \<Rightarrow> ('i, 'd) search_index" where
  "add host opts data s = fold (add_datum host opts) data s"

text \<open>\<open>_.map\<close> is \<open>$.map\<close>, which leaves \<open>undefined\<close> out; a datum is neither \<open>null\<close> nor an array.\<close>

definition get :: "'i js_host \<Rightarrow> 'i list \<Rightarrow> ('i, 'd) search_index \<Rightarrow> 'd list" where
  "get host is s = List.map_filter (\<lambda>i. datums s (id_string host i)) is"

definition bootstrap :: "('i, 'd) search_index \<Rightarrow> ('i, 'd) search_index \<Rightarrow> ('i, 'd) search_index" where
  "bootstrap o' s = s\<lparr>datums := datums o', trie := trie o'\<rparr>"

definition serialize :: "('i, 'd) search_index \<Rightarrow> ('i, 'd) search_index" where
  "serialize s = \<lparr>datums = datums s, trie = trie s\<rparr>"

text \<open>The loop of \<open>getIntersection\<close>, on what is left of the two arrays.\<close>

function merge_loop :: "('i \<Rightarrow> 'i \<Rightarrow> bool) \<Rightarrow> 'i list \<Rightarrow> 'i list \<Rightarrow> 'i list" where
  "merge_loop lt (a # as) (b # bs) =
     (if lt a b then merge_loop lt as (b # bs)
      else if lt b a then merge_loop lt (a # as) bs
      else a # merge_loop lt as bs)"
| "merge_loop lt [] bs = []"
| "merge_loop lt (a # as) [] = []"
  by pat_completeness auto
termination by (relation "measure (\<lambda>(lt, as, bs). length as + length bs)") auto

definition getIntersection :: "'i js_host \<Rightarrow> 'i list \<Rightarrow> 'i list \<Rightarrow> 'i list" where
  "getIntersection host arrayA arrayB =
     merge_loop (id_less host) (sort_key (id_string host) arrayA) (sort_key (id_string host) arrayB)"

text \<open>\<open>unique\<close>: the object \<open>seen\<close> also has what it inherits.\<close>

fun unique_loop :: "'i js_host \<Rightarrow> js_string set \<Rightarrow> 'i list \<Rightarrow> 'i list" where
  "unique_loop host seen [] = []"
| "unique_loop host seen (i # is) =
     (if id_string host i \<in> seen then unique_loop host seen is
      else i # unique_loop host (insert (id_string host i) seen) is)"

definition unique :: "'i js_host \<Rightarrow> 'i list \<Rightarrow> 'i list" where
  "unique host is = unique_loop host (inherited host) is"

text \<open>The callback of \<open>search\<close> for each token; \<open>return false\<close> ends the iteration.\<close>

fun search_loop :: "'i js_host \<Rightarrow> bool \<Rightarrow> 'i trie \<Rightarrow> js_string list \<Rightarrow> 'i list option \<Rightarrow> 'i list option" where
  "search_loop host any root [] matches = matches"
| "search_loop host any root (token # tokens) matches =
     (if matches = Some [] \<and> \<not> any then matches
      else case walk token root of
             Some node \<Rightarrow>
               search_loop host any root tokens
                 (Some (case matches of Some ms \<Rightarrow> getIntersection host ms (ids node) | None \<Rightarrow> ids node))
           | None \<Rightarrow> if any then search_loop host any root tokens matches else Some [])"

definition search :: "'i js_host \<Rightarrow> ('i, 'd, 'q) search_options \<Rightarrow> 'q \<Rightarrow> ('i, 'd) search_index \<Rightarrow> 'd list" where
  "search host opts query s =
     (case search_loop host (matchAnyQueryToken opts) (trie s) (normalizeTokens host (queryTokenizer opts query)) None of
        None \<Rightarrow> []
      | Some matches \<Rightarrow> get host (unique host matches) s)"

section \<open>What is in the trie\<close>

definition ids_at :: "js_string \<Rightarrow> 'i trie \<Rightarrow> 'i set" where
  "ids_at t node = (case walk t node of None \<Rightarrow> {} | Some n \<Rightarrow> set (ids n))"

lemma map_of_set_child: "map_of (set_child ch t cs) ch' = (if ch' = ch then Some t else map_of cs ch')"
  by (induction cs) auto

lemma ids_at_insert:
  "ids_at t (insert_token i u node) = ids_at t node \<union> (if t \<noteq> [] \<and> prefix t u then {i} else {})"
proof (induction u arbitrary: t node)
  case (Cons ch u)
  show ?case
  proof (cases t)
    case Nil
    then show ?thesis by (simp add: ids_at_def Let_def)
  next
    case (Cons ch' t')
    let ?child = "case map_of (children node) ch of Some t \<Rightarrow> t | None \<Rightarrow> newNode"
    have step: "ids_at (x # t') n = (case map_of (children n) x of None \<Rightarrow> {} | Some m \<Rightarrow> ids_at t' m)" for x and n :: "'a trie"
      by (simp add: ids_at_def split: option.split)
    have child: "ids_at t' (Trie (ids ?child @ [i]) (children ?child)) = ids_at t' ?child \<union> (if t' = [] then {i} else {})"
      by (cases t') (simp_all add: ids_at_def)
    have new: "ids_at t' (newNode :: 'a trie) = {}" by (cases t') (simp_all add: ids_at_def newNode_def)
    have kid: "ids_at t' ?child = (case map_of (children node) ch of None \<Rightarrow> {} | Some m \<Rightarrow> ids_at t' m)"
      using new by (simp split: option.split)
    show ?thesis
    proof (cases "ch' = ch")
      case True
      then show ?thesis
        unfolding Cons using Cons.IH [of t' "Trie (ids ?child @ [i]) (children ?child)"]
        by (auto simp: step Let_def map_of_set_child child kid)
    next
      case False
      then show ?thesis unfolding Cons by (simp add: step Let_def map_of_set_child)
    qed
  qed
qed (simp add: ids_at_def)

lemma ids_at_tokens:
  "ids_at t (fold (insert_token i) us node) = ids_at t node \<union> (if t \<noteq> [] \<and> (\<exists>u \<in> set us. prefix t u) then {i} else {})"
  by (induction us arbitrary: node) (auto simp: ids_at_insert)

definition indexes :: "'i js_host \<Rightarrow> ('i, 'd, 'q) search_options \<Rightarrow> js_string \<Rightarrow> 'd \<Rightarrow> bool" where
  "indexes host opts t datum \<longleftrightarrow> (\<exists>u \<in> set (normalizeTokens host (datumTokenizer opts datum)). prefix t u)"

lemma ids_at_add:
  assumes "t \<noteq> []"
  shows "ids_at t (trie (add host opts data s)) =
    ids_at t (trie s) \<union> identify opts ` {d \<in> set data. indexes host opts t d}"
proof (induction data arbitrary: s)
  case (Cons d data)
  have "ids_at t (trie (add_datum host opts d s)) = ids_at t (trie s) \<union> (if indexes host opts t d then {identify opts d} else {})"
    using assms by (simp add: add_datum_def Let_def ids_at_tokens indexes_def)
  with Cons.IH [of "add_datum host opts d s"] show ?case by (auto simp: add_def)
qed (simp add: add_def)

lemma datums_add:
  assumes "inj_on (\<lambda>d. id_string host (identify opts d)) (set data)" "d \<in> set data"
  shows "datums (add host opts data s) (id_string host (identify opts d)) = Some d"
  using assms
proof (induction data arbitrary: s rule: rev_induct)
  case (snoc x data)
  have step: "datums (add host opts (data @ [x]) s) =
      (datums (add host opts data s))(id_string host (identify opts x) \<mapsto> x)"
    by (simp add: add_def add_datum_def Let_def)
  show ?case
  proof (cases "d = x")
    case True
    then show ?thesis by (simp add: step)
  next
    case False
    with snoc.prems inj_on_eq_iff [OF snoc.prems(1), of d x]
    have "id_string host (identify opts d) \<noteq> id_string host (identify opts x)" "d \<in> set data" by auto
    moreover have "inj_on (\<lambda>d. id_string host (identify opts d)) (set data)"
      using snoc.prems(1) by (rule inj_on_subset) auto
    ultimately show ?thesis using snoc.IH by (simp add: step)
  qed
qed simp

section \<open>Intersections and duplicates\<close>

text \<open>The order of \<open>sort\<close> and the operator \<open><\<close> agree on strings.\<close>

definition string_ids :: "'i js_host \<Rightarrow> bool" where
  "string_ids host \<longleftrightarrow> inj (id_string host) \<and> (\<forall>i j. id_less host i j \<longleftrightarrow> id_string host i < id_string host j)"

lemma merge_loop_set:
  assumes "string_ids host" "sorted (map (id_string host) as)" "sorted (map (id_string host) bs)"
  shows "set (merge_loop (id_less host) as bs) = set as \<inter> set bs"
  using assms(2,3)
proof (induction "id_less host" as bs rule: merge_loop.induct)
  case (1 a as b bs)
  let ?k = "id_string host"
  have lt: "id_less host i j \<longleftrightarrow> ?k i < ?k j" for i j using assms(1) by (simp add: string_ids_def)
  have inj: "?k i = ?k j \<longleftrightarrow> i = j" for i j using assms(1) by (auto simp: string_ids_def inj_def)
  have as: "\<forall>x \<in> set as. ?k a \<le> ?k x" and bs: "\<forall>x \<in> set bs. ?k b \<le> ?k x" using 1(4,5) by auto
  consider "?k a < ?k b" | "?k b < ?k a" | "a = b" using inj [of a b] by (metis linorder_neqE)
  then show ?case
  proof cases
    case 1
    then have "a \<notin> set (b # bs)" using bs by (metis leD set_ConsD order_refl)
    with "1.hyps"(1) "1.prems" 1 show ?thesis by (simp add: lt)
  next
    case 2
    then have "b \<notin> set (a # as)" using as by (metis leD set_ConsD order_refl)
    with "1.hyps"(2) "1.prems" 2 show ?thesis by (auto simp: lt)
  next
    case 3
    with "1.hyps"(3) "1.prems" show ?thesis by (auto simp: lt)
  qed
qed simp_all

lemma getIntersection_set: "string_ids host \<Longrightarrow> set (getIntersection host as bs) = set as \<inter> set bs"
  by (simp add: getIntersection_def merge_loop_set)

lemma unique_loop_keys:
  "id_string host ` set (unique_loop host seen is) = id_string host ` set is - seen \<and>
   distinct (map (id_string host) (unique_loop host seen is))"
  by (induction "is" arbitrary: seen) auto

lemma unique_set:
  assumes "string_ids host" "id_string host ` set is \<inter> inherited host = {}"
  shows "set (unique host is) = set is" "distinct (unique host is)"
proof -
  have "id_string host ` set (unique host is) = id_string host ` set is"
    using unique_loop_keys [of host "inherited host" "is"] assms(2) by (auto simp: unique_def)
  then show "set (unique host is) = set is" using assms(1) by (simp add: string_ids_def inj_image_eq_iff)
  show "distinct (unique host is)"
    using unique_loop_keys [of host "inherited host" "is"] by (simp add: unique_def distinct_map)
qed

lemma search_loop_Some:
  assumes "string_ids host"
  shows "\<exists>ms'. search_loop host False root ts (Some ms) = Some ms' \<and> set ms' = set ms \<inter> (\<Inter>t \<in> set ts. ids_at t root)"
proof (induction ts arbitrary: ms)
  case (Cons t ts)
  show ?case
  proof (cases "ms = []")
    case False
    show ?thesis
    proof (cases "walk t root")
      case None
      with False show ?thesis by (simp add: ids_at_def)
    next
      case (Some node)
      with False Cons.IH [of "getIntersection host ms (ids node)"] show ?thesis
        by (auto simp: getIntersection_set [OF assms] ids_at_def)
    qed
  qed simp
qed simp

lemma search_loop_None:
  assumes "string_ids host" "ts \<noteq> []"
  shows "\<exists>ms. search_loop host False root ts None = Some ms \<and> set ms = (\<Inter>t \<in> set ts. ids_at t root)"
proof (cases ts)
  case (Cons t ts')
  show ?thesis
  proof (cases "walk t root")
    case None
    with Cons show ?thesis by (simp add: ids_at_def)
  next
    case (Some node)
    with Cons search_loop_Some [OF assms(1), of root ts' "ids node"] show ?thesis by (auto simp: ids_at_def)
  qed
qed (use assms in simp)

section \<open>A search finds exactly what matches\<close>

text \<open>
  C38: a search in an index that some data were added to returns, each once and nothing else, the
  data that have for every token of the query a token that starts with it. The ids are strings that
  no object inherits as names, different for different data, and lower case empties no token; the
  query has a token, and all of its tokens have to match.
\<close>

theorem search_exact:
  fixes host :: "'i js_host" and opts :: "('i, 'd, 'q) search_options"
  assumes "string_ids host" "\<forall>s. toLower host s = [] \<longrightarrow> s = []"
    and "inj_on (identify opts) (set data)" "\<forall>d \<in> set data. id_string host (identify opts d) \<notin> inherited host"
    and "\<not> matchAnyQueryToken opts" "tokens = normalizeTokens host (queryTokenizer opts query)" "tokens \<noteq> []"
  shows "distinct (search host opts query (add host opts data reset)) \<and>
    set (search host opts query (add host opts data reset)) = {d \<in> set data. \<forall>t \<in> set tokens. indexes host opts t d}"
proof -
  let ?s = "add host opts data reset"
  let ?found = "{d \<in> set data. \<forall>t \<in> set tokens. indexes host opts t d}"
  have ne: "t \<noteq> []" if "t \<in> set tokens" for t using that assms(2,6) by (auto simp: normalizeTokens_def)
  have "ids_at t (trie ?s) = identify opts ` {d \<in> set data. indexes host opts t d}" if "t \<in> set tokens" for t
  proof -
    have "ids_at t (trie (reset :: ('i, 'd) search_index)) = {}" using ne [OF that] by (cases t) (simp_all add: ids_at_def reset_def newNode_def)
    then show ?thesis using ids_at_add [OF ne [OF that], of host opts data reset] by simp
  qed
  moreover from search_loop_None [OF assms(1,7), of "trie ?s"] obtain ms where
    ms: "search_loop host False (trie ?s) tokens None = Some ms" "set ms = (\<Inter>t \<in> set tokens. ids_at t (trie ?s))" by auto
  ultimately have set_ms: "set ms = identify opts ` ?found"
    using assms(3,7) by (auto simp: inj_on_def image_iff) (metis list.set_intros(1) neq_Nil_conv)
  have fresh: "id_string host ` set ms \<inter> inherited host = {}" using assms(4) by (auto simp: set_ms)
  note u = unique_set [OF assms(1) fresh]
  define found where "found = map (inv_into (set data) (identify opts)) (unique host ms)"
  have inv: "inv_into (set data) (identify opts) (identify opts d) = d" if "d \<in> set data" for d
    using that assms(3) by simp
  have inj: "inj_on (\<lambda>d. id_string host (identify opts d)) (set data)"
    using assms(1,3) by (auto simp: string_ids_def inj_on_def inj_def)
  have "search host opts query ?s = found"
  proof -
    have "datums ?s (id_string host i) = Some (inv_into (set data) (identify opts) i)" if "i \<in> set (unique host ms)" for i
      using that u(1) set_ms inv datums_add [OF inj] by auto
    then have "get host (unique host ms) ?s = found"
      by (simp add: get_def found_def List.map_filter_def filter_True cong: filter_cong map_cong)
    then show ?thesis using ms(1) assms(5,6) by (simp add: search_def)
  qed
  moreover have "distinct found"
    using u set_ms inv by (auto simp: found_def distinct_map intro!: inj_onI)
  moreover have "set found = ?found" using u(1) set_ms inv by (auto simp: found_def image_iff)
  ultimately show ?thesis by simp
qed

definition word_host :: "js_string js_host" where
  "word_host = \<lparr>toLower = (\<lambda>s. s), inherited = {lit ''constructor''}, id_string = (\<lambda>s. s), id_less = (\<lambda>s t. s < t)\<rparr>"

definition word_options :: "(js_string, js_string, js_string) search_options" where
  "word_options = \<lparr>identify = (\<lambda>d. d), datumTokenizer = (\<lambda>d. [d]), queryTokenizer = (\<lambda>q. [q]), matchAnyQueryToken = False\<rparr>"

theorem search_exact_witness:
  "search word_host word_options [97] (add word_host word_options [[97, 98], [98, 99]] reset) = [[97, 98]]"
proof -
  let ?found = "search word_host word_options [97] (add word_host word_options [[97, 98], [98, 99]] reset)"
  have "string_ids word_host" by (simp add: string_ids_def word_host_def)
  moreover have "\<forall>s. toLower word_host s = [] \<longrightarrow> s = []" by (simp add: word_host_def)
  moreover have "inj_on (identify word_options) (set [[97, 98], [98, 99]])" by (simp add: word_options_def)
  moreover have "\<forall>d \<in> set [[97, 98], [98, 99]]. id_string word_host (identify word_options d) \<notin> inherited word_host"
    by (simp add: word_host_def word_options_def lit_def)
  moreover have "\<not> matchAnyQueryToken word_options" by (simp add: word_options_def)
  moreover have tokens: "[[97]] = normalizeTokens word_host (queryTokenizer word_options [97])"
    by (simp add: normalizeTokens_def word_host_def word_options_def)
  ultimately have found: "distinct ?found"
    "set ?found = {d \<in> set [[97, 98], [98, 99]]. \<forall>t \<in> set [[97]]. indexes word_host word_options t d}"
    using search_exact [of word_host word_options "[[97, 98], [98, 99]]" "[[97]]" "[97]"] by blast+
  have "set ?found = {[97, 98]}" unfolding found(2)
    by (auto simp: indexes_def normalizeTokens_def word_host_def word_options_def)
  with found(1) show ?thesis by (cases ?found; cases "tl ?found") auto
qed

text \<open>
  With numbers as ids, \<open>sort\<close> compares their strings and \<open><\<close> their values, and an intersection loses
  elements: 9 is in both arrays, but the sorted first one starts with 10.
\<close>

definition number_host :: "nat js_host" where
  "number_host = \<lparr>toLower = (\<lambda>s. s), inherited = {},
     id_string = (\<lambda>n. if n = 10 then lit ''10'' else lit [char_of (48 + n)]), id_less = (<)\<rparr>"

lemma number_ids_lost: "getIntersection number_host [9, 10] [9] = []"
  by code_simp

end
