(* ===== verification/Next_Tick.thy ===== *)
theory Next_Tick
  imports Prelude
begin

text \<open>
  The task queue of the bundled page, \<open>process.nextTick\<close> in \<open>script.js\<close>. Callbacks are queued and
  run by \<open>drainQueue\<close> from a timeout; a callback may queue more and may throw, and then
  \<open>cleanUpNextTick\<close>, which waits in a second timeout, goes on behind the one that threw. What a
  callback does is the argument \<open>effect\<close>: the callbacks that it queues, and whether it throws at its
  end. Draining need not come to an end, so its loop has fuel, and \<open>None\<close> is a loop that has not
  ended yet. The lemmas show that callbacks run once, in the order of the calls, and that none is
  forgotten, whatever throws.
\<close>

section \<open>State\<close>

datatype timer = DrainQueue | CleanUpNextTick

text \<open>The variables of the module, the pending timeouts with their ids, and what was called and run.\<close>

record 'a ticks =
  queue :: "'a list"
  draining :: bool
  currentQueue :: "'a list option"
  queueIndex :: int
  timers :: "(nat \<times> timer) list"
  next_id :: nat
  called :: "'a list"
  ran :: "'a list"

type_synonym 'a effect = "'a \<Rightarrow> 'a list \<times> bool"

definition no_ticks :: "'a ticks" where
  "no_ticks = \<lparr>queue = [], draining = False, currentQueue = None, queueIndex = - 1,
     timers = [], next_id = 0, called = [], ran = []\<rparr>"

definition runTimeout :: "timer \<Rightarrow> 'a ticks \<Rightarrow> 'a ticks" where
  "runTimeout t s = s\<lparr>timers := timers s @ [(next_id s, t)], next_id := next_id s + 1\<rparr>"

definition runClearTimeout :: "nat \<Rightarrow> 'a ticks \<Rightarrow> 'a ticks" where
  "runClearTimeout marker s = s\<lparr>timers := filter (\<lambda>(i, t). i \<noteq> marker) (timers s)\<rparr>"

section \<open>Operations\<close>

definition nextTick :: "'a \<Rightarrow> 'a ticks \<Rightarrow> 'a ticks" where
  "nextTick item s =
     (let s = s\<lparr>queue := queue s @ [item], called := called s @ [item]\<rparr>
      in if length (queue s) = 1 \<and> \<not> draining s then runTimeout DrainQueue s else s)"

definition run_item :: "'a effect \<Rightarrow> 'a \<Rightarrow> 'a ticks \<Rightarrow> bool \<times> 'a ticks" where
  "run_item effect item s = (snd (effect item), fold nextTick (fst (effect item)) (s\<lparr>ran := ran s @ [item]\<rparr>))"

text \<open>
  The inner loop with the number of rounds that are left; the flag says that a callback threw.
\<close>

fun inner_loop :: "'a effect \<Rightarrow> 'a list \<Rightarrow> nat \<Rightarrow> 'a ticks \<Rightarrow> bool \<times> 'a ticks" where
  "inner_loop effect current 0 s = (False, s\<lparr>queueIndex := queueIndex s + 1\<rparr>)"
| "inner_loop effect current (Suc n) s =
     (let s = s\<lparr>queueIndex := queueIndex s + 1\<rparr>;
          (threw, s) = run_item effect (current ! nat (queueIndex s)) s
      in if threw then (True, s) else inner_loop effect current n s)"

fun outer_loop :: "'a effect \<Rightarrow> nat \<Rightarrow> nat \<Rightarrow> 'a ticks \<Rightarrow> (bool \<times> 'a ticks) option" where
  "outer_loop effect 0 len s = None"
| "outer_loop effect (Suc fuel) len s =
     (if len = 0 then Some (False, s)
      else
        let current = queue s;
            s = s\<lparr>currentQueue := Some current, queue := []\<rparr>;
            (threw, s) = inner_loop effect current (nat (int len - 1 - queueIndex s)) s
        in if threw then Some (True, s)
           else let s = s\<lparr>queueIndex := - 1\<rparr> in outer_loop effect fuel (length (queue s)) s)"

definition drainQueue :: "'a effect \<Rightarrow> nat \<Rightarrow> 'a ticks \<Rightarrow> (bool \<times> 'a ticks) option" where
  "drainQueue effect fuel s =
     (if draining s then Some (False, s)
      else
        let timeout = next_id s;
            s = (runTimeout CleanUpNextTick s)\<lparr>draining := True\<rparr>
        in case outer_loop effect fuel (length (queue s)) s of
             Some (False, s) \<Rightarrow> Some (False, runClearTimeout timeout (s\<lparr>currentQueue := None, draining := False\<rparr>))
           | r \<Rightarrow> r)"

definition cleanUpNextTick :: "'a effect \<Rightarrow> nat \<Rightarrow> 'a ticks \<Rightarrow> (bool \<times> 'a ticks) option" where
  "cleanUpNextTick effect fuel s =
     (case (draining s, currentQueue s) of
        (True, Some current) \<Rightarrow>
          (let s = s\<lparr>draining := False\<rparr>;
               s = (if current \<noteq> [] then s\<lparr>queue := current @ queue s\<rparr> else s\<lparr>queueIndex := - 1\<rparr>)
           in if queue s \<noteq> [] then drainQueue effect fuel s else Some (False, s))
      | _ \<Rightarrow> Some (False, s))"

text \<open>A timeout fires: it is no longer pending, and its function is called.\<close>

definition fire :: "'a effect \<Rightarrow> nat \<Rightarrow> nat \<times> timer \<Rightarrow> 'a ticks \<Rightarrow> (bool \<times> 'a ticks) option" where
  "fire effect fuel entry s =
     (let s = s\<lparr>timers := filter (\<lambda>e. e \<noteq> entry) (timers s)\<rparr>
      in case snd entry of
           DrainQueue \<Rightarrow> drainQueue effect fuel s
         | CleanUpNextTick \<Rightarrow> cleanUpNextTick effect fuel s)"

inductive tick_step :: "'a effect \<Rightarrow> 'a ticks \<Rightarrow> 'a ticks \<Rightarrow> bool" for effect :: "'a effect" where
  call: "tick_step effect s (nextTick item s)"
| timeout: "entry \<in> set (timers s) \<Longrightarrow> fire effect fuel entry s = Some (threw, s') \<Longrightarrow> tick_step effect s s'"

section \<open>While a queue is drained\<close>

definition pending :: "'a ticks \<Rightarrow> 'a list" where
  "pending s = (case currentQueue s of Some current \<Rightarrow> drop (nat (queueIndex s + 1)) current | None \<Rightarrow> []) @ queue s"

definition in_order :: "'a ticks \<Rightarrow> bool" where
  "in_order s \<longleftrightarrow> called s = ran s @ pending s"

text \<open>What draining does not touch: the timeouts, since no call sets one while the queue is drained.\<close>

definition during :: "'a list \<Rightarrow> 'a ticks \<Rightarrow> 'a ticks \<Rightarrow> bool" where
  "during current s0 s \<longleftrightarrow> draining s \<and> currentQueue s = Some current \<and> timers s = timers s0 \<and> next_id s = next_id s0"

lemma nextTicks_draining:
  assumes "draining s"
  shows "fold nextTick xs s = s\<lparr>queue := queue s @ xs, called := called s @ xs\<rparr>"
  using assms by (induction xs arbitrary: s) (simp_all add: nextTick_def Let_def)

lemma inner_loop_order:
  assumes "during current s0 s" "in_order s" "- 1 \<le> queueIndex s" "queueIndex s < int (length current)"
    and "n = nat (int (length current) - 1 - queueIndex s)" "inner_loop effect current n s = (threw, s')"
  shows "during current s0 s' \<and> in_order s' \<and>
    (if threw then 0 \<le> queueIndex s' \<and> queueIndex s' < int (length current) else queueIndex s' = int (length current))"
  using assms
proof (induction n arbitrary: s)
  case 0
  then show ?case by (auto simp: during_def in_order_def pending_def)
next
  case (Suc n)
  define k where "k = nat (queueIndex s + 1)"
  have k: "k < length current" "queueIndex s + 1 = int k" using Suc.prems(3,5) by (auto simp: k_def)
  let ?x = "current ! k"
  let ?s = "s\<lparr>queueIndex := int k, ran := ran s @ [?x], queue := queue s @ fst (effect ?x), called := called s @ fst (effect ?x)\<rparr>"
  have d: "draining s" "currentQueue s = Some current" using Suc.prems(1) by (simp_all add: during_def)
  have "run_item effect ?x (s\<lparr>queueIndex := int k\<rparr>) = (snd (effect ?x), ?s)"
    using d by (simp add: run_item_def nextTicks_draining)
  then have run: "inner_loop effect current (Suc n) s = (if snd (effect ?x) then (True, ?s) else inner_loop effect current n ?s)"
    using k(2) by (simp add: Let_def)
  have dur: "during current s0 ?s" using Suc.prems(1) by (simp add: during_def)
  have "drop k current = ?x # drop (Suc k) current" using k(1) by (rule Cons_nth_drop_Suc [symmetric])
  then have ord: "in_order ?s"
    using Suc.prems(2) d k(2) by (simp add: in_order_def pending_def nat_add_distrib)
  show ?case
  proof (cases "snd (effect ?x)")
    case True
    with run Suc.prems(6) dur ord k show ?thesis by auto
  next
    case False
    with run Suc.prems(6) have "inner_loop effect current n ?s = (threw, s')" by simp
    moreover have "n = nat (int (length current) - 1 - queueIndex ?s)" using Suc.prems(5) k(2) by simp
    ultimately show ?thesis using Suc.IH [of ?s] dur ord k by simp
  qed
qed

text \<open>The whole loop: it has run everything, or it stopped inside a queue because a callback threw.\<close>

definition stopped :: "'a ticks \<Rightarrow> bool" where
  "stopped s \<longleftrightarrow> (\<exists>current. currentQueue s = Some current \<and> 0 \<le> queueIndex s \<and> queueIndex s < int (length current))"

lemma outer_loop_order:
  assumes "draining s" "called s = ran s @ drop (nat (queueIndex s + 1)) (queue s)" "- 1 \<le> queueIndex s"
    and "queue s = [] \<longrightarrow> queueIndex s = - 1" "queue s \<noteq> [] \<longrightarrow> queueIndex s < int (length (queue s))"
    and "outer_loop effect fuel (length (queue s)) s = Some (threw, s')"
  shows "draining s' \<and> timers s' = timers s \<and>
    (if threw then in_order s' \<and> stopped s' else queue s' = [] \<and> called s' = ran s' \<and> queueIndex s' = - 1)"
  using assms
proof (induction fuel arbitrary: s)
  case (Suc fuel)
  show ?case
  proof (cases "queue s = []")
    case True
    then show ?thesis using Suc.prems by auto
  next
    case False
    let ?s = "s\<lparr>currentQueue := Some (queue s), queue := []\<rparr>"
    obtain thr t where t: "inner_loop effect (queue s) (nat (int (length (queue s)) - 1 - queueIndex s)) ?s = (thr, t)"
      by (cases "inner_loop effect (queue s) (nat (int (length (queue s)) - 1 - queueIndex s)) ?s")
    have dur: "during (queue s) s ?s" and ord: "in_order ?s"
      using Suc.prems(1,2) by (simp_all add: during_def in_order_def pending_def)
    have qi: "- 1 \<le> queueIndex ?s" "queueIndex ?s < int (length (queue s))" using Suc.prems(3,5) False by simp_all
    have t': "inner_loop effect (queue s) (nat (int (length (queue s)) - 1 - queueIndex ?s)) ?s = (thr, t)" using t by simp
    note r = inner_loop_order [OF dur ord qi refl t']
    have inner: "during (queue s) s t" "in_order t" using r by blast+
    have index: "if thr then 0 \<le> queueIndex t \<and> queueIndex t < int (length (queue s)) else queueIndex t = int (length (queue s))"
      using r by blast
    show ?thesis
    proof (cases thr)
      case True
      then have "threw" "s' = t" using Suc.prems(6) t False by (simp_all add: Let_def)
      with True inner index show ?thesis by (simp add: during_def stopped_def)
    next
      case False
      let ?t = "t\<lparr>queueIndex := - 1\<rparr>"
      have "outer_loop effect fuel (length (queue ?t)) ?t = Some (threw, s')"
        using Suc.prems(6) t False \<open>queue s \<noteq> []\<close> by (simp add: Let_def)
      moreover have "called t = ran t @ queue t"
        using inner index False by (simp add: in_order_def pending_def during_def nat_add_distrib)
      ultimately show ?thesis using Suc.IH [of ?t] inner(1) by (simp add: during_def)
    qed
  qed
qed simp

section \<open>Between the timeouts\<close>

definition waits_for :: "timer \<Rightarrow> 'a ticks \<Rightarrow> bool" where
  "waits_for t s \<longleftrightarrow> t \<in> snd ` set (timers s)"

definition ticks_ok :: "'a ticks \<Rightarrow> bool" where
  "ticks_ok s \<longleftrightarrow>
     in_order s \<and>
     (if draining s then stopped s \<and> waits_for CleanUpNextTick s
      else currentQueue s = None \<and> queueIndex s = - 1 \<and> (queue s \<noteq> [] \<longrightarrow> waits_for DrainQueue s))"

lemma drainQueue_ok:
  assumes "\<not> draining s" "called s = ran s @ drop (nat (queueIndex s + 1)) (queue s)" "- 1 \<le> queueIndex s"
    and "queue s = [] \<longrightarrow> queueIndex s = - 1" "queue s \<noteq> [] \<longrightarrow> queueIndex s < int (length (queue s))"
    and "drainQueue effect fuel s = Some (threw, s')"
  shows "ticks_ok s'"
proof -
  let ?s = "(runTimeout CleanUpNextTick s)\<lparr>draining := True\<rparr>"
  have same: "queue ?s = queue s" "called ?s = called s" "ran ?s = ran s" "queueIndex ?s = queueIndex s" "draining ?s"
    by (simp_all add: runTimeout_def)
  from assms(1,6) obtain thr t where
    t: "outer_loop effect fuel (length (queue ?s)) ?s = Some (thr, t)"
      "(threw, s') = (if thr then (True, t) else (False, runClearTimeout (next_id s) (t\<lparr>currentQueue := None, draining := False\<rparr>)))"
    by (auto simp: drainQueue_def Let_def split: option.splits prod.splits bool.splits)
  have "called ?s = ran ?s @ drop (nat (queueIndex ?s + 1)) (queue ?s)" "- 1 \<le> queueIndex ?s"
    "queue ?s = [] \<longrightarrow> queueIndex ?s = - 1" "queue ?s \<noteq> [] \<longrightarrow> queueIndex ?s < int (length (queue ?s))"
    using assms(2-5) by (simp_all add: same)
  from outer_loop_order [OF same(5) this t(1)] have
    o: "draining t" "timers t = timers ?s" "if thr then in_order t \<and> stopped t else queue t = [] \<and> called t = ran t \<and> queueIndex t = - 1" by auto
  show ?thesis
  proof (cases thr)
    case True
    with o t(2) show ?thesis by (simp add: ticks_ok_def waits_for_def runTimeout_def)
  next
    case False
    with o t(2) show ?thesis by (simp add: ticks_ok_def in_order_def pending_def runClearTimeout_def)
  qed
qed

lemma nextTick_ok:
  assumes "ticks_ok s"
  shows "ticks_ok (nextTick x s)"
proof (cases "draining s")
  case True
  then show ?thesis using assms nextTicks_draining [of s "[x]"]
    by (auto simp: ticks_ok_def in_order_def pending_def stopped_def waits_for_def split: option.splits)
next
  case False
  then show ?thesis using assms
    by (auto simp: ticks_ok_def in_order_def pending_def waits_for_def nextTick_def runTimeout_def Let_def)
qed

lemma fire_ok:
  assumes ok: "ticks_ok s" and f: "fire effect fuel entry s = Some (threw, s')"
  shows "ticks_ok s'"
proof -
  let ?s = "s\<lparr>timers := filter (\<lambda>e. e \<noteq> entry) (timers s)\<rparr>"
  show ?thesis
  proof (cases "draining s")
    case False
    then have idle: "currentQueue s = None" "queueIndex s = - 1" "called s = ran s @ queue s"
      using ok by (simp_all add: ticks_ok_def in_order_def pending_def)
    show ?thesis
    proof (cases "snd entry")
      case DrainQueue
      then have "drainQueue effect fuel ?s = Some (threw, s')" using f by (simp add: fire_def Let_def)
      then show ?thesis using drainQueue_ok [of ?s] False idle by simp
    next
      case CleanUpNextTick
      then have "s' = ?s" using f False by (simp add: fire_def Let_def cleanUpNextTick_def)
      moreover have "waits_for DrainQueue ?s" if "waits_for DrainQueue s"
        using that CleanUpNextTick by (force simp: waits_for_def)
      ultimately show ?thesis using ok False by (simp add: ticks_ok_def in_order_def pending_def)
    qed
  next
    case True
    then obtain current where cur: "currentQueue s = Some current" "0 \<le> queueIndex s" "queueIndex s < int (length current)"
      and ord: "called s = ran s @ drop (nat (queueIndex s + 1)) current @ queue s"
      using ok by (auto simp: ticks_ok_def stopped_def in_order_def pending_def)
    show ?thesis
    proof (cases "snd entry")
      case DrainQueue
      then have "s' = ?s" using f True by (simp add: fire_def Let_def drainQueue_def)
      moreover have "waits_for CleanUpNextTick ?s" if "waits_for CleanUpNextTick s"
        using that DrainQueue by (force simp: waits_for_def)
      ultimately show ?thesis using ok True cur ord by (simp add: ticks_ok_def in_order_def pending_def stopped_def)
    next
      case CleanUpNextTick
      let ?t = "?s\<lparr>draining := False, queue := current @ queue s\<rparr>"
      have ne: "current \<noteq> []" using cur by auto
      then have "drainQueue effect fuel ?t = Some (threw, s')"
        using f True cur(1) CleanUpNextTick by (simp add: fire_def Let_def cleanUpNextTick_def)
      moreover have "called ?t = ran ?t @ drop (nat (queueIndex ?t + 1)) (queue ?t)"
        using ord cur(2,3) by (simp add: nat_add_distrib)
      ultimately show ?thesis using drainQueue_ok [of ?t] cur(2,3) ne by simp
    qed
  qed
qed

interpretation ticking: step_invariant "tick_step effect" ticks_ok for effect
  by unfold_locales (auto elim!: tick_step.cases simp: nextTick_ok fire_ok)

lemma no_ticks_ok: "ticks_ok no_ticks"
  by (simp add: ticks_ok_def no_ticks_def in_order_def pending_def)

text \<open>
  C39: whatever callbacks queue and whichever of them throw, the callbacks that have run and those
  that still wait are, in this order, exactly the callbacks that \<open>nextTick\<close> was called with, so none is
  lost, none runs twice and none overtakes another; and as long as one waits, a timeout is pending
  that goes on with it: \<open>cleanUpNextTick\<close> after a callback threw, and \<open>drainQueue\<close> otherwise.
\<close>

theorem ticks_in_order:
  assumes "(tick_step effect)\<^sup>*\<^sup>* no_ticks s"
  shows "called s = ran s @ pending s \<and>
    (pending s \<noteq> [] \<longrightarrow> waits_for (if draining s then CleanUpNextTick else DrainQueue) s)"
  using ticking.run_from [OF no_ticks_ok assms] by (auto simp: ticks_ok_def in_order_def pending_def)

text \<open>Callback 1 queues 3 and throws, and 2 waits behind it.\<close>

definition demo_effect :: "nat effect" where
  "demo_effect n = (if n = 1 then ([3], True) else ([], False))"

definition demo_ticks :: "nat ticks" where
  "demo_ticks = snd (the (fire demo_effect 5 (0, DrainQueue) (nextTick 2 (nextTick 1 no_ticks))))"

theorem ticks_in_order_witness:
  "ran demo_ticks = [1] \<and> called demo_ticks = [1] @ pending demo_ticks \<and> pending demo_ticks = [2, 3] \<and>
   waits_for CleanUpNextTick demo_ticks"
proof -
  let ?s = "nextTick 2 (nextTick 1 no_ticks)"
  have s: "?s = no_ticks\<lparr>queue := [1, 2], called := [1, 2], timers := [(0, DrainQueue)], next_id := 1\<rparr>"
    by (simp add: nextTick_def no_ticks_def runTimeout_def Let_def)
  obtain threw where f: "fire demo_effect 5 (0, DrainQueue) ?s = Some (threw, demo_ticks)"
    and d: "ran demo_ticks = [1]" "called demo_ticks = [1, 2, 3]" "draining demo_ticks"
    unfolding demo_ticks_def s
    by (simp add: fire_def drainQueue_def runTimeout_def no_ticks_def Let_def run_item_def demo_effect_def nextTick_def
        eval_nat_numeral)
  have "(tick_step demo_effect)\<^sup>*\<^sup>* no_ticks ?s"
    by (meson tick_step.call rtranclp.rtrancl_into_rtrancl rtranclp.rtrancl_refl)
  moreover have "tick_step demo_effect ?s demo_ticks"
    by (rule tick_step.timeout [OF _ f]) (unfold s, simp)
  ultimately have "(tick_step demo_effect)\<^sup>*\<^sup>* no_ticks demo_ticks" by simp
  from ticks_in_order [OF this] d show ?thesis by auto
qed

end
