(* ===== verification/Spec2Isabelle.thy ===== *)
theory Spec2Isabelle
  imports Client_Stream Json Buffer_Codec Buffer_From Buffer_Ops Lodash_Sorted Lodash_Debounce Lodash_Function
    Lodash_Number Lodash_Object React_Text React_Queue Server_Faults Server_Cgi Search_Index Next_Tick
begin

text \<open>
  A verification development for webserv.

  \<^bold>\<open>The program.\<close> webserv is an HTTP server with virtual hosts, locations, uploads and CGI scripts,
  written in C++ under \<open>src/src/\<close>. The repository also carries one large JavaScript file, the page
  script \<open>src/webserv_correction_files/script.js\<close>, a bundle of third-party libraries that belongs to
  a saved web page and is not run by the server. The development models both: the server, because it
  is the program of the repository, and of the bundle the libraries whose code is algorithmic. The
  two share only the prelude.

  \<^bold>\<open>The server and its theories.\<close> \<open>main\<close> reads a configuration file with \<open>JSON\<close> and \<open>Tokenizer\<close>, builds
  a \<open>Config\<close> from the value and runs a \<open>Server\<close>, which polls descriptors, keeps a \<open>Client\<close> per
  connection and answers requests from files or from a CGI script.
  \<^item> \<open>Prelude\<close>: lemmas on lists, strings and searches, results as sums, and the contract
    \<open>step_invariant\<close> of a step relation with an invariant.
  \<^item> \<open>Utils\<close> (\<open>Utils.cpp\<close>, \<open>Utils.tpp\<close>): string helpers and \<open>parseNumber\<close> on machine words. The lemmas
    give the numbers that are accepted, without overflow, and the end of \<open>replaceAll\<close>.
  \<^item> \<open>Tokenizer\<close>, \<open>Json\<close> (\<open>config/\<close>): the tokenizer over the rest of the file and the recursive descent
    parser. Parsing inverts printing with any white space before each token, and the fuel of the parser, two
    units per character and two more, is always enough.
  \<^item> \<open>Config\<close> (\<open>config/Config.cpp\<close>): the constructor with every exception; \<open>getaddrinfo\<close> is the argument
    \<open>resolve\<close>. What it accepts is well formed, and an address leads to the servers that listen there.
  \<^item> \<open>Client\<close>, \<open>Client_Stream\<close> (first half of \<open>Client.cpp\<close>): the state of a connection as a record, and
    the request parser as a function that returns the exception, if any, with the client it leaves
    behind. The parser meets the contract \<open>stream_decoder\<close>: how the bytes are cut into reads
    does not matter.
  \<^item> \<open>Client_Response\<close> (the rest of \<open>Client.cpp\<close>): the responses, over a file system that is an
    argument. Every response is framed so that the server's own parser finds the status line, the header
    fields and the body again.
  \<^item> \<open>Server\<close>, \<open>Server_Tables\<close>, \<open>Server_Run\<close> (\<open>Server.cpp\<close>): the vectors \<open>_clients\<close> and \<open>_pfds\<close>, the maps
    between descriptors and places, and the operations that keep them together; a \<open>Client &\<close> is an
    index. \<open>index_table\<close> is the contract of a vector whose removals move the last element; the polled
    descriptors meet it. \<open>server_ok\<close> is the agreement of all tables, with the state of each pipe to a
    script, and every operation keeps it.
  \<^item> \<open>Server_Route\<close>: the choice of the location and of the virtual host.
  \<^item> \<open>Server_Cgi\<close>: the arguments and the environment of a script, as the C strings that reach it.
  \<^item> \<open>Server_Loop\<close>, \<open>Server_Keep\<close>: the constructor, the event handlers, \<open>_processPfd\<close>, the loop over the
    positions, reaping and timeouts. What system calls return is the argument \<open>io\<close>. From the
    constructor on, \<open>server_ok\<close> holds through polls, events, timeouts with reaping, and shutdowns
    (the steps of \<open>serving\<close>), so every descriptor leads to its client. The assumptions \<open>expected\<close> on an
    event and \<open>expected_timeout\<close> on a timeout name the situations in which the code breaks the tables.
  \<^item> \<open>Server_Write\<close>: a response is delivered as a whole and the connection closed.
  \<^item> \<open>Server_Faults\<close>: what happens in situations that these assumptions leave out, bytes that follow a
    request, a killed script that outlives its client, the number of a socket that was shut
    down, and the end of the loop over the clients when a connection times out.

  \<^bold>\<open>The page script and its theories.\<close> \<open>Js\<close> and \<open>Js_Value\<close> have what the code uses of JavaScript:
  integral numbers with \<open>NaN\<close> and \<open>undefined\<close>, 32-bit operators, typed arrays, strings of 16-bit units.
  \<^item> \<open>Base64\<close> (base64-js); \<open>Buffer_Num\<close>, \<open>Buffer_Codec\<close>, \<open>Buffer_Text\<close>, \<open>Buffer_Utf8\<close>, \<open>Buffer_From\<close>,
    \<open>Buffer_Ops\<close> (the browser \<open>Buffer\<close>): codecs and accessors, with round trips as instances of the
    contracts \<open>int_codec\<close> and \<open>codec\<close>, and the errors behind the ends. Buffers are views of a shared
    memory where \<open>slice\<close> and \<open>copy\<close> can tell the difference, and lists of bytes elsewhere.
  \<^item> \<open>Lodash_Cache\<close>, \<open>Lodash_Array\<close>, \<open>Lodash_Slice\<close>, \<open>Lodash_Sets\<close>, \<open>Lodash_Sorted\<close>, \<open>Lodash_Debounce\<close>,
    \<open>Lodash_Function\<close>, \<open>Lodash_Number\<close>, \<open>Lodash_Object\<close> (lodash): the caches refine finite maps (contracts
    \<open>store\<close> and \<open>value_set\<close>), the optimised paths of the set functions and searches agree with the
    plain ones, and \<open>debounce\<close> is a state machine whose last call is served. \<open>pull\<close> reads its second
    array while it changes the first, which may be the same.
  \<^item> \<open>React_Text\<close>, \<open>React_Queue\<close> (React): checksums, with additions rounded as those of doubles are,
    and escaping; pooled classes and callback queues.
  \<^item> \<open>Search_Index\<close> (Bloodhound): the trie behind the suggestions finds exactly what matches.
  \<^item> \<open>Next_Tick\<close> (process): callbacks run once and in order, whatever throws.

  \<^bold>\<open>Conventions.\<close> Definitions have the names of the code, without leading underscores; a name that
  clashes has a suffix. The state is passed explicitly. An exception, a failing assertion and an
  access outside a vector are values. \<open>size_t\<close> is a 64-bit word where it is computed with, and a
  natural number where it only indexes. Loops are recursive functions with their termination proofs;
  only the JSON parser and the drain loop of \<open>Next_Tick\<close>, which need not end, have fuel.
  The lines that the definitions are mapped to are those of the code, without its comments above.

  \<^bold>\<open>Not modelled.\<close> \<open>main\<close>, \<open>Throwing\<close> and \<open>Logger\<close> are input, output and wrappers of system calls; system
  calls that fail with an exception end the server. \<open>Server::run\<close> is modelled in its parts, the events
  of one round, the timeout and the shutdown, but not its choice between polling, shutting down and ending, which
  depends on signals and the clock. Tests, sample scripts, fuzzing and experiments are not part of the
  program. Of the page script, the rest of lodash, \<open>Buffer\<close>, React and Bloodhound, and jQuery, moment,
  CodeMirror, bootstrap, the calendar and the page itself work on the document, the network and the
  clock of a browser, on floating point numbers or on regular expressions of the host.
\<close>

end
